(* ===== verification/Prelude.thy ===== *)
theory Prelude
  imports Main "HOL-Library.Word" "HOL-Library.Char_ord" "HOL-Library.List_Lexorder"
    "HOL-Library.Sublist"
begin

text \<open>
  Shared vocabulary of the development: the program's error values, the result type of a
  fallible Go function, pointers, the unspecified order of a Go map iteration, non-blocking
  channels, and the generic lemmas the components share.
\<close>

section \<open>Fact collections\<close>

named_theorems go_defs \<open>definitions unfolded when an operation is evaluated\<close>
named_theorems go_frame \<open>which fields an operation leaves alone\<close>

section \<open>Errors and results\<close>

text \<open>
  The error values the program builds or tests. \<open>ErrMsg\<close> is an \<open>errors.New\<close> value or an
  error of a third-party package, known by its text only; \<open>ErrWrap\<close> is
  \<open>fmt.Errorf("p: %w", err)\<close>. A rate limit error carries its scope, reason and retry delay
  in nanoseconds.
\<close>

datatype go_error =
  ErrInvalidContent
| ErrInvalidLimitRules "string option"
| ErrInvalidLimiterResult
| RateLimitError (rle_Scope: string) (rle_Reason: string) (rle_RetryAfter: "64 word")
| ErrMsg string
| ErrWrap string go_error

type_synonym 'a result = "go_error + 'a"

abbreviation Err :: "go_error \<Rightarrow> 'a result" where
  "Err \<equiv> Inl"

abbreviation Ok :: "'a \<Rightarrow> 'a result" where
  "Ok \<equiv> Inr"

text \<open>The first error of a sequence of calls: \<open>if err != nil && firstErr == nil\<close>.\<close>

definition first_err :: "go_error option \<Rightarrow> go_error option \<Rightarrow> go_error option" where
  "first_err firstErr e = (case firstErr of Some f \<Rightarrow> Some f | None \<Rightarrow> e)"

lemma first_err_simps [simp]:
  "first_err None e = e" "first_err (Some f) e = Some f" "first_err e None = e"
  by (simp_all add: first_err_def split: option.split)

lemma first_err_eq_None: "first_err a b = None \<longleftrightarrow> a = None \<and> b = None"
  by (cases a) simp_all

section \<open>Lists\<close>

lemma count_list_distinct: "distinct xs \<Longrightarrow> count_list xs x = (if x \<in> set xs then 1 else 0)"
  by (induction xs) auto

section \<open>Pointers\<close>

text \<open>
  A Go pointer used as a map key (\<open>map[*Client]struct{}\<close>) is an address; two pointers are
  equal when their addresses are. The order is only used to enumerate finite sets of
  pointers when a model is evaluated.
\<close>

datatype ptr = Ptr (addr: nat)

instantiation ptr :: linorder
begin

definition less_eq_ptr :: "ptr \<Rightarrow> ptr \<Rightarrow> bool" where
  "less_eq_ptr p q \<longleftrightarrow> addr p \<le> addr q"

definition less_ptr :: "ptr \<Rightarrow> ptr \<Rightarrow> bool" where
  "less_ptr p q \<longleftrightarrow> addr p < addr q"

instance
  by standard (auto simp: less_eq_ptr_def less_ptr_def ptr.expand)

end

lemma ptr_le_code [code]: "Ptr a \<le> Ptr b \<longleftrightarrow> a \<le> b"
  by (simp add: less_eq_ptr_def)

lemma ptr_less_code [code]: "Ptr a < Ptr b \<longleftrightarrow> a < b"
  by (simp add: less_ptr_def)

section \<open>Iteration over a Go map\<close>

text \<open>
  \<open>for k := range m\<close> visits every key of a map once, in an order the language leaves
  unspecified. A model of such a loop takes the order as an argument: a function from the
  set of keys to the list the loop visits.
\<close>

locale map_range =
  fixes range_order :: "'k set \<Rightarrow> 'k list"
  assumes range_set: "finite S \<Longrightarrow> set (range_order S) = S"
    and range_distinct: "finite S \<Longrightarrow> distinct (range_order S)"
begin

lemma range_length: "finite S \<Longrightarrow> length (range_order S) = card S"
  using range_set range_distinct distinct_card by metis

lemma range_mem: "finite S \<Longrightarrow> k \<in> set (range_order S) \<longleftrightarrow> k \<in> S"
  by (simp add: range_set)

lemma range_empty [simp]: "range_order {} = []"
  using range_set [of "{}"] by simp

lemma range_filter_length:
  assumes "finite S"
  shows "length (filter P (range_order S)) = card {k \<in> S. P k}"
proof -
  have "length (filter P (range_order S)) = card (set (filter P (range_order S)))"
    by (rule distinct_card [symmetric]) (simp add: range_distinct assms)
  also have "set (filter P (range_order S)) = {k \<in> S. P k}"
    by (auto simp: range_set assms)
  finally show ?thesis .
qed

lemma range_sum:
  fixes f :: "'k \<Rightarrow> 'b::comm_monoid_add"
  assumes "finite S"
  shows "sum_list (map f (range_order S)) = sum f S"
  using sum.distinct_set_conv_list [OF range_distinct [OF assms], of f] range_set [OF assms]
  by simp

end

text \<open>Ascending order is one order a runtime may choose; the evaluated examples use it.\<close>

interpretation ascending: map_range "sorted_list_of_set :: 'k::linorder set \<Rightarrow> 'k list"
  by unfold_locales simp_all

text \<open>A predicate splits a finite set in two.\<close>

lemma card_filter_split:
  assumes "finite S"
  shows "card S = card {x \<in> S. P x} + card {x \<in> S. \<not> P x}"
proof -
  have "S = {x \<in> S. P x} \<union> {x \<in> S. \<not> P x}" by blast
  moreover have "card ({x \<in> S. P x} \<union> {x \<in> S. \<not> P x}) = card {x \<in> S. P x} + card {x \<in> S. \<not> P x}"
    by (rule card_Un_disjoint) (use assms in auto)
  ultimately show ?thesis by simp
qed

end
