(* ===== verification/Go_Int.thy ===== *)
theory Go_Int
  imports Prelude "HOL-Library.Signed_Division"
begin

text \<open>
  The integers of the program: \<open>int\<close>, \<open>int64\<close> and \<open>time.Duration\<close> are 64-bit two's
  complement words read by \<open>sint\<close>, \<open>uint64\<close> is a 64-bit word read by \<open>unat\<close>. Below them
  the decimal text of an integer (the verb \<open>%d\<close>) and \<open>strconv.Atoi\<close> /
  \<open>strconv.ParseInt(s, 10, 64)\<close> of the standard library.
\<close>

section \<open>64-bit integers and durations\<close>

type_synonym int64 = "64 word"
type_synonym uint64 = "64 word"
type_synonym duration = "64 word"

definition max_int64 :: int where
  "max_int64 = 9223372036854775807"

definition min_int64 :: int where
  "min_int64 = - 9223372036854775808"

lemma sint64_bounds: "min_int64 \<le> sint (x :: int64)" "sint (x :: int64) \<le> max_int64"
  using sint_greater_eq [of x] sint_less [of x]
  by (simp_all add: min_int64_def max_int64_def)

lemma sint_of_int64:
  assumes "min_int64 \<le> i" "i \<le> max_int64"
  shows "sint (word_of_int i :: int64) = i"
  using assms by (simp add: sint_sbintrunc' signed_take_bit_int_eq_self min_int64_def max_int64_def)

text \<open>\<open>time.Nanosecond\<close> is 1; the other units of the \<open>time\<close> package are multiples of it.\<close>

definition ns_per_ms :: int where
  "ns_per_ms = 1000000"

definition ns_per_s :: int where
  "ns_per_s = 1000000000"

text \<open>\<open>Duration.Milliseconds\<close> divides by a million, truncating towards zero.\<close>

definition duration_Milliseconds :: "duration \<Rightarrow> int64" where
  "duration_Milliseconds d = word_of_int (sint d sdiv ns_per_ms)"

text \<open>\<open>time.Duration(n) * time.Millisecond\<close> multiplies 64-bit words, wrapping around.\<close>

definition duration_of_ms :: "int64 \<Rightarrow> duration" where
  "duration_of_ms n = n * word_of_int ns_per_ms"

lemma sdiv_pos:
  fixes a b :: int
  assumes "0 \<le> a" "0 < b"
  shows "a sdiv b = a div b"
  using assms by (cases "a = 0") (simp_all add: signed_divide_int_def sgn_if)

lemma sdiv_neg:
  fixes a b :: int
  assumes "a < 0" "0 < b"
  shows "a sdiv b = - (- a div b)"
  using assms by (simp add: signed_divide_int_def sgn_if)

lemma sint_Milliseconds: "sint (duration_Milliseconds d) = sint d sdiv ns_per_ms"
proof -
  have b: "min_int64 \<le> sint d sdiv ns_per_ms \<and> sint d sdiv ns_per_ms \<le> max_int64"
  proof (cases "0 \<le> sint d")
    case True
    then have "sint d sdiv ns_per_ms = sint d div ns_per_ms"
      by (simp add: sdiv_pos ns_per_ms_def)
    moreover from True have "0 \<le> sint d div ns_per_ms"
      by (simp add: ns_per_ms_def pos_imp_zdiv_nonneg_iff)
    ultimately show ?thesis using sint64_bounds [of d]
      unfolding ns_per_ms_def min_int64_def max_int64_def by linarith
  next
    case False
    then have "sint d sdiv ns_per_ms = - (- sint d div ns_per_ms)"
      by (simp add: sdiv_neg ns_per_ms_def)
    with False sint64_bounds [of d] show ?thesis
      unfolding ns_per_ms_def min_int64_def max_int64_def by linarith
  qed
  then show ?thesis by (simp add: duration_Milliseconds_def sint_of_int64)
qed

lemma Milliseconds_le: "sint (duration_Milliseconds d) \<le> 9223372036854"
proof (cases "0 \<le> sint d")
  case True
  with sint64_bounds [of d] show ?thesis
    by (simp add: sint_Milliseconds sdiv_pos ns_per_ms_def max_int64_def)
next
  case False
  then show ?thesis
    by (simp add: sint_Milliseconds sdiv_neg ns_per_ms_def)
qed

lemma Milliseconds_pos: "0 < sint (duration_Milliseconds d) \<longleftrightarrow> ns_per_ms \<le> sint d"
  by (cases "0 \<le> sint d") (auto simp: sint_Milliseconds sdiv_pos sdiv_neg ns_per_ms_def)

text \<open>No wrap-around while the number of milliseconds is at most that of the longest duration.\<close>

lemma sint_duration_of_ms:
  assumes "0 \<le> sint n" "sint n \<le> 9223372036854"
  shows "sint (duration_of_ms n) = sint n * ns_per_ms"
proof -
  have "duration_of_ms n = word_of_int (sint n * ns_per_ms)"
    by (simp add: duration_of_ms_def)
  moreover have "sint (word_of_int (sint n * ns_per_ms) :: int64) = sint n * ns_per_ms"
    by (rule sint_of_int64) (use assms in \<open>simp_all add: ns_per_ms_def max_int64_def min_int64_def\<close>)
  ultimately show ?thesis by simp
qed

section \<open>Decimal text\<close>

definition digit_char :: "nat \<Rightarrow> char" where
  "digit_char d = char_of (48 + d)"

definition is_digit :: "char \<Rightarrow> bool" where
  "is_digit c \<longleftrightarrow> 48 \<le> (of_char c :: nat) \<and> (of_char c :: nat) \<le> 57"

definition digit_val :: "char \<Rightarrow> nat" where
  "digit_val c = of_char c - 48"

lemma digit_char_digit: "d < 10 \<Longrightarrow> is_digit (digit_char d)"
  by (simp add: is_digit_def digit_char_def)

lemma digit_val_char: "d < 10 \<Longrightarrow> digit_val (digit_char d) = d"
  by (simp add: digit_val_def digit_char_def)

fun nat_dec :: "nat \<Rightarrow> string" where
  "nat_dec n = (if n < 10 then [digit_char n] else nat_dec (n div 10) @ [digit_char (n mod 10)])"

declare nat_dec.simps [simp del]

definition int_dec :: "int \<Rightarrow> string" where
  "int_dec i = (if i < 0 then CHR ''-'' # nat_dec (nat (- i)) else nat_dec (nat i))"

fun dec_val :: "nat \<Rightarrow> string \<Rightarrow> nat" where
  "dec_val acc [] = acc"
| "dec_val acc (c # cs) = dec_val (acc * 10 + digit_val c) cs"

lemma dec_val_append: "dec_val a (xs @ ys) = dec_val (dec_val a xs) ys"
  by (induction xs arbitrary: a) simp_all

lemma nat_dec_digits: "list_all is_digit (nat_dec n)"
proof (induction n rule: nat_dec.induct)
  case (1 n)
  then show ?case by (subst nat_dec.simps) (auto simp: digit_char_digit)
qed

lemma nat_dec_nonempty [simp]: "nat_dec n \<noteq> []"
  by (subst nat_dec.simps) simp

lemma dec_val_nat_dec: "dec_val 0 (nat_dec n) = n"
proof (induction n rule: nat_dec.induct)
  case (1 n)
  then show ?case by (subst nat_dec.simps) (auto simp: dec_val_append digit_val_char)
qed

lemma nat_dec_inj: "nat_dec m = nat_dec n \<longleftrightarrow> m = n"
  using dec_val_nat_dec by metis

text \<open>Only zero starts with a zero.\<close>

lemma nat_dec_leading_zero: "nat_dec n = CHR ''0'' # s \<Longrightarrow> s = []"
proof (induction n arbitrary: s rule: nat_dec.induct)
  case (1 n)
  show ?case
  proof (cases "n < 10")
    case True
    with 1(2) show ?thesis by (simp add: nat_dec.simps [of n])
  next
    case False
    obtain a t where t: "nat_dec (n div 10) = a # t" by (cases "nat_dec (n div 10)") auto
    with 1(2) False have "a = CHR ''0''" by (simp add: nat_dec.simps [of n])
    with 1(1) [OF False] t have "dec_val 0 (nat_dec (n div 10)) = 0" by (simp add: digit_val_def)
    with False show ?thesis by (simp add: dec_val_nat_dec)
  qed
qed

lemma nat_dec_not_sign: "nat_dec n \<noteq> CHR ''-'' # s" "nat_dec n \<noteq> CHR ''+'' # s"
  using nat_dec_digits [of n] by (auto simp: is_digit_def)

lemma int_dec_nonempty [simp]: "int_dec i \<noteq> []"
  by (simp add: int_dec_def)

lemma int_dec_inj: "int_dec i = int_dec j \<longleftrightarrow> i = j"
  by (auto simp: int_dec_def nat_dec_inj nat_dec_not_sign nat_dec_not_sign [symmetric]
      split: if_splits)

section \<open>strconv.Atoi and strconv.ParseInt in base 10\<close>

text \<open>
  An optional sign, then one or more decimal digits (base 10 takes no underscores), then the
  range check of the 64-bit type. \<open>None\<close> stands for a syntax or range error.
\<close>

definition parse_digits :: "string \<Rightarrow> nat option" where
  "parse_digits s = (if s \<noteq> [] \<and> list_all is_digit s then Some (dec_val 0 s) else None)"

definition parse_signed :: "string \<Rightarrow> int option" where
  "parse_signed s =
     (case s of
        [] \<Rightarrow> None
      | c # cs \<Rightarrow>
          if c = CHR ''-'' then map_option (\<lambda>n. - int n) (parse_digits cs)
          else if c = CHR ''+'' then map_option int (parse_digits cs)
          else map_option int (parse_digits s))"

definition strconv_ParseInt64 :: "string \<Rightarrow> int64 option" where
  "strconv_ParseInt64 s =
     (case parse_signed s of
        None \<Rightarrow> None
      | Some i \<Rightarrow> if min_int64 \<le> i \<and> i \<le> max_int64 then Some (word_of_int i) else None)"

definition strconv_Atoi :: "string \<Rightarrow> int64 option" where
  "strconv_Atoi s = strconv_ParseInt64 s"

lemma parse_digits_nat_dec: "parse_digits (nat_dec n) = Some n"
  by (simp add: parse_digits_def nat_dec_digits dec_val_nat_dec)

lemma parse_signed_int_dec: "parse_signed (int_dec i) = Some i"
proof (cases "i < 0")
  case True
  then show ?thesis by (simp add: parse_signed_def int_dec_def parse_digits_nat_dec)
next
  case False
  obtain c cs where s: "nat_dec (nat i) = c # cs" by (cases "nat_dec (nat i)") auto
  with nat_dec_not_sign [of "nat i"] have "c \<noteq> CHR ''-''" "c \<noteq> CHR ''+''" by auto
  with False s parse_digits_nat_dec [of "nat i"] show ?thesis
    by (simp add: parse_signed_def int_dec_def)
qed

text \<open>Formatting a 64-bit integer with \<open>%d\<close> and parsing it back is the identity.\<close>

lemma ParseInt64_int_dec: "strconv_ParseInt64 (int_dec (sint x)) = Some x"
  using sint64_bounds [of x] by (simp add: strconv_ParseInt64_def parse_signed_int_dec)

lemma Atoi_int_dec: "strconv_Atoi (int_dec (sint x)) = Some x"
  by (simp add: strconv_Atoi_def ParseInt64_int_dec)

lemma parse_examples:
  "strconv_Atoi ''-17'' = Some (word_of_int (-17))"
  "strconv_Atoi ''+5'' = Some 5"
  "strconv_Atoi '''' = None"
  "strconv_Atoi ''1_0'' = None"
  "strconv_Atoi ''9223372036854775808'' = None"
  by (simp_all add: strconv_Atoi_def strconv_ParseInt64_def parse_signed_def parse_digits_def
      is_digit_def digit_val_def max_int64_def min_int64_def)

end
