(* ===== verification/Metrics.thy ===== *)
theory Metrics
  imports Go_Int
begin

text \<open>
  internal/metrics/metrics.go: fourteen atomic 64-bit counters, the methods that bump them
  and the Prometheus text they are exposed in. Each counter is a wrapping 64-bit word.
\<close>

section \<open>Counters\<close>

record metrics =
  wsConnectionsActive :: int64
  wsConnectionsTotal :: int64
  messagesAccepted :: int64
  messagesPublished :: int64
  messagesInvalid :: int64
  messagesRateLimited :: int64
  messagesUserLimited :: int64
  messagesIPLimited :: int64
  messagesRoomLimited :: int64
  messagesBroadcast :: int64
  messagesBroadcastDrop :: int64
  persistQueued :: int64
  persistDropped :: int64
  persistFailed :: int64

definition new_metrics :: metrics where
  "new_metrics =
     \<lparr>wsConnectionsActive = 0, wsConnectionsTotal = 0, messagesAccepted = 0,
      messagesPublished = 0, messagesInvalid = 0, messagesRateLimited = 0,
      messagesUserLimited = 0, messagesIPLimited = 0, messagesRoomLimited = 0,
      messagesBroadcast = 0, messagesBroadcastDrop = 0, persistQueued = 0,
      persistDropped = 0, persistFailed = 0\<rparr>"

definition IncWSConnection :: "metrics \<Rightarrow> metrics" where
  "IncWSConnection m =
     m\<lparr>wsConnectionsActive := wsConnectionsActive m + 1,
       wsConnectionsTotal := wsConnectionsTotal m + 1\<rparr>"

definition DecWSConnection :: "metrics \<Rightarrow> metrics" where
  "DecWSConnection m = m\<lparr>wsConnectionsActive := wsConnectionsActive m + (- 1)\<rparr>"

definition IncMessageAccepted :: "metrics \<Rightarrow> metrics" where
  "IncMessageAccepted m = m\<lparr>messagesAccepted := messagesAccepted m + 1\<rparr>"

definition IncMessagePublished :: "metrics \<Rightarrow> metrics" where
  "IncMessagePublished m = m\<lparr>messagesPublished := messagesPublished m + 1\<rparr>"

definition IncMessageInvalid :: "metrics \<Rightarrow> metrics" where
  "IncMessageInvalid m = m\<lparr>messagesInvalid := messagesInvalid m + 1\<rparr>"

definition IncMessageRateLimited :: "string \<Rightarrow> metrics \<Rightarrow> metrics" where
  "IncMessageRateLimited scope m =
     (let m1 = m\<lparr>messagesRateLimited := messagesRateLimited m + 1\<rparr> in
      if scope = ''user'' then m1\<lparr>messagesUserLimited := messagesUserLimited m1 + 1\<rparr>
      else if scope = ''ip'' then m1\<lparr>messagesIPLimited := messagesIPLimited m1 + 1\<rparr>
      else if scope = ''room'' then m1\<lparr>messagesRoomLimited := messagesRoomLimited m1 + 1\<rparr>
      else m1)"

definition AddMessageBroadcast :: "int64 \<Rightarrow> metrics \<Rightarrow> metrics" where
  "AddMessageBroadcast n m =
     (if 0 < sint n then m\<lparr>messagesBroadcast := messagesBroadcast m + n\<rparr> else m)"

definition AddMessageBroadcastDrop :: "int64 \<Rightarrow> metrics \<Rightarrow> metrics" where
  "AddMessageBroadcastDrop n m =
     (if 0 < sint n then m\<lparr>messagesBroadcastDrop := messagesBroadcastDrop m + n\<rparr> else m)"

definition IncPersistQueued :: "metrics \<Rightarrow> metrics" where
  "IncPersistQueued m = m\<lparr>persistQueued := persistQueued m + 1\<rparr>"

definition IncPersistDropped :: "metrics \<Rightarrow> metrics" where
  "IncPersistDropped m = m\<lparr>persistDropped := persistDropped m + 1\<rparr>"

definition IncPersistFailed :: "metrics \<Rightarrow> metrics" where
  "IncPersistFailed m = m\<lparr>persistFailed := persistFailed m + 1\<rparr>"

lemmas metrics_defs =
  IncWSConnection_def DecWSConnection_def IncMessageAccepted_def IncMessagePublished_def
  IncMessageInvalid_def IncMessageRateLimited_def AddMessageBroadcast_def
  AddMessageBroadcastDrop_def IncPersistQueued_def IncPersistDropped_def IncPersistFailed_def

text \<open>
  The rate limit total is the sum of its three scopes for as long as only these scopes are
  reported, which the message service guarantees.
\<close>

definition scopes_balanced :: "metrics \<Rightarrow> bool" where
  "scopes_balanced m \<longleftrightarrow>
     messagesRateLimited m = messagesUserLimited m + messagesIPLimited m + messagesRoomLimited m"

lemma scopes_balanced_new: "scopes_balanced new_metrics"
  by (simp add: scopes_balanced_def new_metrics_def)

lemma scopes_balanced_rate_limited:
  "scope \<in> {''user'', ''ip'', ''room''} \<Longrightarrow>
   scopes_balanced (IncMessageRateLimited scope m) \<longleftrightarrow> scopes_balanced m"
  by (auto simp: scopes_balanced_def IncMessageRateLimited_def Let_def algebra_simps)

lemma scopes_balanced_other [simp]:
  "scopes_balanced (IncWSConnection m) \<longleftrightarrow> scopes_balanced m"
  "scopes_balanced (DecWSConnection m) \<longleftrightarrow> scopes_balanced m"
  "scopes_balanced (IncMessageAccepted m) \<longleftrightarrow> scopes_balanced m"
  "scopes_balanced (IncMessagePublished m) \<longleftrightarrow> scopes_balanced m"
  "scopes_balanced (IncMessageInvalid m) \<longleftrightarrow> scopes_balanced m"
  "scopes_balanced (AddMessageBroadcast n m) \<longleftrightarrow> scopes_balanced m"
  "scopes_balanced (AddMessageBroadcastDrop n m) \<longleftrightarrow> scopes_balanced m"
  "scopes_balanced (IncPersistQueued m) \<longleftrightarrow> scopes_balanced m"
  "scopes_balanced (IncPersistDropped m) \<longleftrightarrow> scopes_balanced m"
  "scopes_balanced (IncPersistFailed m) \<longleftrightarrow> scopes_balanced m"
  by (simp_all add: scopes_balanced_def metrics_defs)

text \<open>Adding a count that fits a signed 64-bit integer; a zero count changes nothing.\<close>

lemma sint_of_nat_pos: "n < 2 ^ 63 \<Longrightarrow> sint (of_nat n :: int64) = int n"
  by (simp add: sint_of_int64 [of "int n", simplified] min_int64_def max_int64_def)

lemma AddMessageBroadcast_count:
  "n < 2 ^ 63 \<Longrightarrow>
   messagesBroadcast (AddMessageBroadcast (of_nat n) m) = messagesBroadcast m + of_nat n"
  "messagesBroadcastDrop (AddMessageBroadcast k m) = messagesBroadcastDrop m"
  by (simp_all add: AddMessageBroadcast_def sint_of_nat_pos)

lemma AddMessageBroadcastDrop_count:
  "n < 2 ^ 63 \<Longrightarrow>
   messagesBroadcastDrop (AddMessageBroadcastDrop (of_nat n) m) = messagesBroadcastDrop m + of_nat n"
  "messagesBroadcast (AddMessageBroadcastDrop k m) = messagesBroadcast m"
  by (simp_all add: AddMessageBroadcastDrop_def sint_of_nat_pos)

section \<open>Prometheus text exposition\<close>

abbreviation newline :: char where
  "newline \<equiv> CHR 0x0A"

definition writeMetric :: "string \<Rightarrow> string \<Rightarrow> string \<Rightarrow> string \<Rightarrow> int64 \<Rightarrow> string" where
  "writeMetric b name typ help v =
     b @ ''# HELP '' @ name @ '' '' @ help @ [newline]
       @ ''# TYPE '' @ name @ '' '' @ typ @ [newline]
       @ name @ '' '' @ int_dec (sint v) @ [newline]"

definition metric_calls :: "metrics \<Rightarrow> (string \<times> string \<times> string \<times> int64) list" where
  "metric_calls m =
     [(''danmakux_ws_connections_active'', ''gauge'', ''Current active WebSocket connections.'',
       wsConnectionsActive m),
      (''danmakux_ws_connections_total'', ''counter'', ''Total accepted WebSocket connections.'',
       wsConnectionsTotal m),
      (''danmakux_messages_accepted_total'', ''counter'',
       ''Total valid danmaku messages accepted from clients.'', messagesAccepted m),
      (''danmakux_messages_published_total'', ''counter'',
       ''Total danmaku messages published to broker.'', messagesPublished m),
      (''danmakux_messages_invalid_total'', ''counter'',
       ''Total invalid danmaku messages rejected.'', messagesInvalid m),
      (''danmakux_messages_rate_limited_total'', ''counter'',
       ''Total danmaku messages rejected by rate limit.'', messagesRateLimited m),
      (''danmakux_messages_user_limited_total'', ''counter'',
       ''Total danmaku messages rejected by the user limit.'', messagesUserLimited m),
      (''danmakux_messages_ip_limited_total'', ''counter'',
       ''Total danmaku messages rejected by the IP limit.'', messagesIPLimited m),
      (''danmakux_messages_room_limited_total'', ''counter'',
       ''Total danmaku messages rejected by the room limit.'', messagesRoomLimited m),
      (''danmakux_messages_broadcast_total'', ''counter'',
       ''Total local WebSocket message enqueue successes.'', messagesBroadcast m),
      (''danmakux_messages_broadcast_dropped_total'', ''counter'',
       ''Total local WebSocket message enqueue drops.'', messagesBroadcastDrop m),
      (''danmakux_persist_queued_total'', ''counter'',
       ''Total messages queued for persistence.'', persistQueued m),
      (''danmakux_persist_dropped_total'', ''counter'',
       ''Total messages dropped because persistence queue was full.'', persistDropped m),
      (''danmakux_persist_failed_total'', ''counter'', ''Total failed persistence batches.'',
       persistFailed m)]"

definition PrometheusText :: "metrics \<Rightarrow> string" where
  "PrometheusText m =
     foldl (\<lambda>b (name, typ, help, v). writeMetric b name typ help v) [] (metric_calls m)"

subsection \<open>Reading the text back\<close>

text \<open>
  A scraper splits the text into lines, skips the comment lines and splits each sample at
  its first space into a name and a decimal value.
\<close>

fun split_lines :: "string \<Rightarrow> string \<Rightarrow> string list" where
  "split_lines cur [] = (if cur = [] then [] else [cur])"
| "split_lines cur (c # cs) =
     (if c = newline then cur # split_lines [] cs else split_lines (cur @ [c]) cs)"

definition parse_sample :: "string \<Rightarrow> (string \<times> int64) option" where
  "parse_sample l =
     (case l of
        [] \<Rightarrow> None
      | c # _ \<Rightarrow>
          if c = CHR ''#'' then None
          else map_option (Pair (takeWhile (\<lambda>x. x \<noteq> CHR '' '') l))
                 (strconv_ParseInt64 (drop 1 (dropWhile (\<lambda>x. x \<noteq> CHR '' '') l))))"

definition scrape :: "string \<Rightarrow> (string \<times> int64) list" where
  "scrape txt = List.map_filter parse_sample (split_lines [] txt)"

lemma split_lines_line:
  "newline \<notin> set l \<Longrightarrow> split_lines cur (l @ newline # rest) = (cur @ l) # split_lines [] rest"
  by (induction l arbitrary: cur) auto

lemma int_dec_chars: "c \<in> set (int_dec i) \<Longrightarrow> c = CHR ''-'' \<or> is_digit c"
  using nat_dec_digits by (auto simp: int_dec_def list_all_iff split: if_splits)

lemma newline_not_in_int_dec: "newline \<notin> set (int_dec i)"
  using int_dec_chars [of newline i] by (auto simp: is_digit_def)

definition plain_name :: "string \<Rightarrow> bool" where
  "plain_name n \<longleftrightarrow> n \<noteq> [] \<and> hd n \<noteq> CHR ''#'' \<and> CHR '' '' \<notin> set n \<and> newline \<notin> set n"

lemma parse_sample_line:
  assumes "plain_name n"
  shows "parse_sample (n @ CHR '' '' # int_dec (sint v)) = Some (n, v)"
proof -
  obtain c cs where n: "n = c # cs" using assms by (cases n) (auto simp: plain_name_def)
  have "takeWhile (\<lambda>x. x \<noteq> CHR '' '') (n @ CHR '' '' # int_dec (sint v)) = n"
    "dropWhile (\<lambda>x. x \<noteq> CHR '' '') (n @ CHR '' '' # int_dec (sint v)) =
      CHR '' '' # int_dec (sint v)"
    using assms by (auto simp: plain_name_def takeWhile_append dropWhile_append)
  with assms n show ?thesis
    by (simp add: parse_sample_def plain_name_def ParseInt64_int_dec)
qed

lemma scrape_metric:
  assumes "plain_name n" "newline \<notin> set t" "newline \<notin> set h"
  shows "scrape (writeMetric [] n t h v @ rest) = (n, v) # scrape rest"
proof -
  have "split_lines [] (writeMetric [] n t h v @ rest) =
    (''# HELP '' @ n @ '' '' @ h) # (''# TYPE '' @ n @ '' '' @ t) #
    (n @ '' '' @ int_dec (sint v)) # split_lines [] rest"
  proof -
    have "writeMetric [] n t h v @ rest =
      (''# HELP '' @ n @ '' '' @ h) @ newline # ((''# TYPE '' @ n @ '' '' @ t) @ newline #
      ((n @ '' '' @ int_dec (sint v)) @ newline # rest))"
      by (simp add: writeMetric_def)
    moreover have "newline \<notin> set (''# HELP '' @ n @ '' '' @ h)"
      "newline \<notin> set (''# TYPE '' @ n @ '' '' @ t)"
      "newline \<notin> set (n @ '' '' @ int_dec (sint v))"
      using assms by (auto simp: plain_name_def newline_not_in_int_dec)
    ultimately show ?thesis by (simp only: split_lines_line append_Nil simp_thms)
  qed
  moreover have "parse_sample (''# HELP '' @ n @ '' '' @ h) = None"
    "parse_sample (''# TYPE '' @ n @ '' '' @ t) = None"
    by (simp_all add: parse_sample_def)
  ultimately show ?thesis
    by (simp add: scrape_def List.map_filter_simps parse_sample_line [OF assms(1)])
qed

lemma writeMetric_append: "writeMetric b n t h v = b @ writeMetric [] n t h v"
  by (simp add: writeMetric_def)

lemma foldl_writeMetric:
  "foldl (\<lambda>b (n, t, h, v). writeMetric b n t h v) b cs =
   b @ concat (map (\<lambda>(n, t, h, v). writeMetric [] n t h v) cs)"
proof (induction cs arbitrary: b)
  case (Cons c cs)
  obtain n t h v where "c = (n, t, h, v)" by (metis prod_cases4)
  with Cons show ?case by (simp add: writeMetric_append [of b])
qed simp

definition clean_call :: "string \<times> string \<times> string \<times> int64 \<Rightarrow> bool" where
  "clean_call = (\<lambda>(n, t, h, v). plain_name n \<and> newline \<notin> set t \<and> newline \<notin> set h)"

lemma scrape_calls:
  "list_all clean_call cs \<Longrightarrow>
   scrape (concat (map (\<lambda>(n, t, h, v). writeMetric [] n t h v) cs)) =
   map (\<lambda>(n, t, h, v). (n, v)) cs"
proof (induction cs)
  case Nil
  then show ?case by (simp add: scrape_def List.map_filter_simps)
next
  case (Cons c cs)
  obtain n t h v where "c = (n, t, h, v)" by (metis prod_cases4)
  with Cons show ?case by (simp add: clean_call_def scrape_metric)
qed

lemma metric_calls_clean: "list_all clean_call (metric_calls m)"
  by (simp add: metric_calls_def clean_call_def plain_name_def)


lemma metric_names_distinct: "distinct (map fst (metric_calls m))"
  by (simp add: metric_calls_def)

end
