(* ===== verification/Redis.thy ===== *)
theory Redis
  imports Complex_Main Go_Int
begin

text \<open>
  What the program relies on of Redis. The server, its Lua interpreter and the client library
  are not part of the repository: the four commands the limiter script calls are a parameter
  of the model (\<open>redis_cmds\<close>), the two number conversions of Lua another (\<open>lua\<close>), and
  their documented behaviour is stated as the assumptions of a locale over a view of the
  database. A store with absolute expiry times shows that the assumptions can be met.
\<close>

section \<open>Fallible operations on a state\<close>

type_synonym ('s, 'a) op = "'s \<Rightarrow> 'a result \<times> 's"

definition op_return :: "'a \<Rightarrow> ('s, 'a) op" where
  "op_return x s = (Ok x, s)"

definition op_fail :: "go_error \<Rightarrow> ('s, 'a) op" where
  "op_fail e s = (Err e, s)"

text \<open>Sequencing stops at the first error and keeps the effects made so far.\<close>

definition op_bind :: "('s, 'a) op \<Rightarrow> ('a \<Rightarrow> ('s, 'b) op) \<Rightarrow> ('s, 'b) op" where
  "op_bind m f s = (case m s of (Inl e, s') \<Rightarrow> (Inl e, s') | (Inr x, s') \<Rightarrow> f x s')"

declare op_return_def [go_defs] op_fail_def [go_defs] op_bind_def [go_defs]

lemma op_bind_Ok: "m s = (Ok x, s') \<Longrightarrow> op_bind m f s = f x s'"
  by (simp add: op_bind_def)

lemma op_bind_Err: "m s = (Err e, s') \<Longrightarrow> op_bind m f s = (Err e, s')"
  by (simp add: op_bind_def)

section \<open>Commands, replies and Lua numbers\<close>

record 's redis_cmds =
  cmd_GET :: "string \<Rightarrow> ('s, string option) op"
  cmd_INCR :: "string \<Rightarrow> ('s, int) op"
  cmd_PTTL :: "string \<Rightarrow> ('s, int) op"
  cmd_PEXPIRE :: "string \<Rightarrow> string \<Rightarrow> ('s, int) op"

text \<open>A Lua number is a double; the integers the script handles stay below \<open>2 ^ 53\<close>.\<close>

record lua =
  lua_tonumber :: "string \<Rightarrow> rat option"
  lua_tostring :: "rat \<Rightarrow> string"

text \<open>A reply as the client library decodes it: integers are Go's \<open>int64\<close>.\<close>

datatype redis_reply = RInt int64 | RStr string | RArr "redis_reply list" | RNil

text \<open>A Lua number in a script's result is converted to an integer reply, dropping the fraction.\<close>

definition lua_integer :: "rat \<Rightarrow> int" where
  "lua_integer r = (if r < 0 then - \<lfloor>- r\<rfloor> else \<lfloor>r\<rfloor>)"

lemma lua_integer_of_int [simp]: "lua_integer (of_int n) = n"
  by (simp add: lua_integer_def flip: of_int_minus)

definition lua_exact :: int where
  "lua_exact = 2 ^ 53"

section \<open>Documented behaviour\<close>

text \<open>
  The view of a database at one instant: each string key with its value and, when it has one,
  its remaining time to live in milliseconds. A script runs atomically, at one instant of the
  server's clock.
\<close>

type_synonym view = "string \<rightharpoonup> string \<times> int option"

definition pttl_of :: "(string \<times> int option) option \<Rightarrow> int" where
  "pttl_of c = (case c of None \<Rightarrow> - 2 | Some (_, None) \<Rightarrow> - 1 | Some (_, Some t) \<Rightarrow> t)"

locale redis_lua =
  fixes R :: "'s redis_cmds"
    and L :: lua
    and view :: "'s \<Rightarrow> view"
  assumes get_reply: "fst (cmd_GET R k s) = Ok (map_option fst (view s k))"
    and get_view: "view (snd (cmd_GET R k s)) = view s"
    and pttl_reply: "fst (cmd_PTTL R k s) = Ok (pttl_of (view s k))"
    and pttl_view: "view (snd (cmd_PTTL R k s)) = view s"
    and ttl_nonneg: "view s k = Some (x, Some t) \<Longrightarrow> 0 \<le> t"
    and incr_absent: "view s k = None \<Longrightarrow>
      fst (cmd_INCR R k s) = Ok 1 \<and> view (snd (cmd_INCR R k s)) = (view s)(k \<mapsto> (int_dec 1, None))"
    and incr_present: "view s k = Some (int_dec n, ttl) \<Longrightarrow> min_int64 \<le> n \<Longrightarrow> n < max_int64 \<Longrightarrow>
      fst (cmd_INCR R k s) = Ok (n + 1) \<and>
      view (snd (cmd_INCR R k s)) = (view s)(k \<mapsto> (int_dec (n + 1), ttl))"
    and pexpire_present: "view s k = Some (x, ttl) \<Longrightarrow> 0 < ms \<Longrightarrow> ms \<le> lua_exact \<Longrightarrow>
      fst (cmd_PEXPIRE R k (int_dec ms) s) = Ok 1 \<and>
      view (snd (cmd_PEXPIRE R k (int_dec ms) s)) = (view s)(k \<mapsto> (x, Some ms))"
    and lua_tonumber_int: "\<bar>n\<bar> \<le> lua_exact \<Longrightarrow> lua_tonumber L (int_dec n) = Some (of_int n)"
    and lua_tostring_int: "\<bar>n\<bar> \<le> lua_exact \<Longrightarrow> lua_tostring L (of_int n) = int_dec n"
begin

lemma GET_run: "\<exists>s'. cmd_GET R k s = (Ok (map_option fst (view s k)), s') \<and> view s' = view s"
  using get_reply get_view by (metis prod.collapse)

lemma PTTL_run: "\<exists>s'. cmd_PTTL R k s = (Ok (pttl_of (view s k)), s') \<and> view s' = view s"
  using pttl_reply pttl_view by (metis prod.collapse)

lemma INCR_run_absent:
  "view s k = None \<Longrightarrow>
   \<exists>s'. cmd_INCR R k s = (Ok 1, s') \<and> view s' = (view s)(k \<mapsto> (int_dec 1, None))"
  using incr_absent by (metis prod.collapse)

lemma INCR_run_present:
  "view s k = Some (int_dec n, t) \<Longrightarrow> min_int64 \<le> n \<Longrightarrow> n < max_int64 \<Longrightarrow>
   \<exists>s'. cmd_INCR R k s = (Ok (n + 1), s') \<and> view s' = (view s)(k \<mapsto> (int_dec (n + 1), t))"
  using incr_present by (metis prod.collapse)

lemma PEXPIRE_run:
  "view s k = Some (x, t) \<Longrightarrow> 0 < ms \<Longrightarrow> ms \<le> lua_exact \<Longrightarrow>
   \<exists>s'. cmd_PEXPIRE R k (int_dec ms) s = (Ok 1, s') \<and> view s' = (view s)(k \<mapsto> (x, Some ms))"
  using pexpire_present by (metis prod.collapse)

end

text \<open>
  Between two scripts time passes: a key without a time to live stays, one with a time to
  live keeps its value while the time to live shrinks, or expires.
\<close>

definition aged_cell ::
    "(string \<times> int option) option \<Rightarrow> (string \<times> int option) option \<Rightarrow> bool" where
  "aged_cell c c' =
     (case c of
        None \<Rightarrow> c' = None
      | Some (x, None) \<Rightarrow> c' = Some (x, None)
      | Some (x, Some t) \<Rightarrow>
          (case c' of
             None \<Rightarrow> True
           | Some (y, None) \<Rightarrow> False
           | Some (y, Some t') \<Rightarrow> y = x \<and> 0 \<le> t' \<and> t' \<le> t))"

definition aged :: "view \<Rightarrow> view \<Rightarrow> bool" where
  "aged v v' \<longleftrightarrow> (\<forall>k. aged_cell (v k) (v' k))"

section \<open>A store that behaves as documented\<close>

record kv =
  kv_now :: int
  kv_cells :: "string \<rightharpoonup> string \<times> int option"

definition kv_view :: "kv \<Rightarrow> view" where
  "kv_view s k =
     (case kv_cells s k of
        None \<Rightarrow> None
      | Some (x, None) \<Rightarrow> Some (x, None)
      | Some (x, Some d) \<Rightarrow> if d \<le> kv_now s then None else Some (x, Some (d - kv_now s)))"

definition kv_put :: "string \<Rightarrow> string \<times> int option \<Rightarrow> kv \<Rightarrow> kv" where
  "kv_put k c s = s\<lparr>kv_cells := (kv_cells s)(k \<mapsto> c)\<rparr>"

definition kv_deadline :: "string \<Rightarrow> kv \<Rightarrow> int option" where
  "kv_deadline k s = (case kv_cells s k of Some (_, d) \<Rightarrow> d | None \<Rightarrow> None)"

definition kv_cmds :: "kv redis_cmds" where
  "kv_cmds =
     \<lparr>cmd_GET = (\<lambda>k s. (Ok (map_option fst (kv_view s k)), s)),
      cmd_INCR = (\<lambda>k s.
        case kv_view s k of
          None \<Rightarrow> (Ok 1, kv_put k (int_dec 1, None) s)
        | Some (x, _) \<Rightarrow>
            (case parse_signed x of
               Some n \<Rightarrow>
                 if min_int64 \<le> n \<and> n < max_int64
                 then (Ok (n + 1), kv_put k (int_dec (n + 1), kv_deadline k s) s)
                 else (Err (ErrMsg ''ERR increment or decrement would overflow''), s)
             | None \<Rightarrow> (Err (ErrMsg ''ERR value is not an integer or out of range''), s))),
      cmd_PTTL = (\<lambda>k s. (Ok (pttl_of (kv_view s k)), s)),
      cmd_PEXPIRE = (\<lambda>k arg s.
        case parse_signed arg of
          None \<Rightarrow> (Err (ErrMsg ''ERR value is not an integer or out of range''), s)
        | Some ms \<Rightarrow>
            (case kv_view s k of
               None \<Rightarrow> (Ok 0, s)
             | Some (x, _) \<Rightarrow> (Ok 1, kv_put k (x, Some (kv_now s + ms)) s)))\<rparr>"

definition int_lua :: lua where
  "int_lua =
     \<lparr>lua_tonumber = (\<lambda>x. map_option of_int (parse_signed x)),
      lua_tostring = (\<lambda>r. int_dec (lua_integer r))\<rparr>"

definition kv_wait :: "int \<Rightarrow> kv \<Rightarrow> kv" where
  "kv_wait ms s = s\<lparr>kv_now := kv_now s + ms\<rparr>"

definition kv_empty :: kv where
  "kv_empty = \<lparr>kv_now = 0, kv_cells = Map.empty\<rparr>"

lemma kv_view_put:
  "kv_view (kv_put k (x, None) s) = (kv_view s)(k \<mapsto> (x, None))"
  "0 < ms \<Longrightarrow> kv_view (kv_put k (x, Some (kv_now s + ms)) s) = (kv_view s)(k \<mapsto> (x, Some ms))"
  by (auto simp: kv_view_def kv_put_def fun_eq_iff split: option.splits)

lemma kv_view_deadline:
  "kv_view s k = Some (x, t) \<Longrightarrow>
   kv_view (kv_put k (y, kv_deadline k s) s) = (kv_view s)(k \<mapsto> (y, t))"
  by (auto simp: kv_view_def kv_put_def kv_deadline_def fun_eq_iff split: option.splits if_splits)

lemma kv_redis_lua: "redis_lua kv_cmds int_lua kv_view"
proof
  fix s :: kv and k x t
  assume "kv_view s k = Some (x, Some t)"
  then show "0 \<le> t" by (auto simp: kv_view_def split: option.splits if_splits)
qed (auto simp: kv_cmds_def int_lua_def kv_view_put kv_view_deadline parse_signed_int_dec)

interpretation kv: redis_lua kv_cmds int_lua kv_view
  by (rule kv_redis_lua)

lemma kv_wait_aged: "0 \<le> ms \<Longrightarrow> aged (kv_view s) (kv_view (kv_wait ms s))"
  by (auto simp: aged_def aged_cell_def kv_view_def kv_wait_def split: option.splits if_splits)

end
