(* ===== verification/Limiter.thy ===== *)
theory Limiter
  imports Redis
begin

text \<open>
  internal/limiter/limiter.go: the rules and decisions, the Lua script of the fixed window
  limiter over the Redis commands it calls, and \<open>Allow\<close>, which checks the rules, runs the
  script and decodes its reply. The abstract limiter at the end works on a table of counters;
  the script refines it.
\<close>

section \<open>Rules and decisions\<close>

record rule =
  rule_Scope :: string
  rule_Key :: string
  rule_Limit :: int64
  rule_Window :: duration

record decision =
  Allowed :: bool
  RejectedScope :: string
  RetryAfter :: duration

definition allowed_decision :: decision where
  "allowed_decision = \<lparr>Allowed = True, RejectedScope = [], RetryAfter = 0\<rparr>"

definition rejected_decision :: "string \<Rightarrow> duration \<Rightarrow> decision" where
  "rejected_decision scope d = \<lparr>Allowed = False, RejectedScope = scope, RetryAfter = d\<rparr>"

lemma decision_sel [simp]:
  "Allowed allowed_decision" "\<not> Allowed (rejected_decision sc d)"
  "RejectedScope (rejected_decision sc d) = sc" "RetryAfter (rejected_decision sc d) = d"
  by (simp_all add: allowed_decision_def rejected_decision_def)

section \<open>The Lua script\<close>

text \<open>\<open>ARGV[n]\<close> counts from 1; an index out of range is \<open>nil\<close>.\<close>

definition lua_index :: "'a list \<Rightarrow> nat \<Rightarrow> 'a option" where
  "lua_index xs n = (if 1 \<le> n \<and> n \<le> length xs then Some (xs ! (n - 1)) else None)"

definition lua_number_at :: "lua \<Rightarrow> string list \<Rightarrow> nat \<Rightarrow> rat option" where
  "lua_number_at L argv n = Option.bind (lua_index argv n) (lua_tonumber L)"

definition lua_type_error :: go_error where
  "lua_type_error = ErrMsg ''ERR Error running script''"

text \<open>
  The first loop: for each key in order, compare its count with its limit; an exhausted key
  ends the script with a rejection, after giving the key a time to live if it has none.
  \<open>None\<close> means that every key passed. Comparing or passing \<open>nil\<close> raises a Lua error.
\<close>

fun script_check ::
    "'s redis_cmds \<Rightarrow> lua \<Rightarrow> string list \<Rightarrow> nat \<Rightarrow> string list \<Rightarrow> ('s, (int \<times> int \<times> int) option) op"
where
  "script_check R L argv i [] = op_return None"
| "script_check R L argv i (k # ks) =
     op_bind (cmd_GET R k) (\<lambda>v.
       let current = lua_tonumber L (case v of Some x \<Rightarrow> x | None \<Rightarrow> ''0'');
           limit = lua_number_at L argv ((i - 1) * 2 + 1);
           window = lua_number_at L argv ((i - 1) * 2 + 2)
       in case (current, limit) of
            (Some c, Some l) \<Rightarrow>
              if l \<le> c then
                op_bind (cmd_PTTL R k) (\<lambda>ttl.
                  if ttl < 0 then
                    (case window of
                       None \<Rightarrow> op_fail lua_type_error
                     | Some w \<Rightarrow>
                         op_bind (cmd_PEXPIRE R k (lua_tostring L w)) (\<lambda>_.
                           op_return (Some (0, int i, lua_integer w))))
                  else op_return (Some (0, int i, ttl)))
              else script_check R L argv (i + 1) ks
          | _ \<Rightarrow> op_fail lua_type_error)"

text \<open>The second loop: count every key, starting the window of a key counted for the first time.\<close>

fun script_count ::
    "'s redis_cmds \<Rightarrow> string list \<Rightarrow> nat \<Rightarrow> string list \<Rightarrow> ('s, unit) op"
where
  "script_count R argv i [] = op_return ()"
| "script_count R argv i (k # ks) =
     op_bind (cmd_INCR R k) (\<lambda>current.
       op_bind
         (if current = 1 then
            (case lua_index argv ((i - 1) * 2 + 2) of
               None \<Rightarrow> op_fail lua_type_error
             | Some a \<Rightarrow> op_bind (cmd_PEXPIRE R k a) (\<lambda>_. op_return ()))
          else op_return ())
         (\<lambda>_. script_count R argv (i + 1) ks))"

definition script_reply :: "int \<times> int \<times> int \<Rightarrow> redis_reply" where
  "script_reply = (\<lambda>(a, i, t). RArr [RInt (word_of_int a), RInt (word_of_int i), RInt (word_of_int t)])"

definition fixedWindowScript ::
    "'s redis_cmds \<Rightarrow> lua \<Rightarrow> string list \<Rightarrow> string list \<Rightarrow> ('s, redis_reply) op" where
  "fixedWindowScript R L keys argv =
     op_bind (script_check R L argv 1 keys) (\<lambda>r.
       case r of
         Some rej \<Rightarrow> op_return (script_reply rej)
       | None \<Rightarrow>
           op_bind (script_count R argv 1 keys) (\<lambda>_. op_return (script_reply (1, 0, 0))))"

section \<open>Allow\<close>

definition rule_invalid :: "rule \<Rightarrow> bool" where
  "rule_invalid r \<longleftrightarrow>
     rule_Scope r = [] \<or> rule_Key r = [] \<or> sint (rule_Limit r) \<le> 0 \<or>
     sint (duration_Milliseconds (rule_Window r)) \<le> 0"

text \<open>The loop over the rules builds the keys and arguments and stops at an invalid rule.\<close>

fun collect_rules :: "string list \<Rightarrow> string list \<Rightarrow> rule list \<Rightarrow> (string list \<times> string list) result"
where
  "collect_rules keys args [] = Ok (keys, args)"
| "collect_rules keys args (r # rs) =
     (if rule_invalid r then Err (ErrInvalidLimitRules (Some (rule_Scope r)))
      else collect_rules (keys @ [rule_Key r])
             (args @ [int_dec (sint (rule_Limit r)),
                      int_dec (sint (duration_Milliseconds (rule_Window r)))]) rs)"

text \<open>Decoding: three integers, the first 0 or 1, the second an index into the rules.\<close>

definition decode_reply :: "rule list \<Rightarrow> redis_reply \<Rightarrow> decision result" where
  "decode_reply rules reply =
     (case reply of
        RArr [RInt allowedNum, RInt rejectedIndex, RInt ttlNum] \<Rightarrow>
          if sint allowedNum \<noteq> 0 \<and> sint allowedNum \<noteq> 1 then Err ErrInvalidLimiterResult
          else if sint allowedNum = 1 then Ok allowed_decision
          else if sint rejectedIndex < 1 \<or> int (length rules) < sint rejectedIndex
            then Err ErrInvalidLimiterResult
          else
            let ttlNum' = (if sint ttlNum < 0 then 0 else ttlNum)
            in Ok (rejected_decision (rule_Scope (rules ! nat (sint rejectedIndex - 1)))
                     (duration_of_ms ttlNum'))
      | _ \<Rightarrow> Err ErrInvalidLimiterResult)"

text \<open>
  \<open>run\<close> stands for \<open>fixedWindowScript.Run(ctx, client, keys, args...).Result()\<close>: it may
  fail, or answer anything.
\<close>

definition Allow ::
    "(string list \<Rightarrow> string list \<Rightarrow> ('s, redis_reply) op) \<Rightarrow> rule list \<Rightarrow> ('s, decision) op" where
  "Allow run rules s =
     (if rules = [] then (Err (ErrInvalidLimitRules None), s)
      else case collect_rules [] [] rules of
             Inl e \<Rightarrow> (Inl e, s)
           | Inr (keys, args) \<Rightarrow>
               (case run keys args s of
                  (Inl e, s') \<Rightarrow> (Inl e, s')
                | (Inr reply, s') \<Rightarrow> (decode_reply rules reply, s')))"

text \<open>The limiter on a server that runs the script.\<close>

definition RedisAllow :: "'s redis_cmds \<Rightarrow> lua \<Rightarrow> rule list \<Rightarrow> ('s, decision) op" where
  "RedisAllow R L = Allow (fixedWindowScript R L)"

subsection \<open>Rule checking\<close>

lemma collect_rules_Ok:
  "list_all (\<lambda>r. \<not> rule_invalid r) rules \<Longrightarrow>
   collect_rules keys args rules =
     Ok (keys @ map rule_Key rules,
         args @ concat (map (\<lambda>r. [int_dec (sint (rule_Limit r)),
           int_dec (sint (duration_Milliseconds (rule_Window r)))]) rules))"
  by (induction rules arbitrary: keys args) auto

lemma collect_rules_Err:
  "list_ex rule_invalid rules \<Longrightarrow> \<exists>r \<in> set rules. rule_invalid r \<and>
   collect_rules keys args rules = Err (ErrInvalidLimitRules (Some (rule_Scope r)))"
  by (induction rules arbitrary: keys args) auto

text \<open>
  A list of rules that is empty or holds an invalid rule (no scope, no key, a limit or a
  window in milliseconds that is not positive) is refused with the error for invalid rules,
  and the database is not touched.
\<close>

lemma Allow_invalid_rules:
  assumes "rules = [] \<or> list_ex rule_invalid rules"
  shows "\<exists>sc. Allow run rules s = (Err (ErrInvalidLimitRules sc), s)"
proof (cases "rules = []")
  case True
  then show ?thesis by (simp add: Allow_def)
next
  case False
  with assms have "list_ex rule_invalid rules" by simp
  then obtain r :: rule where "collect_rules [] [] rules = Err (ErrInvalidLimitRules (Some (rule_Scope r)))"
    using collect_rules_Err [of rules "[]" "[]"] by blast
  with False show ?thesis by (simp add: Allow_def)
qed

lemma Allow_invalid_rules_example:
  "\<exists>sc. RedisAllow kv_cmds int_lua
     [\<lparr>rule_Scope = ''user'', rule_Key = ''key'', rule_Limit = 0, rule_Window = 1000000000\<rparr>]
     kv_empty = (Err (ErrInvalidLimitRules sc), kv_empty)"
  unfolding RedisAllow_def
  by (rule Allow_invalid_rules) (simp add: rule_invalid_def)

subsection \<open>Decisions name a rule\<close>

lemma decode_reply_scope:
  assumes "decode_reply rules reply = Ok d" "\<not> Allowed d"
  shows "RejectedScope d \<in> rule_Scope ` set rules"
proof -
  obtain a i t where r: "reply = RArr [RInt a, RInt i, RInt t]"
    using assms(1) by (auto simp: decode_reply_def split: redis_reply.splits list.splits)
  with assms have "\<not> (sint i < 1 \<or> int (length rules) < sint i)"
    "RejectedScope d = rule_Scope (rules ! nat (sint i - 1))"
    by (auto simp: decode_reply_def Let_def split: if_splits)
  then show ?thesis by auto
qed

lemma Allow_scope:
  assumes "Allow run rules s = (Ok d, s')" "\<not> Allowed d"
  shows "RejectedScope d \<in> rule_Scope ` set rules"
  using assms decode_reply_scope
  by (fastforce simp: Allow_def split: if_splits sum.splits prod.splits)

text \<open>
  The interface \<open>limiter.Limiter\<close>: what a caller may rely on for any implementation. A
  rejection names the scope of one of the rules it was given.
\<close>

locale limiter_iface =
  fixes allow :: "rule list \<Rightarrow> ('s, decision) op"
  assumes reject_names_rule:
    "allow rules s = (Ok d, s') \<Longrightarrow> \<not> Allowed d \<Longrightarrow> RejectedScope d \<in> rule_Scope ` set rules"
begin

lemma reject_scope_cases:
  "allow rules s = (Ok d, s') \<Longrightarrow> \<not> Allowed d \<Longrightarrow> map rule_Scope rules = scopes \<Longrightarrow>
   RejectedScope d \<in> set scopes"
  using reject_names_rule by fastforce

end

text \<open>The Redis limiter provides it whatever the script run answers.\<close>

interpretation redis_limiter: limiter_iface "Allow run"
  for run :: "string list \<Rightarrow> string list \<Rightarrow> ('s, redis_reply) op"
  by unfold_locales (rule Allow_scope)

section \<open>The abstract limiter: a table of counters\<close>

text \<open>
  A counter is the number of requests counted in the current window and the time to live of
  the window; no entry is a counter that never started.
\<close>

type_synonym counters = "string \<rightharpoonup> nat \<times> int option"

definition count_of :: "counters \<Rightarrow> string \<Rightarrow> nat" where
  "count_of C k = (case C k of None \<Rightarrow> 0 | Some (n, _) \<Rightarrow> n)"

definition rule_max :: "rule \<Rightarrow> nat" where
  "rule_max r = nat (sint (rule_Limit r))"

definition rule_ms :: "rule \<Rightarrow> int" where
  "rule_ms r = sint (duration_Milliseconds (rule_Window r))"

definition exhausted :: "counters \<Rightarrow> rule \<Rightarrow> bool" where
  "exhausted C r \<longleftrightarrow> rule_max r \<le> count_of C (rule_Key r)"

definition retry_ms :: "counters \<Rightarrow> rule \<Rightarrow> int" where
  "retry_ms C r = (case C (rule_Key r) of Some (_, Some t) \<Rightarrow> t | _ \<Rightarrow> rule_ms r)"

definition heal :: "counters \<Rightarrow> rule \<Rightarrow> counters" where
  "heal C r =
     (case C (rule_Key r) of
        Some (n, None) \<Rightarrow> C(rule_Key r \<mapsto> (n, Some (rule_ms r)))
      | _ \<Rightarrow> C)"

definition bump :: "rule \<Rightarrow> counters \<Rightarrow> counters" where
  "bump r C =
     (case C (rule_Key r) of
        None \<Rightarrow> C(rule_Key r \<mapsto> (1, Some (rule_ms r)))
      | Some (n, t) \<Rightarrow> C(rule_Key r \<mapsto> (n + 1, if n = 0 then Some (rule_ms r) else t)))"

definition spec_allow :: "rule list \<Rightarrow> counters \<Rightarrow> decision \<times> counters" where
  "spec_allow rules C =
     (case find (exhausted C) rules of
        Some r \<Rightarrow> (rejected_decision (rule_Scope r) (duration_of_ms (word_of_int (retry_ms C r))), heal C r)
      | None \<Rightarrow> (allowed_decision, fold bump rules C))"

lemma bump_other: "k \<noteq> rule_Key r \<Longrightarrow> bump r C k = C k"
  by (auto simp: bump_def split: option.splits)

lemma heal_other: "k \<noteq> rule_Key r \<Longrightarrow> heal C r k = C k"
  by (auto simp: heal_def split: option.splits)

lemma count_heal: "count_of (heal C r) k = count_of C k"
  by (auto simp: heal_def count_of_def split: option.splits)

lemma fold_bump_other: "k \<notin> rule_Key ` set rules \<Longrightarrow> fold bump rules C k = C k"
  by (induction rules arbitrary: C) (auto simp: bump_other)

lemma count_bump: "count_of (bump r C) k = (if k = rule_Key r then Suc (count_of C k) else count_of C k)"
  by (auto simp: bump_def count_of_def split: option.splits)

text \<open>Every rule counts once per occurrence of its key.\<close>

lemma count_fold_bump:
  "count_of (fold bump rules C) k = count_of C k + count_list (map rule_Key rules) k"
  by (induction rules arbitrary: C) (auto simp: count_bump)

end
