(* ===== verification/Limiter_Spec.thy ===== *)
theory Limiter_Spec
  imports Limiter
begin

text \<open>
  The script of the limiter refines the table of counters, and what follows from it: requests
  are counted all together or not at all, no window ever admits more than its limit, and every
  counter expires.
\<close>

section \<open>The counters a database holds\<close>

definition abs_view :: "view \<Rightarrow> counters" where
  "abs_view v = (\<lambda>k. map_option (\<lambda>(x, t). (dec_val 0 x, t)) (v k))"

definition longest_ms :: int where
  "longest_ms = 9223372036854"

text \<open>
  The keys \<open>K\<close> are counters when they are absent or hold a decimal count of at most
  \<open>2 ^ 53\<close>, with a time to live no longer than the longest duration.
\<close>

definition counter_text :: "string \<Rightarrow> bool" where
  "counter_text x \<longleftrightarrow> x = int_dec (int (dec_val 0 x)) \<and> int (dec_val 0 x) \<le> lua_exact"

definition counter_cell :: "(string \<times> int option) option \<Rightarrow> bool" where
  "counter_cell c =
     (case c of
        None \<Rightarrow> True
      | Some (x, t) \<Rightarrow>
          counter_text x \<and>
          (case t of None \<Rightarrow> True | Some ms \<Rightarrow> 0 \<le> ms \<and> ms \<le> longest_ms))"

definition counter_view :: "string set \<Rightarrow> view \<Rightarrow> bool" where
  "counter_view K v \<longleftrightarrow> (\<forall>k \<in> K. counter_cell (v k))"

definition rules_ok :: "rule list \<Rightarrow> bool" where
  "rules_ok rules \<longleftrightarrow>
     rules \<noteq> [] \<and> int (length rules) \<le> max_int64 \<and> distinct (map rule_Key rules) \<and>
     list_all (\<lambda>r. \<not> rule_invalid r \<and> sint (rule_Limit r) \<le> lua_exact) rules"

definition rule_args :: "rule list \<Rightarrow> string list" where
  "rule_args rules = concat (map (\<lambda>r. [int_dec (sint (rule_Limit r)), int_dec (rule_ms r)]) rules)"

lemma length_rule_args: "length (rule_args rules) = 2 * length rules"
  by (induction rules) (simp_all add: rule_args_def)

lemma rule_args_index:
  assumes "rules = pre @ r # rs"
  shows "lua_index (rule_args rules) ((Suc (length pre) - 1) * 2 + 1) = Some (int_dec (sint (rule_Limit r)))"
    "lua_index (rule_args rules) ((Suc (length pre) - 1) * 2 + 2) = Some (int_dec (rule_ms r))"
proof -
  have a: "rule_args rules = rule_args pre @ int_dec (sint (rule_Limit r)) # int_dec (rule_ms r) # rule_args rs"
    using assms by (simp add: rule_args_def)
  have n: "rule_args rules ! (2 * length pre) = int_dec (sint (rule_Limit r))"
    "rule_args rules ! (2 * length pre + 1) = int_dec (rule_ms r)"
    using a by (simp_all add: nth_append length_rule_args)
  have l: "2 * length pre + 2 \<le> length (rule_args rules)"
    using assms by (simp add: length_rule_args)
  show "lua_index (rule_args rules) ((Suc (length pre) - 1) * 2 + 1) = Some (int_dec (sint (rule_Limit r)))"
    "lua_index (rule_args rules) ((Suc (length pre) - 1) * 2 + 2) = Some (int_dec (rule_ms r))"
    using n l by (simp_all add: lua_index_def mult.commute)
qed

lemma dec_val_int_dec [simp]: "dec_val 0 (int_dec (int n)) = n"
  by (simp add: int_dec_def dec_val_nat_dec)

lemma valid_rule_bounds:
  assumes "\<not> rule_invalid r"
  shows "0 < rule_ms r" "rule_ms r \<le> longest_ms" "0 < rule_max r"
    "int (rule_max r) = sint (rule_Limit r)"
  using assms Milliseconds_le [of "rule_Window r"]
  by (auto simp: rule_invalid_def rule_ms_def longest_ms_def rule_max_def)

lemma longest_exact: "longest_ms \<le> lua_exact"
  by (simp add: longest_ms_def lua_exact_def)

lemma lua_exact_max: "lua_exact < max_int64"
  by (simp add: lua_exact_def max_int64_def)

lemma abs_view_upd: "abs_view (v(k \<mapsto> (x, t))) = (abs_view v)(k \<mapsto> (dec_val 0 x, t))"
  by (simp add: abs_view_def fun_eq_iff)

lemma count_abs_view:
  "count_of (abs_view v) k = (case v k of None \<Rightarrow> 0 | Some (x, _) \<Rightarrow> dec_val 0 x)"
  by (auto simp: count_of_def abs_view_def split: option.splits)

lemma counter_view_upd:
  "counter_view K v \<Longrightarrow> counter_cell (Some c) \<Longrightarrow> counter_view K (v(k \<mapsto> c))"
  by (auto simp: counter_view_def)

lemma counter_cell_Some:
  assumes "counter_cell (Some (x, t))"
  obtains n where "x = int_dec (int n)" "int n \<le> lua_exact" "dec_val 0 x = n"
    "\<And>ms. t = Some ms \<Longrightarrow> 0 \<le> ms \<and> ms \<le> longest_ms"
  by (rule that [of "dec_val 0 x"]) (use assms in \<open>auto simp: counter_cell_def counter_text_def\<close>)

lemma counter_cell_intro:
  "int n \<le> lua_exact \<Longrightarrow> (\<And>ms. t = Some ms \<Longrightarrow> 0 \<le> ms \<and> ms \<le> longest_ms) \<Longrightarrow>
   counter_cell (Some (int_dec (int n), t))"
  by (auto simp: counter_cell_def counter_text_def split: option.splits)

section \<open>The script refines the counters\<close>

context redis_lua
begin

text \<open>Reading a counter gives the number it holds.\<close>

lemma number_of_counter:
  assumes "counter_cell (view s k)"
  shows "lua_tonumber L (case map_option fst (view s k) of Some x \<Rightarrow> x | None \<Rightarrow> ''0'') =
    Some (of_int (int (count_of (abs_view (view s)) k)))"
proof (cases "view s k")
  case None
  have "''0'' = int_dec (int 0)" by (simp add: int_dec_def nat_dec.simps digit_char_def char_of_def bit_Suc_0_iff)
  with None lua_tonumber_int [of "int 0"] show ?thesis
    by (simp add: count_abs_view lua_exact_def)
next
  case (Some c)
  obtain x t where c: "c = (x, t)" by (cases c)
  with Some assms obtain n where "x = int_dec (int n)" "int n \<le> lua_exact" "dec_val 0 x = n"
    using counter_cell_Some by metis
  with Some c lua_tonumber_int [of "int n"] show ?thesis by (simp add: count_abs_view)
qed

lemma number_at_rule:
  assumes "rules = pre @ r # rs" "\<not> rule_invalid r" "sint (rule_Limit r) \<le> lua_exact"
  shows "lua_number_at L (rule_args rules) ((Suc (length pre) - 1) * 2 + 1) =
      Some (of_int (int (rule_max r)))"
    "lua_number_at L (rule_args rules) ((Suc (length pre) - 1) * 2 + 2) = Some (of_int (rule_ms r))"
proof -
  have "\<bar>sint (rule_Limit r)\<bar> \<le> lua_exact" "\<bar>rule_ms r\<bar> \<le> lua_exact"
    using valid_rule_bounds [OF assms(2)] assms(3) longest_exact by linarith+
  then show "lua_number_at L (rule_args rules) ((Suc (length pre) - 1) * 2 + 1) =
      Some (of_int (int (rule_max r)))"
    "lua_number_at L (rule_args rules) ((Suc (length pre) - 1) * 2 + 2) = Some (of_int (rule_ms r))"
    using valid_rule_bounds(4) [OF assms(2)]
    by (simp_all only: lua_number_at_def rule_args_index [OF assms(1)] bind.simps lua_tonumber_int)
qed

text \<open>An exhausted key ends the first loop with its index and remaining time.\<close>

lemma check_exhausted:
  assumes rules: "rules = pre @ r # rs" and valid: "\<not> rule_invalid r"
    and lim: "sint (rule_Limit r) \<le> lua_exact"
    and cell: "counter_cell (view s (rule_Key r))" and ex: "exhausted (abs_view (view s)) r"
  shows "\<exists>s'. script_check R L (rule_args rules) (Suc (length pre)) (rule_Key r # ks) s =
      (Ok (Some (0, int (Suc (length pre)), retry_ms (abs_view (view s)) r)), s') \<and>
    abs_view (view s') = heal (abs_view (view s)) r \<and>
    (\<forall>K. counter_view K (view s) \<longrightarrow> counter_view K (view s'))"
proof -
  obtain s1 where g: "cmd_GET R (rule_Key r) s = (Ok (map_option fst (view s (rule_Key r))), s1)"
    "view s1 = view s" using GET_run by blast
  obtain s2 where p: "cmd_PTTL R (rule_Key r) s1 = (Ok (pttl_of (view s1 (rule_Key r))), s2)"
    "view s2 = view s1" using PTTL_run by blast
  note nums = number_of_counter [OF cell] number_at_rule [OF rules valid lim]
  have ge: "(of_int (int (rule_max r)) :: rat) \<le> of_int (int (count_of (abs_view (view s)) (rule_Key r)))"
    using ex by (simp add: exhausted_def)
  have "count_of (abs_view (view s)) (rule_Key r) \<noteq> 0"
    using ex valid_rule_bounds(3) [OF valid] by (simp add: exhausted_def)
  then obtain x t where c: "view s (rule_Key r) = Some (x, t)"
    by (auto simp: count_abs_view split: option.splits)
  obtain n where n: "x = int_dec (int n)" "int n \<le> lua_exact" "dec_val 0 x = n"
    "\<And>ms. t = Some ms \<Longrightarrow> 0 \<le> ms \<and> ms \<le> longest_ms"
    using cell c counter_cell_Some by metis
  show ?thesis
  proof (cases t)
    case (Some ms)
    have "script_check R L (rule_args rules) (Suc (length pre)) (rule_Key r # ks) s =
      (Ok (Some (0, int (Suc (length pre)), ms)), s2)"
      using nums ge g p c Some n(4) [OF Some]
      by (simp add: go_defs pttl_of_def Let_def)
    moreover have "retry_ms (abs_view (view s)) r = ms" "heal (abs_view (view s)) r = abs_view (view s)"
      using c Some by (simp_all add: retry_ms_def heal_def abs_view_def)
    ultimately show ?thesis using g p by auto
  next
    case None
    obtain s3 where e: "cmd_PEXPIRE R (rule_Key r) (int_dec (rule_ms r)) s2 = (Ok 1, s3)"
      "view s3 = (view s2)(rule_Key r \<mapsto> (x, Some (rule_ms r)))"
      using PEXPIRE_run [of s2 "rule_Key r" x t "rule_ms r"] c g p
        valid_rule_bounds(1,2) [OF valid] longest_exact by auto
    have ts: "lua_tostring L (of_int (rule_ms r)) = int_dec (rule_ms r)"
      using valid_rule_bounds(1,2) [OF valid] longest_exact by (intro lua_tostring_int) linarith
    have "script_check R L (rule_args rules) (Suc (length pre)) (rule_Key r # ks) s =
      (Ok (Some (0, int (Suc (length pre)), rule_ms r)), s3)"
      using nums ge g p c None e ts
      by (simp add: go_defs pttl_of_def Let_def)
    moreover have "retry_ms (abs_view (view s)) r = rule_ms r"
      "heal (abs_view (view s)) r = (abs_view (view s))(rule_Key r \<mapsto> (dec_val 0 x, Some (rule_ms r)))"
      using c None by (simp_all add: retry_ms_def heal_def abs_view_def)
    moreover have "counter_cell (Some (x, Some (rule_ms r)))"
      using n valid_rule_bounds(1,2) [OF valid] by (auto intro: counter_cell_intro)
    ultimately show ?thesis using g p e by (auto simp: abs_view_upd intro: counter_view_upd)
  qed
qed

text \<open>A key with room lets the first loop go on.\<close>

lemma check_passes:
  assumes rules: "rules = pre @ r # rs" and valid: "\<not> rule_invalid r"
    and lim: "sint (rule_Limit r) \<le> lua_exact"
    and cell: "counter_cell (view s (rule_Key r))" and ex: "\<not> exhausted (abs_view (view s)) r"
  shows "\<exists>s1. view s1 = view s \<and>
    script_check R L (rule_args rules) (Suc (length pre)) (rule_Key r # ks) s =
    script_check R L (rule_args rules) (Suc (Suc (length pre))) ks s1"
proof -
  obtain s1 where g: "cmd_GET R (rule_Key r) s = (Ok (map_option fst (view s (rule_Key r))), s1)"
    "view s1 = view s" using GET_run by blast
  note nums = number_of_counter [OF cell] number_at_rule [OF rules valid lim]
  have "\<not> (of_int (int (rule_max r)) :: rat) \<le> of_int (int (count_of (abs_view (view s)) (rule_Key r)))"
    using ex by (simp add: exhausted_def)
  with nums g show ?thesis
    by (intro exI [of _ s1]) (simp add: go_defs Let_def)
qed


text \<open>The whole first loop: the first exhausted rule decides, or none is exhausted.\<close>

lemma script_check_refines:
  assumes "rules = pre @ rs" "list_all (\<lambda>r. \<not> rule_invalid r \<and> sint (rule_Limit r) \<le> lua_exact) rs"
    "counter_view (rule_Key ` set rs) (view s)"
  shows "case find (exhausted (abs_view (view s))) rs of
      None \<Rightarrow> \<exists>s'. script_check R L (rule_args rules) (Suc (length pre)) (map rule_Key rs) s = (Ok None, s') \<and>
        view s' = view s
    | Some r \<Rightarrow> \<exists>s' j. 1 \<le> j \<and> j \<le> length rules \<and> rules ! (j - 1) = r \<and>
        script_check R L (rule_args rules) (Suc (length pre)) (map rule_Key rs) s =
          (Ok (Some (0, int j, retry_ms (abs_view (view s)) r)), s') \<and>
        abs_view (view s') = heal (abs_view (view s)) r \<and>
        (\<forall>K. counter_view K (view s) \<longrightarrow> counter_view K (view s'))"
  using assms
proof (induction rs arbitrary: pre s)
  case Nil
  then show ?case by (simp add: go_defs)
next
  case (Cons r rs)
  have cell: "counter_cell (view s (rule_Key r))" using Cons.prems(3) by (simp add: counter_view_def)
  have valid: "\<not> rule_invalid r" "sint (rule_Limit r) \<le> lua_exact" using Cons.prems(2) by simp_all
  show ?case
  proof (cases "exhausted (abs_view (view s)) r")
    case True
    from check_exhausted [OF Cons.prems(1) valid cell True, of "map rule_Key rs"]
    obtain s' where "script_check R L (rule_args rules) (Suc (length pre)) (rule_Key r # map rule_Key rs) s =
        (Ok (Some (0, int (Suc (length pre)), retry_ms (abs_view (view s)) r)), s')"
      "abs_view (view s') = heal (abs_view (view s)) r"
      "\<forall>K. counter_view K (view s) \<longrightarrow> counter_view K (view s')" by blast
    moreover have "rules ! length pre = r" "Suc (length pre) \<le> length rules"
      using Cons.prems(1) by simp_all
    ultimately show ?thesis using True by (auto intro!: exI [of _ s'] exI [of _ "Suc (length pre)"])
  next
    case False
    from check_passes [OF Cons.prems(1) valid cell False, of "map rule_Key rs"]
    obtain s1 where s1: "view s1 = view s"
      "script_check R L (rule_args rules) (Suc (length pre)) (rule_Key r # map rule_Key rs) s =
       script_check R L (rule_args rules) (Suc (Suc (length pre))) (map rule_Key rs) s1" by blast
    have "rules = (pre @ [r]) @ rs" using Cons.prems(1) by simp
    moreover have "list_all (\<lambda>r. \<not> rule_invalid r \<and> sint (rule_Limit r) \<le> lua_exact) rs"
      using Cons.prems(2) by simp
    moreover have "counter_view (rule_Key ` set rs) (view s1)"
      using Cons.prems(3) s1(1) by (simp add: counter_view_def)
    ultimately show ?thesis using Cons.IH [of "pre @ [r]" s1]
      by (cases "find (exhausted (abs_view (view s))) rs")
        (simp_all del: script_check.simps
          add: False s1(1) Cons.prems(1) s1(2) [unfolded Cons.prems(1)])
  qed
qed

text \<open>Counting one rule: the count goes up by one and a fresh count starts its window.\<close>

lemma count_one:
  assumes rules: "rules = pre @ r # rs" and valid: "\<not> rule_invalid r"
    and lim: "sint (rule_Limit r) \<le> lua_exact"
    and cell: "counter_cell (view s (rule_Key r))" and ex: "\<not> exhausted (abs_view (view s)) r"
  shows "\<exists>s'. script_count R (rule_args rules) (Suc (length pre)) (rule_Key r # ks) s =
      script_count R (rule_args rules) (Suc (Suc (length pre))) ks s' \<and>
    abs_view (view s') = bump r (abs_view (view s)) \<and>
    (\<forall>k. k \<noteq> rule_Key r \<longrightarrow> view s' k = view s k) \<and>
    (\<forall>K. counter_view K (view s) \<longrightarrow> counter_view K (view s'))"
proof -
  note b = valid_rule_bounds [OF valid]
  have idx: "lua_index (rule_args rules) (Suc (Suc (length pre * 2))) = Some (int_dec (rule_ms r))"
    using rule_args_index(2) [OF rules] by simp
  have ms: "0 < rule_ms r" "rule_ms r \<le> lua_exact" using b longest_exact by linarith+
  define n where "n = count_of (abs_view (view s)) (rule_Key r)"
  have n_less: "int n < lua_exact" using ex b(4) lim by (simp add: exhausted_def n_def)
  show ?thesis
  proof (cases "view s (rule_Key r)")
    case None
    obtain s1 where i: "cmd_INCR R (rule_Key r) s = (Ok 1, s1)"
      "view s1 = (view s)(rule_Key r \<mapsto> (int_dec 1, None))" using INCR_run_absent [OF None] by blast
    obtain s2 where e: "cmd_PEXPIRE R (rule_Key r) (int_dec (rule_ms r)) s1 = (Ok 1, s2)"
      "view s2 = (view s1)(rule_Key r \<mapsto> (int_dec 1, Some (rule_ms r)))"
      using PEXPIRE_run [of s1 "rule_Key r" "int_dec 1" None "rule_ms r"] i(2) ms by auto
    have v: "view s2 = (view s)(rule_Key r \<mapsto> (int_dec (int 1), Some (rule_ms r)))"
      using i(2) e(2) by simp
    have "abs_view (view s2) = bump r (abs_view (view s))"
      unfolding v by (simp only: abs_view_upd dec_val_int_dec)
        (simp add: bump_def abs_view_def None)
    moreover have "counter_cell (Some (int_dec (int 1), Some (rule_ms r)))"
      using b by (intro counter_cell_intro) (auto simp: lua_exact_def)
    then have "\<forall>K. counter_view K (view s) \<longrightarrow> counter_view K (view s2)"
      unfolding v by (blast intro: counter_view_upd)
    moreover have "\<forall>k. k \<noteq> rule_Key r \<longrightarrow> view s2 k = view s k" unfolding v by simp
    ultimately show ?thesis using i e idx by (intro exI [of _ s2]) (simp add: go_defs)
  next
    case (Some c)
    obtain x t where c: "c = (x, t)" by (cases c)
    then obtain m where m: "x = int_dec (int m)" "int m \<le> lua_exact" "dec_val 0 x = m"
      "\<And>ms. t = Some ms \<Longrightarrow> 0 \<le> ms \<and> ms \<le> longest_ms"
      using cell Some counter_cell_Some by metis
    have mn: "m = n" using Some c m(3) by (simp add: n_def count_abs_view)
    have bnd: "min_int64 \<le> int n" "int n < max_int64"
      using n_less lua_exact_max by (simp_all add: min_int64_def)
    obtain s1 where i: "cmd_INCR R (rule_Key r) s = (Ok (int n + 1), s1)"
      "view s1 = (view s)(rule_Key r \<mapsto> (int_dec (int n + 1), t))"
      using INCR_run_present [of s "rule_Key r" "int n" t] Some c m mn bnd by auto
    show ?thesis
    proof (cases "n = 0")
      case True
      obtain s2 where e: "cmd_PEXPIRE R (rule_Key r) (int_dec (rule_ms r)) s1 = (Ok 1, s2)"
        "view s2 = (view s1)(rule_Key r \<mapsto> (int_dec (int n + 1), Some (rule_ms r)))"
        using PEXPIRE_run [of s1 "rule_Key r" "int_dec (int n + 1)" t "rule_ms r"] i(2) ms by auto
      have v: "view s2 = (view s)(rule_Key r \<mapsto> (int_dec (int (n + 1)), Some (rule_ms r)))"
        using i(2) e(2) by (simp add: add.commute)
      have "abs_view (view s2) = bump r (abs_view (view s))"
        unfolding v by (simp only: abs_view_upd dec_val_int_dec)
          (use True mn m(3) in \<open>simp add: bump_def abs_view_def Some c\<close>)
      moreover have "counter_cell (Some (int_dec (int (n + 1)), Some (rule_ms r)))"
        using b n_less by (intro counter_cell_intro) auto
      then have "\<forall>K. counter_view K (view s) \<longrightarrow> counter_view K (view s2)"
        unfolding v by (blast intro: counter_view_upd)
      moreover have "\<forall>k. k \<noteq> rule_Key r \<longrightarrow> view s2 k = view s k" unfolding v by simp
      ultimately show ?thesis using i e idx True by (intro exI [of _ s2]) (simp add: go_defs)
    next
      case False
      have v: "view s1 = (view s)(rule_Key r \<mapsto> (int_dec (int (n + 1)), t))"
        using i(2) by (simp add: add.commute)
      have "abs_view (view s1) = bump r (abs_view (view s))"
        unfolding v by (simp only: abs_view_upd dec_val_int_dec)
          (use False mn m(3) in \<open>simp add: bump_def abs_view_def Some c\<close>)
      moreover have "counter_cell (Some (int_dec (int (n + 1)), t))"
        using m(4) n_less by (intro counter_cell_intro) auto
      then have "\<forall>K. counter_view K (view s) \<longrightarrow> counter_view K (view s1)"
        unfolding v by (blast intro: counter_view_upd)
      moreover have "\<forall>k. k \<noteq> rule_Key r \<longrightarrow> view s1 k = view s k" unfolding v by simp
      ultimately show ?thesis using i False by (intro exI [of _ s1]) (simp add: go_defs)
    qed
  qed
qed

lemma script_count_refines:
  assumes "rules = pre @ rs" "list_all (\<lambda>r. \<not> rule_invalid r \<and> sint (rule_Limit r) \<le> lua_exact) rs"
    "counter_view (rule_Key ` set rs) (view s)" "distinct (map rule_Key rs)"
    "\<forall>r \<in> set rs. \<not> exhausted (abs_view (view s)) r"
  shows "\<exists>s'. script_count R (rule_args rules) (Suc (length pre)) (map rule_Key rs) s = (Ok (), s') \<and>
    abs_view (view s') = fold bump rs (abs_view (view s)) \<and>
    (\<forall>K. counter_view K (view s) \<longrightarrow> counter_view K (view s'))"
  using assms
proof (induction rs arbitrary: pre s)
  case Nil
  then show ?case by (simp add: go_defs)
next
  case (Cons r rs)
  have cell: "counter_cell (view s (rule_Key r))" using Cons.prems(3) by (simp add: counter_view_def)
  have valid: "\<not> rule_invalid r" "sint (rule_Limit r) \<le> lua_exact" using Cons.prems(2) by simp_all
  have ex: "\<not> exhausted (abs_view (view s)) r" using Cons.prems(5) by simp
  from count_one [OF Cons.prems(1) valid cell ex, of "map rule_Key rs"]
  obtain s1 where s1: "script_count R (rule_args rules) (Suc (length pre)) (rule_Key r # map rule_Key rs) s =
      script_count R (rule_args rules) (Suc (Suc (length pre))) (map rule_Key rs) s1"
    "abs_view (view s1) = bump r (abs_view (view s))"
    "\<forall>k. k \<noteq> rule_Key r \<longrightarrow> view s1 k = view s k"
    "\<forall>K. counter_view K (view s) \<longrightarrow> counter_view K (view s1)" by blast
  have "rule_Key r \<notin> rule_Key ` set rs" using Cons.prems(4) by simp
  then have other: "\<forall>q \<in> set rs. rule_Key q \<noteq> rule_Key r" by (metis imageI)
  have "counter_view (rule_Key ` set rs) (view s1)"
    using Cons.prems(3) s1(4) [rule_format, of "rule_Key ` set rs"] by (simp add: counter_view_def)
  moreover have "\<forall>q \<in> set rs. \<not> exhausted (abs_view (view s1)) q"
    using Cons.prems(5) other s1(2) by (simp add: exhausted_def count_bump)
  ultimately show ?case
    using Cons.IH [of "pre @ [r]" s1] Cons.prems(1,2,4) s1 by auto
qed

text \<open>The limiter on a server refines the table of counters.\<close>

lemma retry_bounds:
  assumes "counter_view (rule_Key ` set rules) (view s)" "r \<in> set rules" "\<not> rule_invalid r"
  shows "0 \<le> retry_ms (abs_view (view s)) r" "retry_ms (abs_view (view s)) r \<le> longest_ms"
  using assms valid_rule_bounds [OF assms(3)]
  by (force simp: retry_ms_def abs_view_def counter_view_def counter_cell_def
      split: option.splits)+

lemma RedisAllow_spec:
  assumes ok: "rules_ok rules" and cells: "counter_view (rule_Key ` set rules) (view s)"
  shows "\<exists>s'. RedisAllow R L rules s = (Ok (fst (spec_allow rules (abs_view (view s)))), s') \<and>
    abs_view (view s') = snd (spec_allow rules (abs_view (view s))) \<and>
    (\<forall>K. counter_view K (view s) \<longrightarrow> counter_view K (view s'))"
proof -
  have ne: "rules \<noteq> []" and len: "int (length rules) \<le> max_int64"
    and dist: "distinct (map rule_Key rules)"
    and valid: "list_all (\<lambda>r. \<not> rule_invalid r \<and> sint (rule_Limit r) \<le> lua_exact) rules"
    using ok by (simp_all add: rules_ok_def)
  have args: "collect_rules [] [] rules = Ok (map rule_Key rules, rule_args rules)"
    using valid by (simp add: collect_rules_Ok list_all_iff rule_args_def rule_ms_def)
  note ck = script_check_refines [of rules "[]", OF _ valid cells]
  show ?thesis
  proof (cases "find (exhausted (abs_view (view s))) rules")
    case None
    with ck obtain s1 where s1: "script_check R L (rule_args rules) (Suc 0) (map rule_Key rules) s = (Ok None, s1)"
      "view s1 = view s" by auto
    have "\<forall>r \<in> set rules. \<not> exhausted (abs_view (view s1)) r"
      using None s1(2) by (simp add: find_None_iff)
    with script_count_refines [of rules "[]", OF _ valid _ dist, of s1] cells s1(2)
    obtain s2 where s2: "script_count R (rule_args rules) (Suc 0) (map rule_Key rules) s1 = (Ok (), s2)"
      "abs_view (view s2) = fold bump rules (abs_view (view s))"
      "\<forall>K. counter_view K (view s) \<longrightarrow> counter_view K (view s2)" by auto
    have "RedisAllow R L rules s = (Ok allowed_decision, s2)"
      using s1 s2 args ne
      by (simp add: RedisAllow_def Allow_def fixedWindowScript_def go_defs script_reply_def decode_reply_def)
    with None s2 show ?thesis by (auto simp: spec_allow_def)
  next
    case (Some r)
    with ck obtain s1 j where s1: "1 \<le> j" "j \<le> length rules" "rules ! (j - 1) = r"
      "script_check R L (rule_args rules) (Suc 0) (map rule_Key rules) s =
        (Ok (Some (0, int j, retry_ms (abs_view (view s)) r)), s1)"
      "abs_view (view s1) = heal (abs_view (view s)) r"
      "\<forall>K. counter_view K (view s) \<longrightarrow> counter_view K (view s1)" by auto
    have r: "r \<in> set rules" "\<not> rule_invalid r"
      using Some valid by (auto simp: find_Some_iff list_all_iff)
    note rb = retry_bounds [OF cells r]
    have sj: "sint (word_of_int (int j) :: int64) = int j"
      using s1(1,2) len by (intro sint_of_int64) (auto simp: min_int64_def)
    have st: "sint (word_of_int (retry_ms (abs_view (view s)) r) :: int64) = retry_ms (abs_view (view s)) r"
      using rb by (intro sint_of_int64) (auto simp: min_int64_def max_int64_def longest_ms_def)
    have "nat (int j - 1) = j - 1" using s1(1) by simp
    then have "decode_reply rules (script_reply (0, int j, retry_ms (abs_view (view s)) r)) =
        Ok (rejected_decision (rule_Scope r) (duration_of_ms (word_of_int (retry_ms (abs_view (view s)) r))))"
      using s1(1-3) sj st rb by (simp add: script_reply_def decode_reply_def)
    with s1 args ne have "RedisAllow R L rules s =
        (Ok (rejected_decision (rule_Scope r) (duration_of_ms (word_of_int (retry_ms (abs_view (view s)) r)))), s1)"
      by (simp add: RedisAllow_def Allow_def fixedWindowScript_def go_defs)
    with Some s1 show ?thesis by (auto simp: spec_allow_def)
  qed
qed

end

section \<open>What the limiter guarantees\<close>

text \<open>Three rules as the message service sends them, for the evaluated examples.\<close>

definition demo_rule :: "string \<Rightarrow> int64 \<Rightarrow> rule" where
  "demo_rule sc n = \<lparr>rule_Scope = sc, rule_Key = ''lim:'' @ sc, rule_Limit = n, rule_Window = 3000000000\<rparr>"

definition demo_rules :: "rule list" where
  "demo_rules = [demo_rule ''user'' 1, demo_rule ''ip'' 20, demo_rule ''room'' 200]"

lemma demo_ms: "sint (duration_Milliseconds 3000000000) = 3000"
  by (simp add: sint_Milliseconds ns_per_ms_def signed_divide_int_def)

lemma demo_rules_ok: "rules_ok demo_rules"
  by (simp add: rules_ok_def demo_rules_def demo_rule_def rule_invalid_def demo_ms lua_exact_def
      max_int64_def)

lemma kv_empty_counters: "counter_view K (kv_view kv_empty)"
  by (simp add: counter_view_def counter_cell_def kv_view_def kv_empty_def)

text \<open>
  C8. On a server that behaves as documented, \<open>Allow\<close> with well-formed rules never fails and
  does exactly what the table of counters does: its decision is the table's decision and the
  database afterwards holds the table's counters.
\<close>

theorem limiter_refines_counters:
  assumes "redis_lua R L view" "rules_ok rules" "counter_view (rule_Key ` set rules) (view s)"
  shows "\<exists>s'. RedisAllow R L rules s = (Ok (fst (spec_allow rules (abs_view (view s)))), s') \<and>
    abs_view (view s') = snd (spec_allow rules (abs_view (view s)))"
  using redis_lua.RedisAllow_spec [OF assms] by blast

theorem limiter_refines_counters_witness:
  "\<exists>s'. RedisAllow kv_cmds int_lua demo_rules kv_empty =
      (Ok (fst (spec_allow demo_rules (abs_view (kv_view kv_empty)))), s') \<and>
    abs_view (kv_view s') = snd (spec_allow demo_rules (abs_view (kv_view kv_empty)))"
  by (rule limiter_refines_counters [OF kv_redis_lua demo_rules_ok kv_empty_counters])

text \<open>One call, seen on the counts.\<close>

lemma spec_allow_counts:
  "distinct (map rule_Key rules) \<Longrightarrow>
   count_of (snd (spec_allow rules C)) k =
     count_of C k + (if Allowed (fst (spec_allow rules C)) \<and> k \<in> rule_Key ` set rules then 1 else 0)"
  by (auto simp: spec_allow_def count_heal count_fold_bump count_list_0_iff count_list_distinct
      split: option.splits)

lemma RedisAllow_counts:
  assumes "redis_lua R L view" "rules_ok rules" "counter_view (rule_Key ` set rules) (view s)"
    and run: "RedisAllow R L rules s = (Ok d, s')"
  shows "count_of (abs_view (view s')) k =
    count_of (abs_view (view s)) k + (if Allowed d \<and> k \<in> rule_Key ` set rules then 1 else 0)"
proof -
  have "d = fst (spec_allow rules (abs_view (view s)))"
    "abs_view (view s') = snd (spec_allow rules (abs_view (view s)))"
    using redis_lua.RedisAllow_spec [OF assms(1-3)] run by auto
  with spec_allow_counts [of rules] assms(2) show ?thesis by (simp add: rules_ok_def)
qed

lemma RedisAllow_keeps_counters:
  assumes "redis_lua R L view" "rules_ok rules" "counter_view (rule_Key ` set rules) (view s)"
    and "RedisAllow R L rules s = (Ok d, s')" "counter_view K (view s)"
  shows "counter_view K (view s')"
  using redis_lua.RedisAllow_spec [OF assms(1-3)] assms(4,5) by auto

lemma RedisAllow_admits:
  assumes "redis_lua R L view" "rules_ok rules" "counter_view (rule_Key ` set rules) (view s)"
    and "RedisAllow R L rules s = (Ok d, s')" "Allowed d" "r \<in> set rules"
  shows "\<not> exhausted (abs_view (view s)) r"
proof -
  have "d = fst (spec_allow rules (abs_view (view s)))"
    using redis_lua.RedisAllow_spec [OF assms(1-3)] assms(4) by auto
  with assms(5,6) show ?thesis by (auto simp: spec_allow_def find_None_iff split: option.splits)
qed

text \<open>
  All or nothing: an admitted request adds one to the count of each of its keys, a
  rejected one adds to none, and no other count changes.
\<close>

lemma limiter_all_or_nothing:
  assumes "redis_lua R L view" "rules_ok rules" "counter_view (rule_Key ` set rules) (view s)"
    and "RedisAllow R L rules s = (Ok d, s')"
  shows "\<forall>k. count_of (abs_view (view s')) k =
    count_of (abs_view (view s)) k + (if Allowed d \<and> k \<in> rule_Key ` set rules then 1 else 0)"
  using RedisAllow_counts [OF assms] by blast

lemma limiter_all_or_nothing_example:
  "\<forall>k. count_of (abs_view (kv_view (snd (RedisAllow kv_cmds int_lua demo_rules kv_empty)))) k =
    (if k \<in> rule_Key ` set demo_rules then 1 else 0)"
proof -
  have sp: "spec_allow demo_rules (abs_view (kv_view kv_empty)) =
      (allowed_decision, fold bump demo_rules (abs_view (kv_view kv_empty)))"
    by (simp add: spec_allow_def exhausted_def rule_max_def demo_rules_def demo_rule_def
        count_abs_view kv_view_def kv_empty_def)
  from kv.RedisAllow_spec [OF demo_rules_ok kv_empty_counters]
  obtain s' where s': "RedisAllow kv_cmds int_lua demo_rules kv_empty = (Ok allowed_decision, s')"
    using sp by auto
  from limiter_all_or_nothing [OF kv_redis_lua demo_rules_ok kv_empty_counters s'] s' show ?thesis
    by (simp add: count_abs_view kv_view_def kv_empty_def)
qed

text \<open>
  A request is admitted exactly when every one of its keys is below its limit; a rejection
  names the scope of the first exhausted rule, and the delay it suggests is that key's
  remaining time to live, converted to nanoseconds without overflow, so between zero and the
  longest duration.
\<close>

lemma limiter_decision:
  assumes "redis_lua R L view" "rules_ok rules" "counter_view (rule_Key ` set rules) (view s)"
    and "RedisAllow R L rules s = (Ok d, s')"
  shows "(Allowed d \<longleftrightarrow> (\<forall>r \<in> set rules. \<not> exhausted (abs_view (view s)) r)) \<and>
    (\<not> Allowed d \<longrightarrow> (\<exists>r. find (exhausted (abs_view (view s))) rules = Some r \<and>
       RejectedScope d = rule_Scope r \<and>
       sint (RetryAfter d) = retry_ms (abs_view (view s)) r * ns_per_ms \<and>
       0 \<le> sint (RetryAfter d)))"
proof -
  have d: "d = fst (spec_allow rules (abs_view (view s)))"
    using redis_lua.RedisAllow_spec [OF assms(1-3)] assms(4) by auto
  show ?thesis
  proof (cases "find (exhausted (abs_view (view s))) rules")
    case None
    with d show ?thesis by (auto simp: spec_allow_def find_None_iff)
  next
    case (Some r)
    then have r: "r \<in> set rules" "exhausted (abs_view (view s)) r" "\<not> rule_invalid r"
      using assms(2) by (auto simp: find_Some_iff rules_ok_def list_all_iff)
    note b = redis_lua.retry_bounds [OF assms(1,3) r(1,3)]
    then have "sint (word_of_int (retry_ms (abs_view (view s)) r) :: int64) = retry_ms (abs_view (view s)) r"
      by (intro sint_of_int64) (auto simp: min_int64_def max_int64_def longest_ms_def)
    with b have "sint (duration_of_ms (word_of_int (retry_ms (abs_view (view s)) r))) =
        retry_ms (abs_view (view s)) r * ns_per_ms"
      by (simp add: sint_duration_of_ms longest_ms_def)
    with d Some r b show ?thesis by (auto simp: spec_allow_def ns_per_ms_def)
  qed
qed

text \<open>The second of two immediate requests of one user is rejected by the user rule.\<close>

definition demo_full :: kv where
  "demo_full = \<lparr>kv_now = 500, kv_cells = [''lim:user'' \<mapsto> (''1'', Some 3000)]\<rparr>"

lemma demo_full_view: "kv_view demo_full = [''lim:user'' \<mapsto> (''1'', Some 2500)]"
  by (auto simp: kv_view_def demo_full_def fun_eq_iff)

lemma demo_full_counters: "counter_view K (kv_view demo_full)"
  by (auto simp: counter_view_def counter_cell_def counter_text_def demo_full_view longest_ms_def lua_exact_def
      int_dec_def nat_dec.simps digit_char_def char_of_def bit_Suc_0_iff digit_val_def
      split: option.splits if_splits)

lemma limiter_decision_example:
  "\<exists>d s'. RedisAllow kv_cmds int_lua demo_rules demo_full = (Ok d, s') \<and> \<not> Allowed d \<and>
    RejectedScope d = ''user'' \<and> sint (RetryAfter d) = 2500000000"
proof -
  have c: "count_of (abs_view (kv_view demo_full)) ''lim:user'' = 1"
    by (simp add: count_abs_view demo_full_view digit_val_def)
  then have f: "find (exhausted (abs_view (kv_view demo_full))) demo_rules = Some (demo_rule ''user'' 1)"
    by (simp add: demo_rules_def exhausted_def rule_max_def demo_rule_def)
  from kv.RedisAllow_spec [OF demo_rules_ok demo_full_counters]
  obtain d s' where run: "RedisAllow kv_cmds int_lua demo_rules demo_full = (Ok d, s')" by auto
  have "retry_ms (abs_view (kv_view demo_full)) (demo_rule ''user'' 1) = 2500"
    by (simp add: retry_ms_def abs_view_def demo_full_view demo_rule_def)
  with limiter_decision [OF kv_redis_lua demo_rules_ok demo_full_counters run] f run
  show ?thesis
    by (auto simp: demo_rule_def ns_per_ms_def find_Some_iff)
qed

section \<open>No window admits more than its limit\<close>

text \<open>
  A run of the limiter as seen from one key \<open>k\<close>: requests whose rules use the keys \<open>K\<close>,
  and time passing between them. The number it carries is how many requests on \<open>k\<close> were
  admitted since \<open>k\<close> was last absent, that is, in the current window.
\<close>

definition window_rules :: "string set \<Rightarrow> string \<Rightarrow> nat \<Rightarrow> rule list \<Rightarrow> bool" where
  "window_rules K k maximum rules \<longleftrightarrow>
     rules_ok rules \<and> rule_Key ` set rules \<subseteq> K \<and>
     (\<forall>r \<in> set rules. rule_Key r = k \<longrightarrow> rule_max r = maximum)"

inductive window_run ::
    "'s redis_cmds \<Rightarrow> lua \<Rightarrow> ('s \<Rightarrow> view) \<Rightarrow> string set \<Rightarrow> string \<Rightarrow> nat \<Rightarrow> nat \<Rightarrow> 's \<Rightarrow> bool"
  for R L view K k maximum
where
  window_start: "counter_view K (view s) \<Longrightarrow> view s k = None \<Longrightarrow>
    window_run R L view K k maximum 0 s"
| window_call: "window_run R L view K k maximum n s \<Longrightarrow> window_rules K k maximum rules \<Longrightarrow>
    RedisAllow R L rules s = (Ok d, s') \<Longrightarrow>
    window_run R L view K k maximum
      (if Allowed d \<and> k \<in> rule_Key ` set rules then n + 1 else n) s'"
| window_time: "window_run R L view K k maximum n s \<Longrightarrow> aged (view s) (view s') \<Longrightarrow>
    window_run R L view K k maximum (if view s' k = None then 0 else n) s'"

lemma aged_counter_cell: "aged_cell c c' \<Longrightarrow> counter_cell c \<Longrightarrow> counter_cell c'"
  unfolding aged_cell_def counter_cell_def
  by (cases c; cases c') (auto split: option.split_asm option.split)

lemma aged_counter_view: "aged v v' \<Longrightarrow> counter_view K v \<Longrightarrow> counter_view K v'"
  unfolding aged_def counter_view_def by (blast intro: aged_counter_cell)

lemma aged_count:
  "aged v v' \<Longrightarrow> count_of (abs_view v') k = (if v' k = None then 0 else count_of (abs_view v) k)"
  unfolding aged_def
  by (drule spec [of _ k]) (auto simp: aged_cell_def count_abs_view split: option.splits)

lemma window_run_invariant:
  assumes srv: "redis_lua R L view" and k: "k \<in> K"
    and run: "window_run R L view K k maximum n s"
  shows "counter_view K (view s) \<and> count_of (abs_view (view s)) k = n \<and> n \<le> maximum"
  using run
proof (induction rule: window_run.induct)
  case (window_start s)
  then show ?case by (simp add: count_abs_view)
next
  case (window_call n s rules d s')
  have ok: "rules_ok rules" and cells: "counter_view (rule_Key ` set rules) (view s)"
    using window_call.hyps(2) window_call.IH by (auto simp: window_rules_def counter_view_def)
  note keep = RedisAllow_keeps_counters [OF srv ok cells window_call.hyps(3)]
  note cnt = RedisAllow_counts [OF srv ok cells window_call.hyps(3), of k]
  have "n < maximum" if a: "Allowed d" "k \<in> rule_Key ` set rules"
  proof -
    obtain r where r: "r \<in> set rules" "rule_Key r = k" using a(2) by blast
    then have "\<not> exhausted (abs_view (view s)) r"
      using RedisAllow_admits [OF srv ok cells window_call.hyps(3) a(1)] by blast
    with r window_call.hyps(2) window_call.IH show ?thesis
      by (auto simp: exhausted_def window_rules_def)
  qed
  with keep cnt window_call.IH show ?case by auto
next
  case (window_time n s s')
  then show ?case using aged_counter_view aged_count by auto
qed

text \<open>
  C9. However requests and time interleave, and whatever other keys they use, no more requests
  on a key are admitted in one window than the key's limit.
\<close>

theorem window_never_exceeds_limit:
  assumes "redis_lua R L view" "k \<in> K" "window_run R L view K k maximum n s"
  shows "n \<le> maximum"
  using window_run_invariant [OF assms] by simp

theorem window_never_exceeds_limit_witness:
  "\<exists>s. window_run kv_cmds int_lua kv_view (rule_Key ` set demo_rules) ''lim:user'' 1 1 s \<and> (1::nat) \<le> 1"
proof -
  have wr: "window_rules (rule_Key ` set demo_rules) ''lim:user'' 1 demo_rules"
    using demo_rules_ok by (auto simp: window_rules_def demo_rules_def demo_rule_def rule_max_def)
  have in_K: "''lim:user'' \<in> rule_Key ` set demo_rules"
    by (simp add: demo_rules_def demo_rule_def)
  have "spec_allow demo_rules (abs_view (kv_view kv_empty)) =
      (allowed_decision, fold bump demo_rules (abs_view (kv_view kv_empty)))"
    by (simp add: spec_allow_def exhausted_def rule_max_def demo_rules_def demo_rule_def
        count_abs_view kv_view_def kv_empty_def)
  with kv.RedisAllow_spec [OF demo_rules_ok kv_empty_counters]
  obtain s' where s': "RedisAllow kv_cmds int_lua demo_rules kv_empty = (Ok allowed_decision, s')"
    by auto
  have "window_run kv_cmds int_lua kv_view (rule_Key ` set demo_rules) ''lim:user'' 1 0 kv_empty"
    by (rule window_start) (simp add: kv_empty_counters, simp add: kv_view_def kv_empty_def)
  from window_call [OF this wr s'] in_K
  have run: "window_run kv_cmds int_lua kv_view (rule_Key ` set demo_rules) ''lim:user'' 1 1 s'"
    by simp
  with window_never_exceeds_limit [OF kv_redis_lua in_K run] show ?thesis by blast
qed

section \<open>Every counter expires\<close>

definition expiring :: "string set \<Rightarrow> view \<Rightarrow> bool" where
  "expiring K v \<longleftrightarrow> (\<forall>k \<in> K. case v k of Some (_, None) \<Rightarrow> False | _ \<Rightarrow> True)"

definition has_ttl :: "view \<Rightarrow> string \<Rightarrow> bool" where
  "has_ttl v k \<longleftrightarrow> (case v k of Some (_, Some _) \<Rightarrow> True | _ \<Rightarrow> False)"

lemma expiring_abs:
  "expiring K v \<longleftrightarrow> (\<forall>k \<in> K. case abs_view v k of Some (_, None) \<Rightarrow> False | _ \<Rightarrow> True)"
  by (auto simp: expiring_def abs_view_def split: option.splits)

lemma has_ttl_abs:
  "has_ttl v k \<longleftrightarrow> (case abs_view v k of Some (_, Some _) \<Rightarrow> True | _ \<Rightarrow> False)"
  by (auto simp: has_ttl_def abs_view_def split: option.splits)

lemma fold_bump_expiring:
  assumes "\<forall>k \<in> K. case C k of Some (_, None) \<Rightarrow> False | _ \<Rightarrow> True" "rule_Key ` set rules \<subseteq> K"
  shows "(\<forall>k \<in> K. case fold bump rules C k of Some (_, None) \<Rightarrow> False | _ \<Rightarrow> True) \<and>
    (\<forall>k \<in> rule_Key ` set rules. case fold bump rules C k of Some (_, Some _) \<Rightarrow> True | _ \<Rightarrow> False)"
  using assms
proof (induction rules arbitrary: C)
  case Nil
  then show ?case by simp
next
  case (Cons r rules)
  have b: "\<forall>k \<in> K. case bump r C k of Some (_, None) \<Rightarrow> False | _ \<Rightarrow> True"
    using Cons.prems(1) by (auto simp: bump_def split: option.splits)
  note ih = Cons.IH [OF b]
  have "count_of (fold bump rules (bump r C)) (rule_Key r) \<noteq> 0"
    by (simp add: count_fold_bump count_bump)
  then have "fold bump rules (bump r C) (rule_Key r) \<noteq> None"
    by (metis count_of_def option.simps(4))
  with ih Cons.prems(2) show ?case by (fastforce split: option.splits)
qed

text \<open>
  No counter lives for ever: if every counter among the rules' keys has a time to live,
  or is absent, so it is after the call; an admitted request leaves a time to live on each of
  its keys, and a rejected one leaves a time to live on the key that rejected it, even where
  it had none before.
\<close>

lemma limiter_counters_expire:
  assumes "redis_lua R L view" "rules_ok rules" "counter_view (rule_Key ` set rules) (view s)"
    and "RedisAllow R L rules s = (Ok d, s')"
  shows "(expiring (rule_Key ` set rules) (view s) \<longrightarrow>
      expiring (rule_Key ` set rules) (view s') \<and>
      (Allowed d \<longrightarrow> (\<forall>k \<in> rule_Key ` set rules. has_ttl (view s') k))) \<and>
    (\<not> Allowed d \<longrightarrow> (\<exists>r \<in> set rules. RejectedScope d = rule_Scope r \<and> has_ttl (view s') (rule_Key r)))"
proof -
  define C where "C = abs_view (view s)"
  have d: "d = fst (spec_allow rules C)" and v: "abs_view (view s') = snd (spec_allow rules C)"
    using redis_lua.RedisAllow_spec [OF assms(1-3)] assms(4) by (auto simp: C_def)
  show ?thesis
  proof (cases "find (exhausted C) rules")
    case None
    then have "Allowed d" "abs_view (view s') = fold bump rules C"
      using d v by (simp_all add: spec_allow_def)
    with fold_bump_expiring [of "rule_Key ` set rules" C rules] show ?thesis
      by (simp add: expiring_abs has_ttl_abs C_def)
  next
    case (Some r)
    then have r: "r \<in> set rules" "exhausted C r" "\<not> rule_invalid r"
      using assms(2) by (auto simp: find_Some_iff rules_ok_def list_all_iff)
    have dv: "\<not> Allowed d" "RejectedScope d = rule_Scope r" "abs_view (view s') = heal C r"
      using d v Some by (simp_all add: spec_allow_def)
    have "count_of C (rule_Key r) \<noteq> 0"
      using r(2) valid_rule_bounds(3) [OF r(3)] by (simp add: exhausted_def)
    then have "has_ttl (view s') (rule_Key r)"
      using dv(3) by (auto simp: has_ttl_abs heal_def count_of_def split: option.splits)
    moreover have "expiring (rule_Key ` set rules) (view s) \<longrightarrow> expiring (rule_Key ` set rules) (view s')"
      using dv(3) by (auto simp: expiring_abs heal_def C_def split: option.splits)
    ultimately show ?thesis using dv r(1) by auto
  qed
qed

text \<open>A counter left without a time to live is given one by the request it rejects.\<close>

definition demo_stuck :: kv where
  "demo_stuck = \<lparr>kv_now = 500, kv_cells = [''lim:user'' \<mapsto> (''1'', None)]\<rparr>"

lemma demo_stuck_view: "kv_view demo_stuck = [''lim:user'' \<mapsto> (''1'', None)]"
  by (auto simp: kv_view_def demo_stuck_def fun_eq_iff)

lemma demo_stuck_counters: "counter_view K (kv_view demo_stuck)"
  by (auto simp: counter_view_def counter_cell_def counter_text_def demo_stuck_view lua_exact_def
      int_dec_def nat_dec.simps digit_char_def char_of_def bit_Suc_0_iff digit_val_def
      split: option.splits if_splits)

lemma limiter_counters_expire_example:
  "\<not> has_ttl (kv_view demo_stuck) ''lim:user'' \<and>
   (\<exists>d s'. RedisAllow kv_cmds int_lua demo_rules demo_stuck = (Ok d, s') \<and> \<not> Allowed d \<and>
      (\<exists>r \<in> set demo_rules. RejectedScope d = rule_Scope r \<and> has_ttl (kv_view s') (rule_Key r)))"
proof -
  have "count_of (abs_view (kv_view demo_stuck)) ''lim:user'' = 1"
    by (simp add: count_abs_view demo_stuck_view digit_val_def)
  then have ex: "exhausted (abs_view (kv_view demo_stuck)) (demo_rule ''user'' 1)"
    by (simp add: exhausted_def rule_max_def demo_rule_def)
  from kv.RedisAllow_spec [OF demo_rules_ok demo_stuck_counters]
  obtain d s' where run: "RedisAllow kv_cmds int_lua demo_rules demo_stuck = (Ok d, s')"
    "d = fst (spec_allow demo_rules (abs_view (kv_view demo_stuck)))" by auto
  with ex have "\<not> Allowed d" by (simp add: spec_allow_def demo_rules_def)
  with limiter_counters_expire [OF kv_redis_lua demo_rules_ok demo_stuck_counters run(1)] run
  show ?thesis by (auto simp: has_ttl_def demo_stuck_view)
qed

end
