(* ===== verification/Go_Time.thy ===== *)
theory Go_Time
  imports Go_Int
begin

text \<open>
  The parts of the \<open>time\<close> package the program uses: instants, and the text of a
  \<open>time.Duration\<close> (its \<open>String\<close> method, used by the verb \<open>%s\<close>).
\<close>

section \<open>Instants\<close>

text \<open>
  A \<open>time.Time\<close> is modelled by its nanoseconds since the Unix epoch. The zero value of the
  type is January 1, year 1, 00:00:00 UTC.
\<close>

type_synonym time = int

definition zero_time :: time where
  "zero_time = - 62135596800 * ns_per_s"

definition time_IsZero :: "time \<Rightarrow> bool" where
  "time_IsZero t \<longleftrightarrow> t = zero_time"

definition time_Add :: "time \<Rightarrow> duration \<Rightarrow> time" where
  "time_Add t d = t + sint d"

definition hours :: "int \<Rightarrow> duration" where
  "hours n = word_of_int (n * 3600 * ns_per_s)"

definition seconds :: "int \<Rightarrow> duration" where
  "seconds n = word_of_int (n * ns_per_s)"

definition millis :: "int \<Rightarrow> duration" where
  "millis n = word_of_int (n * ns_per_ms)"

section \<open>Duration.String\<close>

text \<open>
  The fraction of \<open>fmtFrac\<close>: the last \<open>prec\<close> decimal digits of the value without its
  trailing zeros, after a point; nothing when all of them are zero.
\<close>

fun pad_digits :: "nat \<Rightarrow> nat \<Rightarrow> string" where
  "pad_digits 0 n = []"
| "pad_digits (Suc k) n = pad_digits k (n div 10) @ [digit_char (n mod 10)]"

definition drop_trailing_zeros :: "string \<Rightarrow> string" where
  "drop_trailing_zeros s = rev (dropWhile (\<lambda>c. c = CHR ''0'') (rev s))"

definition fmtFrac :: "nat \<Rightarrow> nat \<Rightarrow> string" where
  "fmtFrac u prec =
     (let ds = drop_trailing_zeros (pad_digits prec (u mod 10 ^ prec))
      in if ds = [] then [] else CHR ''.'' # ds)"

text \<open>The unit text of a microsecond is the micro sign in UTF-8 followed by \<open>s\<close>.\<close>

definition duration_text :: "nat \<Rightarrow> string" where
  "duration_text u =
     (if u < 1000000000 then
        (if u = 0 then ''0s''
         else if u < 1000 then nat_dec u @ ''ns''
         else if u < 1000000
           then nat_dec (u div 1000) @ fmtFrac u 3 @ [CHR 0xC2, CHR 0xB5] @ ''s''
         else nat_dec (u div 1000000) @ fmtFrac u 6 @ ''ms'')
      else
        (let secs = u div 1000000000;
             mins = secs div 60;
             hrs = mins div 60;
             s = nat_dec (secs mod 60) @ fmtFrac u 9 @ ''s''
         in if mins = 0 then s
            else if hrs = 0 then nat_dec (mins mod 60) @ ''m'' @ s
            else nat_dec hrs @ ''h'' @ nat_dec (mins mod 60) @ ''m'' @ s))"

definition duration_String :: "duration \<Rightarrow> string" where
  "duration_String d =
     (let body = duration_text (nat \<bar>sint d\<bar>) in if sint d < 0 then CHR ''-'' # body else body)"

lemma pad_digits_numeral:
  "pad_digits (numeral k) n = pad_digits (pred_numeral k) (n div 10) @ [digit_char (n mod 10)]"
  by (simp only: numeral_eq_Suc [of k] pad_digits.simps)

lemmas duration_String_eval =
  duration_String_def duration_text_def fmtFrac_def drop_trailing_zeros_def nat_dec.simps pad_digits_numeral
  digit_char_def char_of_def bit_Suc_0_iff Let_def

lemma duration_String_examples:
  "duration_String 0 = ''0s''"
  "duration_String 2500000 = ''2.5ms''"
  "duration_String 3000000000 = ''3s''"
  "duration_String 5400000000000 = ''1h30m0s''"
  by (simp_all add: duration_String_eval)

end
