(* ===== verification/Protocol.thy ===== *)
theory Protocol
  imports Go_Time
begin

text \<open>
  The data that crosses component boundaries: the three wire messages of
  pkg/protocol/messages.go and the stored row of internal/model/danmaku.go. Field names keep
  the source's name behind a prefix for the type.
\<close>

record ws_inbound =
  in_Type :: string
  in_Content :: string

record ws_outbound =
  out_Type :: string
  out_MessageID :: string
  out_RoomID :: string
  out_UserID :: string
  out_Content :: string
  out_NodeID :: string
  out_Timestamp :: time
  out_Error :: string

record broadcast_message =
  bc_MessageID :: string
  bc_RoomID :: string
  bc_UserID :: string
  bc_Content :: string
  bc_NodeID :: string
  bc_Timestamp :: time

record danmaku =
  dm_ID :: string
  dm_RoomID :: string
  dm_UserID :: string
  dm_Content :: string
  dm_CreatedAt :: time

text \<open>A composite literal that names some fields leaves the others at their zero value.\<close>

definition zero_outbound :: ws_outbound where
  "zero_outbound =
     \<lparr>out_Type = [], out_MessageID = [], out_RoomID = [], out_UserID = [], out_Content = [],
      out_NodeID = [], out_Timestamp = zero_time, out_Error = []\<rparr>"

definition zero_broadcast :: broadcast_message where
  "zero_broadcast =
     \<lparr>bc_MessageID = [], bc_RoomID = [], bc_UserID = [], bc_Content = [], bc_NodeID = [],
      bc_Timestamp = zero_time\<rparr>"

end
