(* ===== verification/Go_Chan.thy ===== *)
theory Go_Chan
  imports Prelude
begin

text \<open>
  Buffered Go channels, as the language defines them for the three uses the program makes:
  a send in a \<open>select\<close> with a \<open>default\<close> branch, a receive, and \<open>close\<close>. Below them the
  interface of a bounded queue that refuses new items when it is full, which both the send
  queue of a client and the persistence queue of the message service provide.
\<close>

section \<open>Channels\<close>

record 'a chan =
  chan_buf :: "'a list"
  chan_cap :: nat
  chan_closed :: bool

datatype send_outcome = Sent | WouldBlock | SendPanics

datatype 'a recv_outcome = Received 'a | RecvClosed | RecvBlocks

definition make_chan :: "nat \<Rightarrow> 'a chan" where
  "make_chan n = \<lparr>chan_buf = [], chan_cap = n, chan_closed = False\<rparr>"

text \<open>\<open>select { case c <- x: ... default: ... }\<close>; sending on a closed channel panics.\<close>

definition chan_try_send :: "'a \<Rightarrow> 'a chan \<Rightarrow> send_outcome \<times> 'a chan" where
  "chan_try_send x c =
     (if chan_closed c then (SendPanics, c)
      else if length (chan_buf c) < chan_cap c then (Sent, c\<lparr>chan_buf := chan_buf c @ [x]\<rparr>)
      else (WouldBlock, c))"

text \<open>\<open>x, ok := <-c\<close>: a closed channel first yields the items it still holds.\<close>

definition chan_recv :: "'a chan \<Rightarrow> 'a recv_outcome \<times> 'a chan" where
  "chan_recv c =
     (case chan_buf c of
        x # xs \<Rightarrow> (Received x, c\<lparr>chan_buf := xs\<rparr>)
      | [] \<Rightarrow> (if chan_closed c then RecvClosed else RecvBlocks, c))"

text \<open>\<open>close(c)\<close> panics (\<open>None\<close>) on a closed channel.\<close>

definition chan_close :: "'a chan \<Rightarrow> 'a chan option" where
  "chan_close c = (if chan_closed c then None else Some (c\<lparr>chan_closed := True\<rparr>))"

definition chan_ok :: "'a chan \<Rightarrow> bool" where
  "chan_ok c \<longleftrightarrow> length (chan_buf c) \<le> chan_cap c"

lemma chan_ok_make [simp]: "chan_ok (make_chan n)"
  by (simp add: chan_ok_def make_chan_def)

lemma chan_ok_try_send: "chan_ok c \<Longrightarrow> chan_try_send x c = (r, c') \<Longrightarrow> chan_ok c'"
  by (auto simp: chan_ok_def chan_try_send_def split: if_splits)

lemma chan_ok_recv: "chan_ok c \<Longrightarrow> chan_recv c = (r, c') \<Longrightarrow> chan_ok c'"
  by (auto simp: chan_ok_def chan_recv_def split: list.splits if_splits)

section \<open>Bounded queues that drop the newest item\<close>

text \<open>
  The contract of a non-blocking enqueue: on a well-formed queue (\<open>ready\<close>) it reports
  whether there was room, appends the item when there was, and keeps the queue's contents
  when there was not.
\<close>

locale drop_newest =
  fixes offer :: "'a \<Rightarrow> 'q \<Rightarrow> bool \<times> 'q"
    and contents :: "'q \<Rightarrow> 'a list"
    and room_for :: "'q \<Rightarrow> nat"
    and ready :: "'q \<Rightarrow> bool"
  assumes offer_accepts: "ready q \<Longrightarrow> fst (offer x q) \<longleftrightarrow> 0 < room_for q"
    and offer_contents: "ready q \<Longrightarrow>
      contents (snd (offer x q)) = contents q @ (if 0 < room_for q then [x] else [])"
    and offer_room: "ready q \<Longrightarrow> room_for (snd (offer x q)) = room_for q - 1"
    and offer_ready: "ready q \<Longrightarrow> ready (snd (offer x q))"
begin

text \<open>Offering a list of items one after the other.\<close>

fun offer_all :: "'a list \<Rightarrow> 'q \<Rightarrow> bool list \<times> 'q" where
  "offer_all [] q = ([], q)"
| "offer_all (x # xs) q =
     (let (b, q') = offer x q; (bs, q'') = offer_all xs q' in (b # bs, q''))"

lemma offer_all_ready: "ready q \<Longrightarrow> ready (snd (offer_all xs q))"
proof (induction xs arbitrary: q)
  case Nil
  then show ?case by simp
next
  case (Cons x xs)
  from offer_ready [OF Cons.prems, of x] Cons.IH show ?case
    by (simp add: case_prod_beta Let_def)
qed

text \<open>The queue keeps the oldest items in order: the first \<open>room_for q\<close> of them.\<close>

lemma offer_all_contents:
  "ready q \<Longrightarrow> contents (snd (offer_all xs q)) = contents q @ take (room_for q) xs"
proof (induction xs arbitrary: q)
  case Nil
  then show ?case by simp
next
  case (Cons x xs)
  from offer_ready [OF Cons.prems, of x]
  have "contents (snd (offer_all xs (snd (offer x q)))) =
    contents q @ (if 0 < room_for q then [x] else []) @ take (room_for q - 1) xs"
    by (simp add: Cons.IH offer_contents [OF Cons.prems] offer_room [OF Cons.prems])
  then show ?case by (cases "room_for q") (simp_all add: case_prod_beta Let_def)
qed

lemma offer_all_accepted:
  "ready q \<Longrightarrow> length (filter id (fst (offer_all xs q))) = min (room_for q) (length xs)"
proof (induction xs arbitrary: q)
  case Nil
  then show ?case by simp
next
  case (Cons x xs)
  from Cons.IH [OF offer_ready [OF Cons.prems, of x]]
  show ?case
    by (cases "room_for q")
      (simp_all add: case_prod_beta Let_def offer_accepts [OF Cons.prems] offer_room [OF Cons.prems])
qed

end

text \<open>A buffered channel that nobody has closed is such a queue.\<close>

definition chan_offer :: "'a \<Rightarrow> 'a chan \<Rightarrow> bool \<times> 'a chan" where
  "chan_offer x c = (case chan_try_send x c of (r, c') \<Rightarrow> (r = Sent, c'))"

definition chan_room :: "'a chan \<Rightarrow> nat" where
  "chan_room c = chan_cap c - length (chan_buf c)"

definition chan_open :: "'a chan \<Rightarrow> bool" where
  "chan_open c \<longleftrightarrow> \<not> chan_closed c"

interpretation open_chan: drop_newest chan_offer chan_buf chan_room chan_open
  by unfold_locales
    (auto simp: chan_offer_def chan_try_send_def chan_room_def chan_open_def)

end
