(* ===== verification/Room.thy ===== *)
theory Room
  imports Protocol Go_Chan
begin

text \<open>
  internal/room: a client connection with its bounded send queue, and the hub, the map from
  rooms to the connections of this node. Clients live in a heap indexed by pointers; the hub
  holds pointers only, as the program does.
\<close>

section \<open>Clients\<close>

record client_config =
  WriteWait :: duration
  PongWait :: duration
  PingPeriod :: duration
  MaxMessageSize :: int64

text \<open>
  The connection itself belongs to the WebSocket library; the client keeps how often it was
  closed. \<open>cl_once\<close> is the state of the \<open>sync.Once\<close>, \<open>cl_cancelled\<close> that of the context.
\<close>

record client =
  cl_UserID :: string
  cl_RoomID :: string
  cl_IP :: string
  cl_send :: "ws_outbound chan"
  cl_cfg :: client_config
  cl_cancelled :: bool
  cl_conn_closes :: nat
  cl_once :: bool

type_synonym client_heap = "ptr \<Rightarrow> client"

definition NewClient :: "string \<Rightarrow> string \<Rightarrow> string \<Rightarrow> client_config \<Rightarrow> client" where
  "NewClient userID roomID ip cfg =
     \<lparr>cl_UserID = userID, cl_RoomID = roomID, cl_IP = ip, cl_send = make_chan 256, cl_cfg = cfg,
      cl_cancelled = False, cl_conn_closes = 0, cl_once = False\<rparr>"

definition Enqueue :: "ws_outbound \<Rightarrow> client \<Rightarrow> bool \<times> client" where
  "Enqueue msg c = (case chan_try_send msg (cl_send c) of (r, ch) \<Rightarrow> (r = Sent, c\<lparr>cl_send := ch\<rparr>))"

text \<open>\<open>conn_err\<close> is what the library's \<open>conn.Close()\<close> returns when it is called.\<close>

definition client_Close :: "go_error option \<Rightarrow> client \<Rightarrow> go_error option \<times> client" where
  "client_Close conn_err c =
     (if cl_once c then (None, c)
      else (conn_err, c\<lparr>cl_once := True, cl_cancelled := True,
                        cl_conn_closes := cl_conn_closes c + 1\<rparr>))"

definition client_open :: "client \<Rightarrow> bool" where
  "client_open c \<longleftrightarrow> chan_open (cl_send c)"

definition send_room :: "client \<Rightarrow> nat" where
  "send_room c = chan_room (cl_send c)"

definition send_queue :: "client \<Rightarrow> ws_outbound list" where
  "send_queue c = chan_buf (cl_send c)"

text \<open>
  No code closes a send queue, so a client's queue is an open channel for as long as it
  lives, and \<open>Enqueue\<close> is an enqueue on a bounded queue that drops the newest item.
\<close>

lemma NewClient_open: "client_open (NewClient u r ip cfg)"
  by (simp add: client_open_def NewClient_def make_chan_def chan_open_def)

interpretation client_queue: drop_newest Enqueue send_queue send_room client_open
  by unfold_locales
    (auto simp: Enqueue_def chan_try_send_def send_queue_def send_room_def client_open_def
      chan_open_def chan_room_def)

lemma Enqueue_other:
  "cl_RoomID (snd (Enqueue msg c)) = cl_RoomID c" "cl_UserID (snd (Enqueue msg c)) = cl_UserID c"
  "cl_cancelled (snd (Enqueue msg c)) = cl_cancelled c" "cl_once (snd (Enqueue msg c)) = cl_once c"
  by (simp_all add: Enqueue_def case_prod_beta)

text \<open>Closing a client any number of times closes its connection and cancels its context once.\<close>

fun close_times :: "nat \<Rightarrow> go_error option \<Rightarrow> client \<Rightarrow> client" where
  "close_times 0 e c = c"
| "close_times (Suc n) e c = close_times n e (snd (client_Close e c))"

definition close_ok :: "client \<Rightarrow> bool" where
  "close_ok c \<longleftrightarrow> cl_conn_closes c = (if cl_once c then 1 else 0) \<and> (cl_once c \<longrightarrow> cl_cancelled c)"

lemma close_ok_new: "close_ok (NewClient u r ip cfg)"
  by (simp add: close_ok_def NewClient_def)

lemma close_ok_Close: "close_ok c \<Longrightarrow> close_ok (snd (client_Close e c))"
  by (auto simp: close_ok_def client_Close_def)

lemma close_ok_Enqueue: "close_ok c \<Longrightarrow> close_ok (snd (Enqueue msg c))"
  by (simp add: close_ok_def Enqueue_def case_prod_beta)

lemma close_times_once:
  "close_ok c \<Longrightarrow> 0 < n \<Longrightarrow>
   cl_conn_closes (close_times n e c) = 1 \<and> cl_cancelled (close_times n e c)"
proof (induction n arbitrary: c)
  case (Suc n)
  show ?case
  proof (cases n)
    case 0
    with Suc.prems show ?thesis by (auto simp: client_Close_def close_ok_def)
  next
    case (Suc m)
    with Suc.IH [of "snd (client_Close e c)"] close_ok_Close [OF Suc.prems(1)] show ?thesis by simp
  qed
qed simp

section \<open>The hub\<close>

record hub =
  hub_rooms :: "string \<rightharpoonup> ptr set"

definition NewHub :: hub where
  "NewHub = \<lparr>hub_rooms = Map.empty\<rparr>"

definition Join :: "client_heap \<Rightarrow> ptr \<Rightarrow> hub \<Rightarrow> nat \<times> hub" where
  "Join H client h =
     (let roomID = cl_RoomID (H client);
          clients = (case hub_rooms h roomID of Some cs \<Rightarrow> cs | None \<Rightarrow> {});
          clients' = insert client clients
      in (card clients', h\<lparr>hub_rooms := (hub_rooms h)(roomID \<mapsto> clients')\<rparr>))"

definition Leave :: "client_heap \<Rightarrow> ptr \<Rightarrow> hub \<Rightarrow> nat \<times> hub" where
  "Leave H client h =
     (let roomID = cl_RoomID (H client) in
      case hub_rooms h roomID of
        None \<Rightarrow> (0, h)
      | Some clients \<Rightarrow>
          let clients' = clients - {client} in
          if card clients' = 0 then (0, h\<lparr>hub_rooms := (hub_rooms h)(roomID := None)\<rparr>)
          else (card clients', h\<lparr>hub_rooms := (hub_rooms h)(roomID \<mapsto> clients')\<rparr>))"

fun enqueue_each :: "ws_outbound \<Rightarrow> ptr list \<Rightarrow> nat \<Rightarrow> client_heap \<Rightarrow> nat \<times> client_heap" where
  "enqueue_each msg [] count H = (count, H)"
| "enqueue_each msg (client # rest) count H =
     (case Enqueue msg (H client) of
        (ok, c') \<Rightarrow> enqueue_each msg rest (if ok then count + 1 else count) (H(client := c')))"

text \<open>\<open>order\<close> is the order in which \<open>range clients\<close> visits the room's connections.\<close>

definition BroadcastLocal ::
    "(ptr set \<Rightarrow> ptr list) \<Rightarrow> string \<Rightarrow> ws_outbound \<Rightarrow> hub \<Rightarrow> client_heap \<Rightarrow> nat \<times> client_heap" where
  "BroadcastLocal order roomID msg h H =
     (case hub_rooms h roomID of
        None \<Rightarrow> (0, H)
      | Some clients \<Rightarrow> enqueue_each msg (order clients) 0 H)"

definition RoomSize :: "string \<Rightarrow> hub \<Rightarrow> nat" where
  "RoomSize roomID h = (case hub_rooms h roomID of None \<Rightarrow> 0 | Some clients \<Rightarrow> card clients)"

subsection \<open>The hub as a set of connections\<close>

text \<open>
  A well-formed hub has no empty room, finitely many connections in each, and every
  connection stands under its own room. The contract of the hub is then a set of connections.
\<close>

definition hub_ok :: "client_heap \<Rightarrow> hub \<Rightarrow> bool" where
  "hub_ok H h \<longleftrightarrow>
     (\<forall>roomID clients. hub_rooms h roomID = Some clients \<longrightarrow>
        finite clients \<and> clients \<noteq> {} \<and> (\<forall>p \<in> clients. cl_RoomID (H p) = roomID))"

definition members :: "string \<Rightarrow> hub \<Rightarrow> ptr set" where
  "members roomID h = (case hub_rooms h roomID of None \<Rightarrow> {} | Some clients \<Rightarrow> clients)"

definition joined :: "hub \<Rightarrow> ptr set" where
  "joined h = (\<Union>roomID. members roomID h)"

lemma hub_ok_new: "hub_ok H NewHub"
  by (simp add: hub_ok_def NewHub_def)

lemma joined_new: "joined NewHub = {}"
  by (simp add: joined_def members_def NewHub_def)

lemma members_finite: "hub_ok H h \<Longrightarrow> finite (members roomID h)"
  by (auto simp: hub_ok_def members_def split: option.split)

lemma members_room: "hub_ok H h \<Longrightarrow> members roomID h = {p \<in> joined h. cl_RoomID (H p) = roomID}"
  unfolding hub_ok_def joined_def members_def by (fastforce split: option.splits)

lemma members_Join:
  "members roomID (snd (Join H p h)) =
     (if roomID = cl_RoomID (H p) then insert p (members roomID h) else members roomID h)"
  by (simp add: Join_def members_def Let_def split: option.split)

lemma members_Leave:
  assumes "hub_ok H h"
  shows "members roomID (snd (Leave H p h)) =
    (if roomID = cl_RoomID (H p) then members roomID h - {p} else members roomID h)"
proof (cases "hub_rooms h (cl_RoomID (H p))")
  case None
  then show ?thesis by (simp add: Leave_def members_def)
next
  case (Some cs)
  with assms have "finite cs" by (auto simp: hub_ok_def)
  with Some show ?thesis by (auto simp: Leave_def members_def Let_def)
qed

lemma hub_ok_Join: "hub_ok H h \<Longrightarrow> hub_ok H (snd (Join H p h))"
  by (auto simp: hub_ok_def Join_def Let_def split: option.splits if_splits)

lemma hub_ok_Leave: "hub_ok H h \<Longrightarrow> hub_ok H (snd (Leave H p h))"
  by (fastforce simp: hub_ok_def Leave_def Let_def split: option.splits if_splits)

lemma joined_Join: "hub_ok H h \<Longrightarrow> joined (snd (Join H p h)) = insert p (joined h)"
  by (auto simp: joined_def members_Join) metis

lemma joined_Leave:
  assumes "hub_ok H h"
  shows "joined (snd (Leave H p h)) = joined h - {p}"
proof -
  have "p \<notin> members roomID h" if "roomID \<noteq> cl_RoomID (H p)" for roomID
    using that members_room [OF assms] by auto
  then show ?thesis by (auto simp: joined_def members_Leave [OF assms]) metis
qed

lemma RoomSize_members: "RoomSize roomID h = card (members roomID h)"
  by (simp add: RoomSize_def members_def split: option.split)

text \<open>The results of the two operations are the sizes of the room after them.\<close>

lemma Join_result: "fst (Join H p h) = RoomSize (cl_RoomID (H p)) (snd (Join H p h))"
  by (simp add: Join_def RoomSize_def Let_def)

lemma Leave_result: "fst (Leave H p h) = RoomSize (cl_RoomID (H p)) (snd (Leave H p h))"
  by (simp add: Leave_def RoomSize_def Let_def split: option.split)

lemma RoomSize_joined:
  "hub_ok H h \<Longrightarrow> RoomSize roomID h = card {p \<in> joined h. cl_RoomID (H p) = roomID}"
  by (simp add: RoomSize_members members_room)

text \<open>
  C26. The hub refines a set of connections: joining adds the connection, leaving removes it,
  both report the number of connections left in that room, a room is forgotten when its last
  connection leaves, and the well-formedness is kept.
\<close>

theorem hub_refines_set:
  assumes "hub_ok H h"
  shows "hub_ok H (snd (Join H p h)) \<and> hub_ok H (snd (Leave H p h)) \<and>
    joined (snd (Join H p h)) = insert p (joined h) \<and>
    joined (snd (Leave H p h)) = joined h - {p} \<and>
    fst (Join H p h) = card {q \<in> insert p (joined h). cl_RoomID (H q) = cl_RoomID (H p)} \<and>
    fst (Leave H p h) = card {q \<in> joined h - {p}. cl_RoomID (H q) = cl_RoomID (H p)}"
proof -
  note ok = hub_ok_Join [OF assms, of p] hub_ok_Leave [OF assms, of p]
  show ?thesis
    using ok joined_Join [OF assms] joined_Leave [OF assms]
    by (simp add: Join_result Leave_result RoomSize_joined [OF ok(1)] RoomSize_joined [OF ok(2)])
qed

text \<open>An example hub: two connections in one room.\<close>

definition demo_cfg :: client_config where
  "demo_cfg = \<lparr>WriteWait = 10000000000, PongWait = 60000000000, PingPeriod = 50000000000,
               MaxMessageSize = 4096\<rparr>"

definition demo_heap :: client_heap where
  "demo_heap p = NewClient (if p = Ptr 1 then ''u1'' else ''u2'') ''r1'' ''127.0.0.1'' demo_cfg"

definition demo_hub :: hub where
  "demo_hub = snd (Join demo_heap (Ptr 2) (snd (Join demo_heap (Ptr 1) NewHub)))"

lemma demo_hub_ok: "hub_ok demo_heap demo_hub"
  by (simp add: demo_hub_def hub_ok_Join hub_ok_new)

lemma demo_hub_rooms: "hub_rooms demo_hub ''r1'' = Some {Ptr 1, Ptr 2}"
  by (auto simp: demo_hub_def Join_def NewHub_def demo_heap_def NewClient_def Let_def)

theorem hub_refines_set_witness:
  "hub_ok demo_heap demo_hub \<and>
   joined (snd (Leave demo_heap (Ptr 1) demo_hub)) = joined demo_hub - {Ptr 1}"
  using hub_refines_set [OF demo_hub_ok, of "Ptr 1"] demo_hub_ok by blast

section \<open>Local broadcast\<close>

lemma Enqueue_effect:
  "client_open c \<Longrightarrow> fst (Enqueue msg c) \<longleftrightarrow> 0 < send_room c"
  "client_open c \<Longrightarrow> send_queue (snd (Enqueue msg c)) = send_queue c @ (if 0 < send_room c then [msg] else [])"
  by (simp_all add: client_queue.offer_accepts client_queue.offer_contents)

lemma enqueue_each_heap:
  "distinct ps \<Longrightarrow>
   snd (enqueue_each msg ps n H) = (\<lambda>p. if p \<in> set ps then snd (Enqueue msg (H p)) else H p)"
proof (induction ps arbitrary: n H)
  case (Cons p ps)
  then show ?case by (auto simp: fun_eq_iff case_prod_beta)
qed simp

lemma enqueue_each_count:
  "distinct ps \<Longrightarrow>
   fst (enqueue_each msg ps n H) = n + length (filter (\<lambda>p. fst (Enqueue msg (H p))) ps)"
proof (induction ps arbitrary: n H)
  case (Cons p ps)
  have "filter (\<lambda>q. fst (Enqueue msg ((H(p := c)) q))) ps = filter (\<lambda>q. fst (Enqueue msg (H q))) ps" for c
    by (rule filter_cong) (use Cons.prems in auto)
  with Cons show ?case by (simp add: case_prod_beta)
qed simp

text \<open>The effect of a broadcast, whatever the order in which the runtime visits the room.\<close>

context map_range
begin

lemma range_enqueue:
  assumes "finite S"
  shows "set (range_order S) = S" "distinct (range_order S)"
    "length (filter P (range_order S)) = card {p \<in> S. P p}"
  using assms by (simp_all add: range_set range_distinct range_filter_length)

end

lemma BroadcastLocal_effect:
  assumes "map_range order" "hub_ok H h"
  shows "BroadcastLocal order roomID msg h H =
    (card {p \<in> members roomID h. fst (Enqueue msg (H p))},
     \<lambda>p. if p \<in> members roomID h then snd (Enqueue msg (H p)) else H p)"
proof (cases "hub_rooms h roomID")
  case None
  then show ?thesis by (simp add: BroadcastLocal_def members_def)
next
  case (Some cs)
  then have "finite cs" using assms(2) by (auto simp: hub_ok_def)
  note r = map_range.range_enqueue [OF assms(1) this]
  show ?thesis
    using Some enqueue_each_heap [OF r(2), of msg 0 H] enqueue_each_count [OF r(2), of msg 0 H] r
    by (simp add: BroadcastLocal_def members_def prod_eq_iff)
qed

text \<open>
  C19. A local broadcast puts the message at the end of the queue of exactly those connections
  of the room that have space, returns their number, and leaves every other queue as it was:
  no connection gets the message twice, none outside the room gets it, and a slow connection
  with a full queue neither blocks the broadcast nor loses what it had queued.
\<close>

theorem BroadcastLocal_delivers:
  assumes "map_range order" "hub_ok H h" "\<forall>p. client_open (H p)"
    and "BroadcastLocal order roomID msg h H = (n, H')"
  shows "n = card {p \<in> members roomID h. 0 < send_room (H p)} \<and>
    (\<forall>p. send_queue (H' p) =
       send_queue (H p) @ (if p \<in> members roomID h \<and> 0 < send_room (H p) then [msg] else []))"
  using BroadcastLocal_effect [OF assms(1,2), of roomID msg] assms(3,4) by (auto simp: Enqueue_effect)

lemma ascending_ptr: "map_range (sorted_list_of_set :: ptr set \<Rightarrow> ptr list)"
  by unfold_locales simp_all

definition demo_msg :: ws_outbound where
  "demo_msg = zero_outbound\<lparr>out_Type := ''danmaku'', out_Content := ''hello''\<rparr>"

lemma demo_heap_open: "\<forall>p. client_open (demo_heap p)"
  by (simp add: demo_heap_def NewClient_open)

theorem BroadcastLocal_delivers_witness:
  "fst (BroadcastLocal sorted_list_of_set ''r1'' demo_msg demo_hub demo_heap) = 2 \<and>
   send_queue (snd (BroadcastLocal sorted_list_of_set ''r1'' demo_msg demo_hub demo_heap) (Ptr 1)) = [demo_msg]"
proof -
  obtain n H' where b: "BroadcastLocal sorted_list_of_set ''r1'' demo_msg demo_hub demo_heap = (n, H')"
    by fastforce
  have "members ''r1'' demo_hub = {Ptr 1, Ptr 2}" by (simp add: members_def demo_hub_rooms)
  moreover have "0 < send_room (demo_heap p)" "send_queue (demo_heap p) = []" for p
    by (simp_all add: demo_heap_def NewClient_def make_chan_def send_room_def send_queue_def chan_room_def)
  moreover have "{p. p = Ptr (Suc 0) \<or> p = Ptr 2} = {Ptr 1, Ptr 2}" by auto
  then have "card {p. p = Ptr (Suc 0) \<or> p = Ptr 2} = 2" by simp
  ultimately show ?thesis
    using BroadcastLocal_delivers [OF ascending_ptr demo_hub_ok demo_heap_open b] b by simp
qed

lemma BroadcastLocal_order:
  "map_range o1 \<Longrightarrow> map_range o2 \<Longrightarrow> hub_ok H h \<Longrightarrow>
   BroadcastLocal o1 roomID msg h H = BroadcastLocal o2 roomID msg h H"
  by (simp add: BroadcastLocal_effect)

lemma BroadcastLocal_le_RoomSize:
  assumes "map_range order" "hub_ok H h"
  shows "fst (BroadcastLocal order roomID msg h H) \<le> RoomSize roomID h"
  using members_finite [OF assms(2)]
  by (simp add: BroadcastLocal_effect [OF assms] RoomSize_members card_mono)

end
