(* ===== verification/Go_Strings.thy ===== *)
theory Go_Strings
  imports Go_Int
begin

text \<open>
  The string functions of the standard library that the program calls on message content
  and room ids: \<open>strings.TrimSpace\<close> and \<open>base64.RawURLEncoding.EncodeToString\<close>. A Go
  string is a sequence of bytes, here a list of \<open>char\<close>s; \<open>len\<close> is \<open>length\<close>.
\<close>

section \<open>strings.TrimSpace\<close>

text \<open>
  \<open>TrimSpace\<close> removes leading and trailing runes for which \<open>unicode.IsSpace\<close> holds:
  tab, line feed, vertical tab, form feed, carriage return, space, U+0085, U+00A0, U+1680,
  U+2000 to U+200A, U+2028, U+2029, U+202F, U+205F and U+3000. Below are their UTF-8
  encodings. Decoding a rune at either end of a string gives a white space rune exactly
  when one of these byte sequences stands there, since each is the shortest and only valid
  encoding of its rune.
\<close>

definition space_seqs :: "string list" where
  "space_seqs =
    [[CHR 0x09], [CHR 0x0A], [CHR 0x0B], [CHR 0x0C], [CHR 0x0D], [CHR 0x20],
     [CHR 0xC2, CHR 0x85], [CHR 0xC2, CHR 0xA0], [CHR 0xE1, CHR 0x9A, CHR 0x80],
     [CHR 0xE2, CHR 0x80, CHR 0x80], [CHR 0xE2, CHR 0x80, CHR 0x81],
     [CHR 0xE2, CHR 0x80, CHR 0x82], [CHR 0xE2, CHR 0x80, CHR 0x83],
     [CHR 0xE2, CHR 0x80, CHR 0x84], [CHR 0xE2, CHR 0x80, CHR 0x85],
     [CHR 0xE2, CHR 0x80, CHR 0x86], [CHR 0xE2, CHR 0x80, CHR 0x87],
     [CHR 0xE2, CHR 0x80, CHR 0x88], [CHR 0xE2, CHR 0x80, CHR 0x89],
     [CHR 0xE2, CHR 0x80, CHR 0x8A], [CHR 0xE2, CHR 0x80, CHR 0xA8],
     [CHR 0xE2, CHR 0x80, CHR 0xA9], [CHR 0xE2, CHR 0x80, CHR 0xAF],
     [CHR 0xE2, CHR 0x81, CHR 0x9F], [CHR 0xE3, CHR 0x80, CHR 0x80]]"

fun strip_one :: "string list \<Rightarrow> string \<Rightarrow> string option" where
  "strip_one [] s = None"
| "strip_one (w # ws) s = (if prefix w s then Some (drop (length w) s) else strip_one ws s)"

lemma strip_one_Some: "strip_one ws s = Some t \<Longrightarrow> \<exists>w \<in> set ws. s = w @ t"
  by (induction ws) (auto simp: prefix_def split: if_splits)

lemma strip_one_None: "strip_one ws s = None \<longleftrightarrow> (\<forall>w \<in> set ws. \<not> prefix w s)"
  by (induction ws) auto

lemma space_seqs_nonempty: "w \<in> set space_seqs \<Longrightarrow> w \<noteq> []"
  by (auto simp: space_seqs_def)

text \<open>
  \<open>trim_seqs ws\<close> strips the sequences \<open>ws\<close> from the front for as long as one stands
  there. With an empty sequence in \<open>ws\<close> it would not progress, hence the length guard.
\<close>

function trim_seqs :: "string list \<Rightarrow> string \<Rightarrow> string" where
  "trim_seqs ws s =
     (case strip_one ws s of
        None \<Rightarrow> s
      | Some t \<Rightarrow> if length t < length s then trim_seqs ws t else s)"
  by pat_completeness auto
termination
  by (relation "measure (\<lambda>(ws, s). length s)") auto

declare trim_seqs.simps [simp del]

definition TrimLeftSpace :: "string \<Rightarrow> string" where
  "TrimLeftSpace s = trim_seqs space_seqs s"

definition TrimRightSpace :: "string \<Rightarrow> string" where
  "TrimRightSpace s = rev (trim_seqs (map rev space_seqs) (rev s))"

definition TrimSpace :: "string \<Rightarrow> string" where
  "TrimSpace s = TrimRightSpace (TrimLeftSpace s)"

lemma trim_seqs_split: "\<exists>us. s = concat us @ trim_seqs ws s \<and> set us \<subseteq> set ws"
proof (induction ws s rule: trim_seqs.induct)
  case (1 ws s)
  show ?case
  proof (cases "strip_one ws s")
    case None
    then show ?thesis by (subst trim_seqs.simps) (auto intro: exI [of _ "[]"])
  next
    case (Some t)
    then obtain w where w: "w \<in> set ws" "s = w @ t" using strip_one_Some by blast
    show ?thesis
    proof (cases "length t < length s")
      case True
      from "1.IH" [OF Some True] obtain us where
        us: "t = concat us @ trim_seqs ws t" "set us \<subseteq> set ws" by blast
      have "trim_seqs ws s = trim_seqs ws t"
        using Some True by (subst trim_seqs.simps) simp
      with w us show ?thesis by (intro exI [of _ "w # us"]) simp
    next
      case False
      with Some show ?thesis by (subst trim_seqs.simps) (auto intro: exI [of _ "[]"])
    qed
  qed
qed

lemma trim_seqs_done:
  assumes "\<forall>w \<in> set ws. w \<noteq> []"
  shows "strip_one ws (trim_seqs ws s) = None"
  using assms
proof (induction ws s rule: trim_seqs.induct)
  case (1 ws s)
  show ?case
  proof (cases "strip_one ws s")
    case None
    then show ?thesis by (subst trim_seqs.simps) simp
  next
    case (Some t)
    then obtain w where "w \<in> set ws" "s = w @ t" using strip_one_Some by blast
    with "1.prems" have True: "length t < length s" by simp
    then have "trim_seqs ws s = trim_seqs ws t"
      using Some by (subst trim_seqs.simps) simp
    with "1.IH" [OF Some True "1.prems"] show ?thesis by simp
  qed
qed

lemma trim_seqs_id: "strip_one ws s = None \<Longrightarrow> trim_seqs ws s = s"
  by (subst trim_seqs.simps) simp

definition starts_space :: "string \<Rightarrow> bool" where
  "starts_space s \<longleftrightarrow> (\<exists>w \<in> set space_seqs. prefix w s)"

definition ends_space :: "string \<Rightarrow> bool" where
  "ends_space s \<longleftrightarrow> (\<exists>w \<in> set space_seqs. suffix w s)"

lemma TrimLeftSpace_no_start: "\<not> starts_space (TrimLeftSpace s)"
  using trim_seqs_done [of space_seqs s] space_seqs_nonempty
  by (auto simp: TrimLeftSpace_def starts_space_def strip_one_None)

lemma TrimRightSpace_no_end: "\<not> ends_space (TrimRightSpace s)"
proof -
  have "\<forall>w \<in> set (map rev space_seqs). w \<noteq> []" using space_seqs_nonempty by auto
  from trim_seqs_done [OF this, of "rev s"]
  show ?thesis by (auto simp: TrimRightSpace_def ends_space_def strip_one_None suffix_to_prefix)
qed

lemma TrimLeftSpace_split: "\<exists>us. s = concat us @ TrimLeftSpace s \<and> set us \<subseteq> set space_seqs"
  unfolding TrimLeftSpace_def by (rule trim_seqs_split)

lemma TrimRightSpace_split: "\<exists>us. s = TrimRightSpace s @ concat us \<and> set us \<subseteq> set space_seqs"
proof -
  obtain vs where v: "rev s = concat vs @ trim_seqs (map rev space_seqs) (rev s)"
    "set vs \<subseteq> rev ` set space_seqs"
    using trim_seqs_split [of "rev s" "map rev space_seqs"] by auto
  have "s = TrimRightSpace s @ rev (concat vs)"
    using arg_cong [OF v(1), of rev] by (simp add: TrimRightSpace_def)
  moreover have "rev (concat vs) = concat (rev (map rev vs))"
    by (simp add: rev_concat rev_map)
  moreover have "set (rev (map rev vs)) \<subseteq> set space_seqs" using v(2) by auto
  ultimately show ?thesis by metis
qed

text \<open>A prefix of a string that does not start with white space does not either.\<close>

lemma starts_space_prefix: "prefix p t \<Longrightarrow> starts_space p \<Longrightarrow> starts_space t"
  by (auto simp: starts_space_def intro: prefix_order.trans)

lemma TrimSpace_no_start: "\<not> starts_space (TrimSpace s)"
proof -
  obtain us where "TrimLeftSpace s = TrimRightSpace (TrimLeftSpace s) @ concat us"
    using TrimRightSpace_split by blast
  then have "prefix (TrimSpace s) (TrimLeftSpace s)"
    unfolding TrimSpace_def by (metis prefixI)
  with TrimLeftSpace_no_start starts_space_prefix show ?thesis by blast
qed

lemma TrimSpace_no_end: "\<not> ends_space (TrimSpace s)"
  by (simp add: TrimSpace_def TrimRightSpace_no_end)

lemma TrimSpace_split:
  "\<exists>us vs. s = concat us @ TrimSpace s @ concat vs \<and> set us \<union> set vs \<subseteq> set space_seqs"
proof -
  obtain us where u: "s = concat us @ TrimLeftSpace s" "set us \<subseteq> set space_seqs"
    using TrimLeftSpace_split by blast
  obtain vs where v: "TrimLeftSpace s = TrimSpace s @ concat vs" "set vs \<subseteq> set space_seqs"
    using TrimRightSpace_split [of "TrimLeftSpace s"] by (auto simp: TrimSpace_def)
  from u v show ?thesis by (metis Un_least)
qed

lemma TrimSpace_unchanged:
  assumes "\<not> starts_space s" "\<not> ends_space s"
  shows "TrimSpace s = s"
proof -
  have "TrimLeftSpace s = s"
    using assms(1) by (simp add: TrimLeftSpace_def starts_space_def trim_seqs_id strip_one_None)
  moreover have "TrimRightSpace s = s"
    using assms(2)
    by (simp add: TrimRightSpace_def ends_space_def trim_seqs_id strip_one_None suffix_to_prefix)
  ultimately show ?thesis by (simp add: TrimSpace_def)
qed

lemma TrimSpace_idem: "TrimSpace (TrimSpace s) = TrimSpace s"
  by (rule TrimSpace_unchanged [OF TrimSpace_no_start TrimSpace_no_end])

lemma length_TrimSpace: "length (TrimSpace s) \<le> length s"
proof -
  obtain us vs where "s = concat us @ TrimSpace s @ concat vs"
    using TrimSpace_split by blast
  then show ?thesis by (metis le_add1 le_add2 length_append order_trans)
qed

lemmas TrimSpace_eval =
  TrimSpace_def TrimRightSpace_def TrimLeftSpace_def trim_seqs.simps space_seqs_def

lemma TrimSpace_examples:
  "TrimSpace ''  hi there '' = ''hi there''"
  "TrimSpace ''   '' = ''''"
  "TrimSpace [CHR 0xE3, CHR 0x80, CHR 0x80, CHR ''h'', CHR 0xC2, CHR 0xA0] = ''h''"
  by (simp_all add: TrimSpace_eval)

section \<open>base64.RawURLEncoding\<close>

text \<open>
  The URL alphabet without padding: each group of three bytes gives four characters, a rest
  of one byte gives two and a rest of two bytes gives three.
\<close>

definition b64_char :: "nat \<Rightarrow> char" where
  "b64_char i =
     (if i < 26 then char_of (65 + i)
      else if i < 52 then char_of (71 + i)
      else if i < 62 then char_of (i - 4)
      else if i = 62 then CHR ''-''
      else CHR ''_'')"

definition byte :: "char \<Rightarrow> nat" where
  "byte c = of_char c"

fun RawURL_encode :: "string \<Rightarrow> string" where
  "RawURL_encode [] = []"
| "RawURL_encode [a] = [b64_char (byte a div 4), b64_char (byte a mod 4 * 16)]"
| "RawURL_encode [a, b] =
     [b64_char (byte a div 4), b64_char (byte a mod 4 * 16 + byte b div 16),
      b64_char (byte b mod 16 * 4)]"
| "RawURL_encode (a # b # c # r) =
     b64_char (byte a div 4) # b64_char (byte a mod 4 * 16 + byte b div 16) #
     b64_char (byte b mod 16 * 4 + byte c div 64) # b64_char (byte c mod 64) # RawURL_encode r"

definition b64_val :: "char \<Rightarrow> nat" where
  "b64_val c =
     (let n = byte c in
      if 65 \<le> n \<and> n \<le> 90 then n - 65
      else if 97 \<le> n \<and> n \<le> 122 then n - 71
      else if 48 \<le> n \<and> n \<le> 57 then n + 4
      else if n = 45 then 62
      else 63)"

fun RawURL_decode :: "string \<Rightarrow> string" where
  "RawURL_decode (w # x # y # z # r) =
     char_of (b64_val w * 4 + b64_val x div 16) #
     char_of (b64_val x mod 16 * 16 + b64_val y div 4) #
     char_of (b64_val y mod 4 * 64 + b64_val z) # RawURL_decode r"
| "RawURL_decode [w, x, y] =
     [char_of (b64_val w * 4 + b64_val x div 16),
      char_of (b64_val x mod 16 * 16 + b64_val y div 4)]"
| "RawURL_decode [w, x] = [char_of (b64_val w * 4 + b64_val x div 16)]"
| "RawURL_decode _ = []"

lemma b64_val_char: "i < 64 \<Longrightarrow> b64_val (b64_char i) = i"
  by (auto simp: b64_val_def b64_char_def byte_def Let_def)

lemma byte_lt [simp]: "byte c < 256"
  using nat_of_char_less_256 by (simp add: byte_def)

lemma char_of_byte [simp]: "char_of (byte c) = c"
  by (simp add: byte_def)

lemma div_mod_join:
  fixes a :: nat
  shows "a div 4 * 4 + (a mod 4 * 16) div 16 = a"
    "y < 16 \<Longrightarrow> a div 4 * 4 + (a mod 4 * 16 + y) div 16 = a"
  by simp_all

lemma RawURL_roundtrip: "RawURL_decode (RawURL_encode s) = s"
proof (induction s rule: RawURL_encode.induct)
  case 1
  show ?case by simp
next
  case (2 a)
  have "byte a div 4 < 64" "byte a mod 4 * 16 < 64"
    using byte_lt [of a] by linarith+
  then show ?case by (simp add: b64_val_char)
next
  case (3 a b)
  have "byte a div 4 < 64" "byte a mod 4 * 16 + byte b div 16 < 64" "byte b mod 16 * 4 < 64"
    "byte b div 16 < 16"
    using byte_lt [of a] byte_lt [of b] by linarith+
  then show ?case by (simp add: b64_val_char)
next
  case (4 a b c r)
  have "byte a div 4 < 64" "byte a mod 4 * 16 + byte b div 16 < 64"
    "byte b mod 16 * 4 + byte c div 64 < 64" "byte c mod 64 < 64" "byte b div 16 < 16"
    "byte c div 64 < 4"
    using byte_lt [of a] byte_lt [of b] byte_lt [of c] by linarith+
  then show ?case using "4.IH" by (simp add: b64_val_char)
qed

lemma RawURL_encode_inj: "RawURL_encode s = RawURL_encode t \<longleftrightarrow> s = t"
  using RawURL_roundtrip by metis

text \<open>The alphabet avoids the characters with a meaning in a Redis key of the program.\<close>

lemma b64_char_safe: "b64_char i \<notin> {CHR '':'', CHR ''{'', CHR ''}''}"
  by (auto simp: b64_char_def char_of_eq_iff take_bit_eq_mod)

lemma RawURL_encode_safe: "set (RawURL_encode s) \<inter> {CHR '':'', CHR ''{'', CHR ''}''} = {}"
  using b64_char_safe by (induction s rule: RawURL_encode.induct) auto

lemma RawURL_encode_Nil: "RawURL_encode s = [] \<longleftrightarrow> s = []"
  by (cases s rule: RawURL_encode.cases) auto

lemma RawURL_examples:
  "RawURL_encode ''room-1'' = ''cm9vbS0x''"
  "RawURL_encode ''ab'' = ''YWI''"
  "RawURL_encode [CHR 0xFF, CHR 0xEF] = ''_-8''"
  by (simp_all add: b64_char_def byte_def char_of_def bit_Suc_0_iff)

end
