(* ===== verification/Go_Utf8.thy ===== *)
theory Go_Utf8
  imports Go_Strings
begin

text \<open>
  UTF-8 as \<open>unicode/utf8\<close> decodes it: the runes of a byte sequence, with every byte that does
  not belong to a valid encoding read as U+FFFD.
\<close>

section \<open>One rune\<close>

definition cont_byte :: "char \<Rightarrow> bool" where
  "cont_byte c \<longleftrightarrow> 128 \<le> byte c \<and> byte c < 192"

definition rune2 :: "char \<Rightarrow> char \<Rightarrow> bool" where
  "rune2 a b \<longleftrightarrow> 0xC2 \<le> byte a \<and> byte a \<le> 0xDF \<and> cont_byte b"

text \<open>No overlong forms after E0, no surrogates after ED.\<close>

definition rune3 :: "char \<Rightarrow> char \<Rightarrow> char \<Rightarrow> bool" where
  "rune3 a b c \<longleftrightarrow> 0xE0 \<le> byte a \<and> byte a \<le> 0xEF \<and> cont_byte b \<and> cont_byte c \<and>
     (byte a = 0xE0 \<longrightarrow> 0xA0 \<le> byte b) \<and> (byte a = 0xED \<longrightarrow> byte b \<le> 0x9F)"

text \<open>No overlong forms after F0, nothing above U+10FFFF after F4.\<close>

definition rune4 :: "char \<Rightarrow> char \<Rightarrow> char \<Rightarrow> char \<Rightarrow> bool" where
  "rune4 a b c d \<longleftrightarrow> 0xF0 \<le> byte a \<and> byte a \<le> 0xF4 \<and> cont_byte b \<and> cont_byte c \<and> cont_byte d \<and>
     (byte a = 0xF0 \<longrightarrow> 0x90 \<le> byte b) \<and> (byte a = 0xF4 \<longrightarrow> byte b \<le> 0x8F)"

text \<open>
  The encoding of the first rune and the rest of the text; \<open>None\<close> where \<open>DecodeRune\<close> gives
  \<open>RuneError\<close> of width 1.
\<close>

fun split_rune :: "string \<Rightarrow> (string \<times> string) option" where
  "split_rune [] = None"
| "split_rune (a # s) =
     (if byte a < 128 then Some ([a], s)
      else case s of
        [] \<Rightarrow> None
      | b # s1 \<Rightarrow>
          if rune2 a b then Some ([a, b], s1)
          else (case s1 of
            [] \<Rightarrow> None
          | c # s2 \<Rightarrow>
              if rune3 a b c then Some ([a, b, c], s2)
              else (case s2 of
                [] \<Rightarrow> None
              | d # s3 \<Rightarrow> if rune4 a b c d then Some ([a, b, c, d], s3) else None)))"

declare split_rune.simps [simp del]

lemma split_rune_Nil [simp]: "split_rune [] = None"
  by (simp add: split_rune.simps)

lemma split_rune_ascii [simp]: "byte a < 128 \<Longrightarrow> split_rune (a # s) = Some ([a], s)"
  by (simp add: split_rune.simps)

lemma split_rune_Some:
  assumes "split_rune s = Some (r, t)"
  shows "s = r @ t" "r \<noteq> []"
  using assms
  by (auto simp: split_rune.simps split: list.splits if_splits elim!: split_rune.elims)

lemma split_rune_length: "split_rune s = Some (r, t) \<Longrightarrow> length t < length s"
  using split_rune_Some [of s r t] by (cases r) auto

text \<open>Decoding looks at the bytes of the rune only.\<close>

lemma split_rune_append:
  assumes "split_rune (r @ t) = Some (r, t)"
  shows "split_rune (r @ u) = Some (r, u)"
proof (cases r)
  case Nil
  with split_rune_Some(2) [OF assms] show ?thesis by simp
next
  case (Cons a r1)
  with assms show ?thesis
    by (auto simp: split_rune.simps rune2_def rune3_def rune4_def Cons_eq_append_conv
        split: list.splits if_splits)
qed

definition is_rune :: "string \<Rightarrow> bool" where
  "is_rune r \<longleftrightarrow> split_rune r = Some (r, [])"

lemma is_rune_append: "is_rune r \<Longrightarrow> split_rune (r @ t) = Some (r, t)"
  using split_rune_append [of r "[]" t] by (simp add: is_rune_def)

lemma split_rune_is_rune: "split_rune s = Some (r, t) \<Longrightarrow> is_rune r"
  using split_rune_append [of r t "[]"] split_rune_Some(1) [of s r t] by (simp add: is_rune_def)

lemma is_rune_ascii [simp]: "byte a < 128 \<Longrightarrow> is_rune [a]"
  by (simp add: is_rune_def)

text \<open>The bytes of a rune of more than one byte are no ASCII characters.\<close>

lemma rune_bytes:
  assumes "is_rune (a # r)" "\<not> byte a < 128"
  shows "\<forall>c \<in> set (a # r). 128 \<le> byte c"
  using assms
  by (auto simp: is_rune_def split_rune.simps rune2_def rune3_def rune4_def cont_byte_def
      split: list.splits if_splits)

section \<open>The replacement character\<close>

definition replacement :: string where
  "replacement = [CHR 0xEF, CHR 0xBF, CHR 0xBD]"

lemma is_rune_replacement [simp]: "is_rune replacement"
  by (simp add: is_rune_def replacement_def split_rune.simps rune2_def rune3_def cont_byte_def byte_def)

text \<open>A text with every invalid byte replaced, and the texts this leaves alone.\<close>

function sanitize :: "string \<Rightarrow> string" where
  "sanitize s =
     (if s = [] then []
      else case split_rune s of
        Some (r, t) \<Rightarrow> r @ sanitize t
      | None \<Rightarrow> replacement @ sanitize (tl s))"
  by pat_completeness auto
termination by (relation "measure length") (auto dest: split_rune_length)

declare sanitize.simps [simp del]

definition valid_utf8 :: "string \<Rightarrow> bool" where
  "valid_utf8 s \<longleftrightarrow> sanitize s = s"

lemma sanitize_Nil [simp]: "sanitize [] = []"
  by (simp add: sanitize.simps)

lemma sanitize_rune: "split_rune s = Some (r, t) \<Longrightarrow> sanitize s = r @ sanitize t"
  by (subst sanitize.simps) auto

lemma sanitize_invalid: "split_rune (a # s) = None \<Longrightarrow> sanitize (a # s) = replacement @ sanitize s"
  by (subst sanitize.simps) auto

lemma sanitize_is_rune: "is_rune r \<Longrightarrow> sanitize (r @ s) = r @ sanitize s"
  by (rule sanitize_rune) (rule is_rune_append)

lemma sanitize_ascii [simp]: "byte a < 128 \<Longrightarrow> sanitize (a # s) = a # sanitize s"
  by (simp add: sanitize_rune)

lemma utf8_induct [case_names Nil rune invalid]:
  assumes "P []" "\<And>s r t. split_rune s = Some (r, t) \<Longrightarrow> P t \<Longrightarrow> P s"
    and "\<And>a s. split_rune (a # s) = None \<Longrightarrow> P s \<Longrightarrow> P (a # s)"
  shows "P s"
proof (induction s rule: length_induct)
  case (1 s)
  show ?case
  proof (cases "split_rune s")
    case None
    with 1 assms(1,3) show ?thesis by (cases s) auto
  next
    case (Some rt)
    obtain r t where rt: "rt = (r, t)" by (cases rt)
    with Some have "split_rune s = Some (r, t)" by simp
    with 1 assms(2) split_rune_length show ?thesis by blast
  qed
qed

lemma sanitize_idem: "sanitize (sanitize s) = sanitize s"
proof (induction s rule: utf8_induct)
  case (rune s r t)
  then show ?case by (simp add: sanitize_rune [OF rune(1)] sanitize_is_rune split_rune_is_rune)
next
  case (invalid a s)
  then show ?case by (simp add: sanitize_invalid sanitize_is_rune)
qed simp

lemma valid_sanitize [simp]: "valid_utf8 (sanitize s)"
  by (simp add: valid_utf8_def sanitize_idem)

lemma valid_ascii: "list_all (\<lambda>c. byte c < 128) s \<Longrightarrow> valid_utf8 s"
  unfolding valid_utf8_def by (induction s) auto

section \<open>utf8.EncodeRune\<close>

definition encode_rune :: "nat \<Rightarrow> string" where
  "encode_rune u =
     (if u < 0x80 then [char_of u]
      else if u < 0x800 then [char_of (0xC0 + u div 64), char_of (0x80 + u mod 64)]
      else if 0x110000 \<le> u \<or> 0xD800 \<le> u \<and> u < 0xE000 then replacement
      else if u < 0x10000 then
        [char_of (0xE0 + u div 4096), char_of (0x80 + u div 64 mod 64), char_of (0x80 + u mod 64)]
      else [char_of (0xF0 + u div 262144), char_of (0x80 + u div 4096 mod 64),
            char_of (0x80 + u div 64 mod 64), char_of (0x80 + u mod 64)])"

lemma byte_char_of: "n < 256 \<Longrightarrow> byte (char_of n) = n"
  by (simp add: byte_def)

text \<open>Every code point is encoded as one rune.\<close>

lemma is_rune_encode: "is_rune (encode_rune u)"
proof -
  consider "u < 0x80" | "0x80 \<le> u" "u < 0x800" | "0x110000 \<le> u \<or> 0xD800 \<le> u \<and> u < 0xE000"
    | "0x800 \<le> u" "u < 0x10000" "\<not> (0xD800 \<le> u \<and> u < 0xE000)" | "0x10000 \<le> u" "u < 0x110000"
    by linarith
  then show ?thesis
  proof cases
    case 1
    then show ?thesis by (simp add: encode_rune_def byte_char_of)
  next
    case 2
    define q r where "q = u div 64" and "r = u mod 64"
    have "u = 64 * q + r" "r < 64" by (simp_all add: q_def r_def)
    with 2 have "2 \<le> q" "q < 32" "r < 64" by linarith+
    with 2 show ?thesis
      by (simp add: encode_rune_def is_rune_def split_rune.simps rune2_def cont_byte_def byte_char_of
          q_def [symmetric] r_def [symmetric])
  next
    case 3
    then show ?thesis by (auto simp: encode_rune_def)
  next
    case 4
    define p q r where "p = u div 4096" and "q = u div 64 mod 64" and "r = u mod 64"
    have "u div 64 = 64 * p + q" by (simp add: p_def q_def div_mult2_eq [of u 64 64, simplified])
    moreover have "u = 64 * (u div 64) + r" by (simp add: r_def)
    ultimately have u: "u = 4096 * p + 64 * q + r" by linarith
    have qr: "q < 64" "r < 64" by (simp_all add: q_def r_def)
    have p: "p < 16" using u 4 by linarith
    have "p = 0 \<Longrightarrow> 32 \<le> q" "p = 13 \<Longrightarrow> q \<le> 31" using u 4 qr by linarith+
    with 4 p qr is_rune_replacement [unfolded is_rune_def] show ?thesis
      by (simp add: encode_rune_def is_rune_def split_rune.simps rune2_def rune3_def cont_byte_def
          byte_char_of p_def [symmetric] q_def [symmetric] r_def [symmetric])
  next
    case 5
    define o' p q r where "o' = u div 262144" and "p = u div 4096 mod 64" and "q = u div 64 mod 64"
      and "r = u mod 64"
    have "u div 4096 = 64 * o' + p" by (simp add: o'_def p_def div_mult2_eq [of u 4096 64, simplified])
    moreover have "u div 64 = 64 * (u div 4096) + q"
      by (simp add: q_def div_mult2_eq [of u 64 64, simplified])
    moreover have "u = 64 * (u div 64) + r" by (simp add: r_def)
    ultimately have u: "u = 262144 * o' + 4096 * p + 64 * q + r" by linarith
    have pqr: "p < 64" "q < 64" "r < 64" by (simp_all add: p_def q_def r_def)
    have o: "o' < 5" using u 5 by linarith
    have "o' = 0 \<Longrightarrow> 16 \<le> p" "o' = 4 \<Longrightarrow> p \<le> 15" using u 5 pqr by linarith+
    with 5 o pqr show ?thesis
      by (simp add: encode_rune_def is_rune_def split_rune.simps rune2_def rune3_def rune4_def cont_byte_def
          byte_char_of o'_def [symmetric] p_def [symmetric] q_def [symmetric] r_def [symmetric])
  qed
qed

section \<open>Valid texts\<close>

lemma sanitize_length: "length s \<le> length (sanitize s)"
proof (induction s rule: utf8_induct)
  case (rune s r t)
  have "length s = length r + length t" using split_rune_Some(1) [OF rune(1)] by simp
  with rune(2) show ?case unfolding sanitize_rune [OF rune(1)] by simp
next
  case (invalid a s)
  then show ?case by (simp add: sanitize_invalid replacement_def)
qed simp

lemma valid_Nil [simp]: "valid_utf8 []"
  by (simp add: valid_utf8_def)

lemma valid_rune_append: "is_rune r \<Longrightarrow> valid_utf8 (r @ t) \<longleftrightarrow> valid_utf8 t"
  by (simp add: valid_utf8_def sanitize_is_rune)

lemma valid_split:
  assumes "valid_utf8 s" "s \<noteq> []"
  obtains r t where "split_rune s = Some (r, t)" "valid_utf8 t"
proof (cases "split_rune s")
  case None
  with assms(2) obtain a s' where "s = a # s'" "split_rune (a # s') = None" by (cases s) auto
  then have "length (sanitize s) = 3 + length (sanitize s')" by (simp add: sanitize_invalid replacement_def)
  with assms(1) sanitize_length [of s'] \<open>s = a # s'\<close> show thesis by (simp add: valid_utf8_def)
next
  case (Some p)
  then obtain r t where p: "split_rune s = Some (r, t)" by (cases p) auto
  from split_rune_Some(1) [OF p] valid_rune_append [OF split_rune_is_rune [OF p], of t] assms(1) p that
  show thesis by simp
qed

text \<open>The bytes of a rune after its first are continuation bytes.\<close>

lemma rune_tail: "is_rune (a # r) \<Longrightarrow> \<forall>c \<in> set r. cont_byte c"
  by (auto simp: is_rune_def split_rune.simps rune2_def rune3_def rune4_def
      split: list.splits if_splits)

text \<open>A valid text may be cut before any byte that starts a rune.\<close>

lemma valid_prefix:
  assumes "valid_utf8 (u @ c # w)" "\<not> cont_byte c"
  shows "valid_utf8 u"
  using assms(1)
proof (induction u rule: length_induct)
  case (1 u)
  show ?case
  proof (cases u)
    case Nil
    then show ?thesis by simp
  next
    case (Cons a u1)
    obtain r t where r: "split_rune (u @ c # w) = Some (r, t)" "valid_utf8 t"
      by (rule valid_split [OF 1(2)]) auto
    have e: "u @ c # w = r @ t" and ne: "r \<noteq> []" using split_rune_Some [OF r(1)] by auto
    have rune: "is_rune r" using r(1) by (rule split_rune_is_rune)
    from e consider v where "r = u @ v" "v @ t = c # w" | v where "u = r @ v" "t = v @ c # w"
      by (auto simp: append_eq_append_conv2)
    then show ?thesis
    proof cases
      case 1
      show ?thesis
      proof (cases v)
        case Nil
        with 1 rune valid_rune_append [OF rune, of "[]"] show ?thesis by simp
      next
        case (Cons d v1)
        with 1(2) have "d = c" by simp
        with 1(1) Cons \<open>u = a # u1\<close> rune_tail [of a "u1 @ c # v1"] rune assms(2) show ?thesis by auto
      qed
    next
      case 2
      with "1.IH" r(2) ne have "valid_utf8 v" by (cases r) auto
      with 2(1) valid_rune_append [OF rune] show ?thesis by simp
    qed
  qed
qed

text \<open>Trimming white space keeps a text valid.\<close>

lemma space_runes: "w \<in> set space_seqs \<Longrightarrow> is_rune w \<and> \<not> cont_byte (hd w)"
  by (auto simp: space_seqs_def is_rune_def split_rune.simps rune2_def rune3_def cont_byte_def byte_def)

lemma valid_TrimLeft: "valid_utf8 s \<Longrightarrow> valid_utf8 (TrimLeftSpace s)"
proof -
  assume v: "valid_utf8 s"
  obtain us where us: "s = concat us @ TrimLeftSpace s" "set us \<subseteq> set space_seqs"
    using TrimLeftSpace_split by blast
  have "valid_utf8 (concat us @ t) \<Longrightarrow> valid_utf8 t" for t
    using us(2) by (induction us) (auto simp: valid_rune_append space_runes)
  then show ?thesis using v us(1) by metis
qed

lemma valid_TrimRight: "valid_utf8 s \<Longrightarrow> valid_utf8 (TrimRightSpace s)"
proof -
  assume v: "valid_utf8 s"
  obtain us where us: "s = TrimRightSpace s @ concat us" "set us \<subseteq> set space_seqs"
    using TrimRightSpace_split by blast
  show ?thesis
  proof (cases us)
    case Nil
    with us v show ?thesis by simp
  next
    case (Cons w ws)
    with us(2) have w: "is_rune w" "\<not> cont_byte (hd w)" using space_runes by auto
    then obtain c w1 where c: "w = c # w1" by (cases w) (auto simp: is_rune_def)
    have "valid_utf8 (TrimRightSpace s @ c # (w1 @ concat ws))" using us(1) Cons c v by simp
    then show ?thesis by (rule valid_prefix) (use w(2) c in simp)
  qed
qed

lemma valid_TrimSpace: "valid_utf8 s \<Longrightarrow> valid_utf8 (TrimSpace s)"
  by (simp add: TrimSpace_def valid_TrimLeft valid_TrimRight)

end
