(* ===== verification/Json.thy ===== *)
theory Json
  imports Go_Utf8
begin

text \<open>
  encoding/json, as far as the program uses it: writing strings and objects, reading any JSON
  text, and storing an object in a struct. What is written is read back, and a text cannot
  break out of the string it is written into.
\<close>

section \<open>Writing strings\<close>

definition hex_char :: "nat \<Rightarrow> char" where
  "hex_char n = (if n < 10 then char_of (48 + n) else char_of (87 + n))"

definition html_safe :: "char \<Rightarrow> bool" where
  "html_safe c \<longleftrightarrow> 0x20 \<le> byte c \<and> byte c < 0x80 \<and>
     c \<notin> {CHR 0x22, CHR 0x5C, CHR ''<'', CHR ''>'', CHR ''&''}"

text \<open>The escape of a byte below 0x80 that is not safe.\<close>

definition escape_byte :: "char \<Rightarrow> string" where
  "escape_byte c =
     (if c = CHR 0x5C \<or> c = CHR 0x22 then [CHR 0x5C, c]
      else if c = CHR 0x08 then [CHR 0x5C, CHR ''b'']
      else if c = CHR 0x0C then [CHR 0x5C, CHR ''f'']
      else if c = CHR 0x0A then [CHR 0x5C, CHR ''n'']
      else if c = CHR 0x0D then [CHR 0x5C, CHR ''r'']
      else if c = CHR 0x09 then [CHR 0x5C, CHR ''t'']
      else [CHR 0x5C, CHR ''u'', CHR ''0'', CHR ''0'', hex_char (byte c div 16), hex_char (byte c mod 16)])"

definition line_sep :: string where
  "line_sep = [CHR 0xE2, CHR 0x80, CHR 0xA8]"

definition para_sep :: string where
  "para_sep = [CHR 0xE2, CHR 0x80, CHR 0xA9]"

function json_chars :: "string \<Rightarrow> string" where
  "json_chars s =
     (case s of
        [] \<Rightarrow> []
      | a # s1 \<Rightarrow>
          if byte a < 128 then (if html_safe a then [a] else escape_byte a) @ json_chars s1
          else case split_rune s of
            None \<Rightarrow> [CHR 0x5C] @ ''ufffd'' @ json_chars s1
          | Some (r, t) \<Rightarrow>
              (if r = line_sep then [CHR 0x5C] @ ''u2028''
               else if r = para_sep then [CHR 0x5C] @ ''u2029'' else r) @ json_chars t)"
  by pat_completeness auto
termination by (relation "measure length") (auto dest: split_rune_length)

declare json_chars.simps [simp del]

definition json_quote :: "string \<Rightarrow> string" where
  "json_quote s = CHR 0x22 # json_chars s @ [CHR 0x22]"

lemma json_chars_Nil [simp]: "json_chars [] = []"
  by (simp add: json_chars.simps)

lemma json_chars_ascii:
  "byte a < 128 \<Longrightarrow> json_chars (a # s) = (if html_safe a then [a] else escape_byte a) @ json_chars s"
  by (subst json_chars.simps) simp

lemma json_chars_rune:
  assumes "split_rune s = Some (r, t)" "\<not> byte (hd s) < 128"
  shows "json_chars s = (if r = line_sep then [CHR 0x5C] @ ''u2028''
     else if r = para_sep then [CHR 0x5C] @ ''u2029'' else r) @ json_chars t"
  using assms by (cases s) (simp_all add: json_chars.simps [of "_ # _"])

lemma json_chars_invalid:
  "split_rune (a # s) = None \<Longrightarrow> json_chars (a # s) = [CHR 0x5C] @ ''ufffd'' @ json_chars s"
  by (subst json_chars.simps) auto

section \<open>Reading strings\<close>

definition hex_val :: "char \<Rightarrow> nat option" where
  "hex_val c =
     (if CHR ''0'' \<le> c \<and> c \<le> CHR ''9'' then Some (byte c - 48)
      else if CHR ''a'' \<le> c \<and> c \<le> CHR ''f'' then Some (byte c - 87)
      else if CHR ''A'' \<le> c \<and> c \<le> CHR ''F'' then Some (byte c - 55)
      else None)"

fun hex4 :: "string \<Rightarrow> (nat \<times> string) option" where
  "hex4 (a # b # c # d # s) =
     (case (hex_val a, hex_val b, hex_val c, hex_val d) of
        (Some i, Some j, Some k, Some l) \<Rightarrow> Some (((i * 16 + j) * 16 + k) * 16 + l, s)
      | _ \<Rightarrow> None)"
| "hex4 s = None"

lemma hex4_length: "hex4 s = Some (u, t) \<Longrightarrow> length t < length s"
  by (induction s rule: hex4.induct) (auto split: option.splits)

definition simple_escape :: "char \<Rightarrow> char option" where
  "simple_escape e =
     map_of [(CHR 0x22, CHR 0x22), (CHR 0x5C, CHR 0x5C), (CHR ''/'', CHR ''/''), (CHR ''b'', CHR 0x08),
       (CHR ''f'', CHR 0x0C), (CHR ''n'', CHR 0x0A), (CHR ''r'', CHR 0x0D), (CHR ''t'', CHR 0x09)] e"

definition high_surrogate :: "nat \<Rightarrow> bool" where
  "high_surrogate u \<longleftrightarrow> 0xD800 \<le> u \<and> u < 0xDC00"

definition low_surrogate :: "nat \<Rightarrow> bool" where
  "low_surrogate u \<longleftrightarrow> 0xDC00 \<le> u \<and> u < 0xE000"

text \<open>The text after the four digits of \<open>u\<close>: a second half of a surrogate pair is taken along.\<close>

definition unicode_escape :: "nat \<Rightarrow> string \<Rightarrow> string \<times> string" where
  "unicode_escape u s =
     (if high_surrogate u \<or> low_surrogate u then
        (case s of
           b # v # s1 \<Rightarrow>
             if b = CHR 0x5C \<and> v = CHR ''u'' then
               (case hex4 s1 of
                  Some (u2, s2) \<Rightarrow>
                    if high_surrogate u \<and> low_surrogate u2
                    then (encode_rune ((u - 0xD800) * 1024 + (u2 - 0xDC00) + 0x10000), s2)
                    else (replacement, s)
                | None \<Rightarrow> (replacement, s))
             else (replacement, s)
         | _ \<Rightarrow> (replacement, s))
      else (encode_rune u, s))"

lemma unicode_escape_length: "unicode_escape u s = (r, t) \<Longrightarrow> length t \<le> length s"
  by (auto simp: unicode_escape_def dest!: hex4_length split: list.splits option.splits if_splits)

text \<open>
  A string after its opening quote: the bytes it denotes and the text after the closing quote.
\<close>

definition prepend :: "string \<Rightarrow> (string \<times> string) option \<Rightarrow> (string \<times> string) option" where
  "prepend r p = map_option (\<lambda>(v, t). (r @ v, t)) p"

lemma prepend_simps [simp]: "prepend r None = None" "prepend r (Some (v, t)) = Some (r @ v, t)"
  by (simp_all add: prepend_def)

function json_string :: "string \<Rightarrow> (string \<times> string) option" where
  "json_string s =
     (case s of
        [] \<Rightarrow> None
      | c # s1 \<Rightarrow>
          if c = CHR 0x22 then Some ([], s1)
          else if byte c < 0x20 then None
          else if c = CHR 0x5C then
            (case s1 of
               [] \<Rightarrow> None
             | e # s2 \<Rightarrow>
                 if e = CHR ''u'' then
                   (case hex4 s2 of
                      None \<Rightarrow> None
                    | Some (u, s3) \<Rightarrow>
                        (case unicode_escape u s3 of (r, s4) \<Rightarrow> prepend r (json_string s4)))
                 else (case simple_escape e of
                     None \<Rightarrow> None
                   | Some v \<Rightarrow> prepend [v] (json_string s2)))
          else (case split_rune s of
              Some (r, t) \<Rightarrow> prepend r (json_string t)
            | None \<Rightarrow> prepend replacement (json_string s1)))"
  by pat_completeness auto
termination
  by (relation "measure length")
    (auto dest!: split_rune_length hex4_length unicode_escape_length dest: sym)

declare json_string.simps [simp del]

section \<open>A string that was written is read back\<close>

lemma hex_val_char: "n < 16 \<Longrightarrow> hex_val (hex_char n) = Some n"
proof -
  have "list_all (\<lambda>n. hex_val (hex_char n) = Some n) [0..<16]" by code_simp
  then show "n < 16 \<Longrightarrow> hex_val (hex_char n) = Some n" by (simp add: list_all_iff)
qed

lemma json_string_end: "json_string (CHR 0x22 # rest) = Some ([], rest)"
  by (subst json_string.simps) simp

lemma json_string_rune:
  assumes "is_rune (c # r)" "c \<noteq> CHR 0x22" "c \<noteq> CHR 0x5C" "\<not> byte c < 0x20"
  shows "json_string ((c # r) @ s) = prepend (c # r) (json_string s)"
  using assms is_rune_append [OF assms(1), of s]
  by (simp add: json_string.simps [of "_ # _"])

lemma json_string_escape:
  assumes "simple_escape e = Some v"
  shows "json_string (CHR 0x5C # e # s) = prepend [v] (json_string s)"
proof -
  have "e \<noteq> CHR ''u''" using assms by (auto simp: simple_escape_def)
  with assms show ?thesis by (simp add: json_string.simps [of "CHR 0x5C # _"] byte_def)
qed

lemma json_string_unicode:
  assumes "hex4 s = Some (u, t)" "\<not> high_surrogate u" "\<not> low_surrogate u"
  shows "json_string (CHR 0x5C # CHR ''u'' # s) = prepend (encode_rune u) (json_string t)"
  using assms by (simp add: json_string.simps [of "CHR 0x5C # _"] byte_def unicode_escape_def)

text \<open>Each byte below 0x80, written safe or escaped, is read as itself.\<close>

lemma json_string_ascii:
  assumes "byte a < 128"
  shows "json_string ((if html_safe a then [a] else escape_byte a) @ s) = prepend [a] (json_string s)"
proof (cases "html_safe a")
  case True
  with assms json_string_rune [of a "[]" s] show ?thesis
    by (simp add: html_safe_def is_rune_ascii)
next
  case False
  have "hex4 (CHR ''0'' # CHR ''0'' # hex_char (byte a div 16) # hex_char (byte a mod 16) # s) = Some (byte a, s)"
    using assms by (simp add: hex_val_char) (simp add: hex_val_def byte_def)
  moreover have "encode_rune (byte a) = [a]" using assms by (simp add: encode_rune_def)
  moreover have "\<not> high_surrogate (byte a)" "\<not> low_surrogate (byte a)"
    using assms by (simp_all add: high_surrogate_def low_surrogate_def)
  ultimately have u: "json_string (CHR 0x5C # CHR ''u'' # CHR ''0'' # CHR ''0'' #
      hex_char (byte a div 16) # hex_char (byte a mod 16) # s) = prepend [a] (json_string s)"
    using json_string_unicode by metis
  from False show ?thesis
    by (simp add: escape_byte_def u json_string_escape simple_escape_def)
qed

lemma hex4_literals:
  "hex4 (''fffd'' @ s) = Some (0xFFFD, s)" "hex4 (''2028'' @ s) = Some (0x2028, s)"
  "hex4 (''2029'' @ s) = Some (0x2029, s)"
  by (simp_all add: hex_val_def byte_def)

lemma encode_rune_literals:
  "encode_rune 0xFFFD = replacement" "encode_rune 0x2028 = line_sep" "encode_rune 0x2029 = para_sep"
  by (simp_all add: encode_rune_def replacement_def line_sep_def para_sep_def char_of_def bit_Suc_0_iff)

lemma json_string_literals:
  "json_string ([CHR 0x5C] @ ''ufffd'' @ s) = prepend replacement (json_string s)"
  "json_string ([CHR 0x5C] @ ''u2028'' @ s) = prepend line_sep (json_string s)"
  "json_string ([CHR 0x5C] @ ''u2029'' @ s) = prepend para_sep (json_string s)"
  using json_string_unicode [OF hex4_literals(1), of s] json_string_unicode [OF hex4_literals(2), of s]
    json_string_unicode [OF hex4_literals(3), of s]
  by (simp_all add: encode_rune_literals high_surrogate_def low_surrogate_def)

lemma json_string_chars: "json_string (json_chars s @ CHR 0x22 # rest) = Some (sanitize s, rest)"
proof (induction s rule: utf8_induct)
  case Nil
  show ?case by (simp add: json_string_end)
next
  case (rune s r t)
  obtain a r1 where r: "r = a # r1" using split_rune_Some(2) [OF rune(1)] by (cases r) auto
  have s: "s = r @ t" using rune(1) by (rule split_rune_Some)
  have v: "sanitize s = r @ sanitize t" using rune(1) by (rule sanitize_rune)
  show ?case
  proof (cases "byte a < 128")
    case True
    with rune(1) s r have "r1 = []" by simp
    with True r s v rune(2) show ?thesis
      using json_string_ascii [OF True, of "json_chars t @ CHR 0x22 # rest"]
      by (simp add: json_chars_ascii)
  next
    case False
    have "\<not> byte (hd s) < 128" using False s r by simp
    note w = json_chars_rune [OF rune(1) this]
    have "a \<noteq> CHR 0x22" "a \<noteq> CHR 0x5C" using False by (auto simp: byte_def)
    with json_string_rune [of a r1 "json_chars t @ CHR 0x22 # rest"] split_rune_is_rune [OF rune(1)] False r
    have p: "json_string (r @ json_chars t @ CHR 0x22 # rest) = prepend r (json_string (json_chars t @ CHR 0x22 # rest))"
      by simp
    show ?thesis
      using json_string_literals [of "json_chars t @ CHR 0x22 # rest"] p rune(2) v
      by (simp add: w)
  qed
next
  case (invalid a s)
  then show ?case
    using json_string_literals(1) [of "json_chars s @ CHR 0x22 # rest"]
    by (simp add: json_chars_invalid sanitize_invalid)
qed

section \<open>Values\<close>

text \<open>
  A string value keeps the text between its quotes beside the bytes it denotes: an
  \<open>UnmarshalJSON\<close> method is given the text.
\<close>

datatype json =
  JNull
| JBool bool
| JNum string
| JStr string string
| JArr "json list"
| JObj "(string \<times> json) list"

definition json_space :: "char \<Rightarrow> bool" where
  "json_space c \<longleftrightarrow> c \<in> {CHR '' '', CHR 0x09, CHR 0x0A, CHR 0x0D}"

abbreviation skip_space :: "string \<Rightarrow> string" where
  "skip_space \<equiv> dropWhile json_space"

definition strip_prefix :: "string \<Rightarrow> string \<Rightarrow> string option" where
  "strip_prefix p s = (if prefix p s then Some (drop (length p) s) else None)"

text \<open>Numbers: the text of \<open>-?(0|[1-9][0-9]*)(\.[0-9]+)?([eE][+-]?[0-9]+)?\<close>.\<close>

definition some_digits :: "string \<Rightarrow> (string \<times> string) option" where
  "some_digits s =
     (let ds = takeWhile is_digit s in if ds = [] then None else Some (ds, dropWhile is_digit s))"

definition number_int :: "string \<Rightarrow> (string \<times> string) option" where
  "number_int s =
     (case s of
        [] \<Rightarrow> None
      | c # s1 \<Rightarrow> if c = CHR ''0'' then Some ([c], s1) else some_digits s)"

definition number_frac :: "string \<Rightarrow> (string \<times> string) option" where
  "number_frac s =
     (case s of
        c # s1 \<Rightarrow> if c = CHR ''.'' then prepend [c] (some_digits s1) else Some ([], s)
      | [] \<Rightarrow> Some ([], s))"

definition number_exp :: "string \<Rightarrow> (string \<times> string) option" where
  "number_exp s =
     (case s of
        c # s1 \<Rightarrow>
          if c = CHR ''e'' \<or> c = CHR ''E'' then
            (case s1 of
               x # s2 \<Rightarrow>
                 if x = CHR ''+'' \<or> x = CHR ''-'' then prepend [c, x] (some_digits s2)
                 else prepend [c] (some_digits s1)
             | [] \<Rightarrow> None)
          else Some ([], s)
      | [] \<Rightarrow> Some ([], s))"

definition json_number :: "string \<Rightarrow> (string \<times> string) option" where
  "json_number s =
     (let (sign, s0) = (case s of c # s1 \<Rightarrow> if c = CHR ''-'' then ([c], s1) else ([], s) | [] \<Rightarrow> ([], s)) in
      case number_int s0 of
        None \<Rightarrow> None
      | Some (i, s1) \<Rightarrow>
          (case number_frac s1 of
             None \<Rightarrow> None
           | Some (f, s2) \<Rightarrow> prepend (sign @ i @ f) (number_exp s2)))"

definition json_literal :: "string \<Rightarrow> (json \<times> string) option" where
  "json_literal s =
     (case strip_prefix ''true'' s of
        Some t \<Rightarrow> Some (JBool True, t)
      | None \<Rightarrow>
          (case strip_prefix ''false'' s of
             Some t \<Rightarrow> Some (JBool False, t)
           | None \<Rightarrow>
               (case strip_prefix ''null'' s of
                  Some t \<Rightarrow> Some (JNull, t)
                | None \<Rightarrow> map_option (\<lambda>(n, t). (JNum n, t)) (json_number s))))"

text \<open>A string value after its opening quote, with its text.\<close>

definition json_str :: "string \<Rightarrow> ((string \<times> string) \<times> string) option" where
  "json_str s = map_option (\<lambda>(v, t). ((take (length s - length t - 1) s, v), t)) (json_string s)"

text \<open>
  Values, the elements of an array and the members of an object. The first argument is fuel;
  \<open>2 * length s + 1\<close> is enough (\<open>parse_value_fuel\<close>). The second is the number of open arrays and
  objects, which must not exceed 10000.
\<close>

fun parse_value :: "nat \<Rightarrow> nat \<Rightarrow> string \<Rightarrow> (json \<times> string) option"
  and parse_elements :: "nat \<Rightarrow> nat \<Rightarrow> string \<Rightarrow> (json list \<times> string) option"
  and parse_members :: "nat \<Rightarrow> nat \<Rightarrow> string \<Rightarrow> ((string \<times> json) list \<times> string) option" where
  "parse_value 0 d s = None"
| "parse_value (Suc n) d s =
     (case skip_space s of
        [] \<Rightarrow> None
      | c # s1 \<Rightarrow>
          if c = CHR 0x22 then map_option (\<lambda>((raw, v), t). (JStr raw v, t)) (json_str s1)
          else if c = CHR ''['' then
            if 10000 \<le> d then None
            else if skip_space s1 \<noteq> [] \<and> hd (skip_space s1) = CHR '']''
              then Some (JArr [], tl (skip_space s1))
            else map_option (\<lambda>(es, t). (JArr es, t)) (parse_elements n (Suc d) s1)
          else if c = CHR ''{'' then
            if 10000 \<le> d then None
            else if skip_space s1 \<noteq> [] \<and> hd (skip_space s1) = CHR ''}''
              then Some (JObj [], tl (skip_space s1))
            else map_option (\<lambda>(ms, t). (JObj ms, t)) (parse_members n (Suc d) s1)
          else json_literal (c # s1))"
| "parse_elements 0 d s = None"
| "parse_elements (Suc n) d s =
     (case parse_value n d s of
        None \<Rightarrow> None
      | Some (e, s1) \<Rightarrow>
          (case skip_space s1 of
             [] \<Rightarrow> None
           | c # s2 \<Rightarrow>
               if c = CHR '','' then map_option (\<lambda>(es, t). (e # es, t)) (parse_elements n d s2)
               else if c = CHR '']'' then Some ([e], s2)
               else None))"
| "parse_members 0 d s = None"
| "parse_members (Suc n) d s =
     (case skip_space s of
        [] \<Rightarrow> None
      | c # s1 \<Rightarrow>
          if c \<noteq> CHR 0x22 then None
          else case json_string s1 of
            None \<Rightarrow> None
          | Some (key, s2) \<Rightarrow>
              (case skip_space s2 of
                 [] \<Rightarrow> None
               | c # s3 \<Rightarrow>
                   if c \<noteq> CHR '':'' then None
                   else case parse_value n d s3 of
                     None \<Rightarrow> None
                   | Some (v, s4) \<Rightarrow>
                       (case skip_space s4 of
                          [] \<Rightarrow> None
                        | c # s5 \<Rightarrow>
                            if c = CHR '','' then
                              map_option (\<lambda>(ms, t). ((key, v) # ms, t)) (parse_members n d s5)
                            else if c = CHR ''}'' then Some ([(key, v)], s5)
                            else None)))"

text \<open>
  The first value of a text, as a \<open>json.Decoder\<close> reads it, and a text that is one value, as
  \<open>json.Unmarshal\<close> wants it.
\<close>

definition json_decode :: "string \<Rightarrow> json option" where
  "json_decode s = map_option fst (parse_value (2 * length s + 1) 0 s)"

definition json_parse :: "string \<Rightarrow> json option" where
  "json_parse s =
     (case parse_value (2 * length s + 1) 0 s of
        Some (v, rest) \<Rightarrow> if skip_space rest = [] then Some v else None
      | None \<Rightarrow> None)"

section \<open>The fuel is enough\<close>

lemma skip_space_length: "skip_space s = c # t \<Longrightarrow> length t < length s"
  using length_dropWhile_le [of json_space s] by simp

lemma prepend_eq_Some: "prepend r p = Some (v, t) \<longleftrightarrow> (\<exists>w. p = Some (w, t) \<and> v = r @ w)"
  by (cases p) auto

lemma unicode_escape_rune: "unicode_escape u s = (r, t) \<Longrightarrow> is_rune r"
  by (auto simp: unicode_escape_def is_rune_encode split: list.splits option.splits if_splits)

lemma simple_escape_rune: "simple_escape e = Some v \<Longrightarrow> is_rune [v]"
  by (rule is_rune_ascii) (auto simp: simple_escape_def byte_def split: if_splits)

text \<open>A string is its first rune and the rest, or ends at once.\<close>

lemma json_string_next:
  assumes "json_string s = Some (v, t)"
  shows "v = [] \<and> length t < length s \<or>
    (\<exists>s' r w. length s' < length s \<and> json_string s' = Some (w, t) \<and> v = r @ w \<and> is_rune r)"
proof (cases s)
  case Nil
  with assms show ?thesis by (simp add: json_string.simps [of "[]"])
next
  case (Cons c s1)
  consider "c = CHR 0x22" | "c \<noteq> CHR 0x22" "c = CHR 0x5C" | "c \<noteq> CHR 0x22" "c \<noteq> CHR 0x5C" by blast
  then show ?thesis
  proof cases
    case 1
    with assms Cons show ?thesis by (simp add: json_string.simps [of "_ # _"])
  next
    case 2
    then obtain e s2 where s1: "s1 = e # s2"
      using assms Cons by (cases s1) (simp_all add: json_string.simps [of "_ # _"] byte_def)
    show ?thesis
    proof (cases "e = CHR ''u''")
      case True
      then obtain u s3 r s4 where h: "hex4 s2 = Some (u, s3)" "unicode_escape u s3 = (r, s4)"
        and j: "prepend r (json_string s4) = Some (v, t)"
        using assms Cons 2 s1
        by (auto simp: json_string.simps [of "CHR 0x5C # _"] byte_def split: option.splits prod.splits)
      have "length s4 < length s"
        using hex4_length [OF h(1)] unicode_escape_length [OF h(2)] Cons s1 by simp
      with j unicode_escape_rune [OF h(2)] show ?thesis by (auto simp: prepend_eq_Some)
    next
      case False
      then obtain x where "simple_escape e = Some x" "prepend [x] (json_string s2) = Some (v, t)"
        using assms Cons 2 s1
        by (auto simp: json_string.simps [of "CHR 0x5C # _"] byte_def split: option.splits)
      moreover have "length s2 < length s" using Cons s1 by simp
      ultimately show ?thesis using simple_escape_rune unfolding prepend_eq_Some by blast
    qed
  next
    case 3
    then obtain r s4 where j: "prepend r (json_string s4) = Some (v, t)" "length s4 < length s" "is_rune r"
      using assms Cons split_rune_length [of s] split_rune_is_rune [of s]
      by (auto simp: json_string.simps [of "_ # _"] split: option.splits if_splits)
    then show ?thesis unfolding prepend_eq_Some by blast
  qed
qed

lemma json_string_length: "json_string s = Some (v, t) \<Longrightarrow> length t < length s"
proof (induction s arbitrary: v rule: length_induct)
  case (1 s)
  with json_string_next [OF 1(2)] show ?case by (meson less_trans)
qed

text \<open>Every string that is read is valid UTF-8.\<close>

lemma json_string_valid: "json_string s = Some (v, t) \<Longrightarrow> valid_utf8 v"
proof (induction s arbitrary: v rule: length_induct)
  case (1 s)
  with json_string_next [OF 1(2)] show ?case by (auto simp: valid_rune_append)
qed

lemma some_digits_length: "some_digits s = Some (ds, t) \<Longrightarrow> length t < length s"
  by (cases s) (auto simp: some_digits_def Let_def length_dropWhile_le le_imp_less_Suc split: if_splits)

lemma number_rest_length:
  "number_frac s = Some (f, t) \<Longrightarrow> length t \<le> length s"
  "number_exp s = Some (f, t) \<Longrightarrow> length t \<le> length s"
  by (auto simp: number_frac_def number_exp_def prepend_eq_Some dest!: some_digits_length
      split: list.splits if_splits)

lemma number_int_length: "number_int s = Some (i, t) \<Longrightarrow> length t < length s"
  by (auto simp: number_int_def dest: some_digits_length split: list.splits if_splits)

lemma json_number_length:
  assumes "json_number s = Some (n, t)"
  shows "length t < length s"
proof -
  obtain sign s0 where c: "(case s of c # s1 \<Rightarrow> if c = CHR ''-'' then ([c], s1) else ([], s) | [] \<Rightarrow> ([], s)) = (sign, s0)"
    by fastforce
  then have l: "length s0 \<le> length s" by (auto split: list.splits if_splits)
  from assms c obtain i s1 f s2 e where "number_int s0 = Some (i, s1)" "number_frac s1 = Some (f, s2)"
    "number_exp s2 = Some (e, t)"
    by (auto simp: json_number_def prepend_eq_Some split: option.splits prod.splits)
  then show ?thesis using l number_int_length [of s0] number_rest_length by fastforce
qed

lemma strip_prefix_length: "strip_prefix p s = Some t \<Longrightarrow> p \<noteq> [] \<Longrightarrow> length t < length s"
  by (cases p) (auto simp: strip_prefix_def prefix_def split: if_splits)

lemma json_literal_length: "json_literal s = Some (v, t) \<Longrightarrow> length t < length s"
  by (auto simp: json_literal_def dest: strip_prefix_length json_number_length split: option.splits)

lemma parse_length:
  "parse_value n d s = Some (v, t) \<Longrightarrow> length t < length s"
  "parse_elements n d s = Some (es, t) \<Longrightarrow> length t < length s"
  "parse_members n d s = Some (ms, t) \<Longrightarrow> length t < length s"
proof (induction n d s and n d s and n d s arbitrary: v t and es t and ms t
    rule: parse_value_parse_elements_parse_members.induct)
  case (2 n d s)
  obtain c s1 where s1: "skip_space s = c # s1" using "2.prems" by (auto split: list.splits)
  have l: "length s1 < length s" by (rule skip_space_length [OF s1])
  have l2: "length (tl (skip_space s1)) \<le> length s1"
    using length_dropWhile_le [of json_space s1] by simp
  from "2.prems" s1 consider
      (str) x where "json_string s1 = Some (x, t)"
    | (empty) "t = tl (skip_space s1)"
    | (arr) es where "parse_elements n (Suc d) s1 = Some (es, t)" "c = CHR ''[''" "\<not> 10000 \<le> d"
        "\<not> (skip_space s1 \<noteq> [] \<and> hd (skip_space s1) = CHR '']'')"
    | (obj) ms where "parse_members n (Suc d) s1 = Some (ms, t)" "c = CHR ''{''" "\<not> 10000 \<le> d"
        "\<not> (skip_space s1 \<noteq> [] \<and> hd (skip_space s1) = CHR ''}'')"
    | (lit) "json_literal (c # s1) = Some (v, t)"
    by (auto simp: json_str_def split: if_splits)
  then show ?case
  proof cases
    case str
    with json_string_length [OF str] l show ?thesis by simp
  next
    case empty
    with l l2 show ?thesis by simp
  next
    case arr
    with "2.IH"(1) [OF s1] l show ?thesis by fastforce
  next
    case obj
    with "2.IH"(2) [OF s1] l show ?thesis by fastforce
  next
    case lit
    with json_literal_length [OF lit] s1 length_dropWhile_le [of json_space s] show ?thesis by simp
  qed
next
  case (4 n d s)
  then show ?case
    by (auto dest!: skip_space_length split: option.splits list.splits if_splits)
      fastforce+
next
  case (6 n d s)
  then show ?case
    by (auto dest!: skip_space_length json_string_length split: option.splits list.splits if_splits)
      fastforce+
qed simp_all

text \<open>
  With the fuel the decoders give, the parser never stops for lack of it: any two amounts above
  the bound give the same result.
\<close>

lemma parse_fuel:
  "2 * length s + 1 \<le> n \<Longrightarrow> 2 * length s + 1 \<le> m \<Longrightarrow> parse_value n d s = parse_value m d s"
  "2 * length s + 2 \<le> n \<Longrightarrow> 2 * length s + 2 \<le> m \<Longrightarrow> parse_elements n d s = parse_elements m d s"
  "2 * length s + 2 \<le> n \<Longrightarrow> 2 * length s + 2 \<le> m \<Longrightarrow> parse_members n d s = parse_members m d s"
proof (induction n d s and n d s and n d s arbitrary: m and m and m
    rule: parse_value_parse_elements_parse_members.induct)
  case (2 n d s)
  note [simp del] = dropWhile_eq_Nil_conv
  obtain m' where m: "m = Suc m'" using "2.prems"(2) by (cases m) auto
  show ?case
  proof (cases "skip_space s")
    case Nil
    then show ?thesis by (simp add: m)
  next
    case (Cons c s1)
    have l: "2 * length s1 + 2 \<le> n" "2 * length s1 + 2 \<le> m'"
      using skip_space_length [OF Cons] "2.prems" m by simp_all
    show ?thesis
      using "2.IH"(1) [OF Cons _ _ _ _ l] "2.IH"(2) [OF Cons _ _ _ _ _ l] by (simp add: m Cons)
  qed
next
  case (4 n d s)
  note [simp del] = dropWhile_eq_Nil_conv
  obtain m' where m: "m = Suc m'" using "4.prems"(2) by (cases m) auto
  have v: "parse_value n d s = parse_value m' d s" by (rule "4.IH"(1)) (use "4.prems" m in simp_all)
  show ?case
  proof (cases "parse_value n d s")
    case None
    with v show ?thesis by (simp add: m)
  next
    case (Some p)
    obtain e s1 where p: "p = (e, s1)" by (cases p)
    with Some have e: "parse_value n d s = Some (e, s1)" by simp
    show ?thesis
    proof (cases "skip_space s1")
      case Nil
      with e v show ?thesis by (simp add: m)
    next
      case (Cons c s2)
      have "length s2 < length s1" "length s1 < length s"
        using skip_space_length [OF Cons] parse_length(1) [OF e] by simp_all
      then have l: "2 * length s2 + 2 \<le> n" "2 * length s2 + 2 \<le> m'" using "4.prems" m by simp_all
      show ?thesis
        using "4.IH"(2) [OF e refl Cons _ l] e v Cons by (simp add: m)
    qed
  qed
next
  case (6 n d s)
  note [simp del] = dropWhile_eq_Nil_conv
  obtain m' where m: "m = Suc m'" using "6.prems"(2) by (cases m) auto
  show ?case
  proof (cases "skip_space s = [] \<or> hd (skip_space s) \<noteq> CHR 0x22 \<or> json_string (tl (skip_space s)) = None")
    case True
    then show ?thesis by (cases "skip_space s") (auto simp: m)
  next
    case False
    then obtain s1 key s2 where s1: "skip_space s = CHR 0x22 # s1" and k: "json_string s1 = Some (key, s2)"
      by (cases "skip_space s") auto
    show ?thesis
    proof (cases "skip_space s2 = [] \<or> hd (skip_space s2) \<noteq> CHR '':''")
      case True
      with s1 k show ?thesis by (cases "skip_space s2") (auto simp: m)
    next
      case False
      then obtain s3 where s3: "skip_space s2 = CHR '':'' # s3" by (cases "skip_space s2") auto
      have "length s3 < length s2" "length s2 < length s1" "length s1 < length s"
        using skip_space_length [OF s1] skip_space_length [OF s3] json_string_length [OF k] by simp_all
      then have l: "2 * length s3 + 2 \<le> n" "2 * length s3 + 2 \<le> m'" using "6.prems" m by simp_all
      have v: "parse_value n d s3 = parse_value m' d s3"
        using "6.IH"(1) [OF s1 _ k refl s3 _, of m'] l by simp
      show ?thesis
      proof (cases "parse_value n d s3")
        case None
        with s1 k s3 v show ?thesis by (simp add: m)
      next
        case (Some p)
        obtain e s4 where p: "p = (e, s4)" by (cases p)
        with Some have e: "parse_value n d s3 = Some (e, s4)" by simp
        show ?thesis
        proof (cases "skip_space s4")
          case Nil
          with e v s1 k s3 show ?thesis by (simp add: m)
        next
          case (Cons c s5)
          have "length s5 < length s4" "length s4 < length s3"
            using skip_space_length [OF Cons] parse_length(1) [OF e] by simp_all
          then have l5: "2 * length s5 + 2 \<le> n" "2 * length s5 + 2 \<le> m'" using l by simp_all
          show ?thesis
            using "6.IH"(2) [OF s1 _ k refl s3 _ e refl Cons _ l5] e v s1 k s3 Cons by (simp add: m)
        qed
      qed
    qed
  qed
qed simp_all

lemma parse_value_fuel:
  "2 * length s + 1 \<le> n \<Longrightarrow> parse_value n d s = parse_value (2 * length s + 1) d s"
  by (rule parse_fuel(1)) simp_all

section \<open>Writing objects\<close>

text \<open>The members of an object, with the texts of their values.\<close>

fun json_members :: "(string \<times> string) list \<Rightarrow> string" where
  "json_members [] = ''}''"
| "json_members [(k, v)] = json_quote k @ '':'' @ v @ ''}''"
| "json_members ((k, v) # m # ms) = json_quote k @ '':'' @ v @ '','' @ json_members (m # ms)"

definition json_object :: "(string \<times> string) list \<Rightarrow> string" where
  "json_object ms = CHR ''{'' # json_members ms"

section \<open>Objects that were written are read back\<close>

text \<open>
  \<open>text_of v j\<close>: the text \<open>v\<close> is read as the value \<open>j\<close> wherever the value ends after it.
\<close>

definition value_end :: "string \<Rightarrow> bool" where
  "value_end rest \<longleftrightarrow> (case rest of [] \<Rightarrow> True | c # _ \<Rightarrow> c \<in> {CHR '','', CHR ''}'', CHR '']''})"

lemma value_end_simps [simp]:
  "value_end []" "value_end (CHR '','' # s)" "value_end (CHR ''}'' # s)" "value_end (CHR '']'' # s)"
  by (simp_all add: value_end_def)

definition text_of :: "string \<Rightarrow> json \<Rightarrow> bool" where
  "text_of v j \<longleftrightarrow>
     (\<forall>n d rest. 0 < n \<longrightarrow> value_end rest \<longrightarrow> parse_value n d (v @ rest) = Some (j, rest))"

lemma skip_space_same: "\<not> json_space c \<Longrightarrow> skip_space (c # s) = c # s"
  by simp

lemma no_space [simp]: "\<not> json_space CHR 0x22" "\<not> json_space (CHR ''{'')" "\<not> json_space (CHR ''}'')"
  "\<not> json_space (CHR '':'')" "\<not> json_space (CHR '','')"
  by (simp_all add: json_space_def)

lemma json_str_chars:
  "json_str (json_chars s @ CHR 0x22 # rest) = Some ((json_chars s, sanitize s), rest)"
  by (simp add: json_str_def json_string_chars)

lemma text_of_string: "text_of (json_quote s) (JStr (json_chars s) (sanitize s))"
  unfolding text_of_def
proof (intro allI impI)
  fix n d rest
  assume "0 < (n :: nat)"
  then obtain n' where "n = Suc n'" by (cases n) auto
  then show "parse_value n d (json_quote s @ rest) = Some (JStr (json_chars s) (sanitize s), rest)"
    by (simp add: json_quote_def json_str_chars)
qed

lemma text_of_number:
  assumes "f = (if ds = [] then [] else CHR ''.'' # ds)" "list_all is_digit ds"
  shows "text_of (nat_dec k @ f) (JNum (nat_dec k @ f))"
proof -
  have ds: "\<forall>c \<in> set ds. is_digit c" using assms(2) by (simp add: list_all_iff)
  have d: "\<forall>c \<in> set (nat_dec k). is_digit c" using nat_dec_digits by (simp add: list_all_iff)
  obtain a s where k: "nat_dec k = a # s" by (cases "nat_dec k") auto
  have a: "is_digit a" using d k by simp
  have z: "s = []" if "a = CHR ''0''" using nat_dec_leading_zero [of k] that k by auto
  have "json_literal (nat_dec k @ f @ rest) = Some (JNum (nat_dec k @ f), rest)" if "value_end rest" for rest
  proof -
    have e: "takeWhile is_digit rest = []" "dropWhile is_digit rest = rest"
      "number_frac rest = Some ([], rest)" "number_exp rest = Some ([], rest)"
      using that by (auto simp: value_end_def number_frac_def number_exp_def is_digit_def split: list.splits)
    have r: "takeWhile is_digit (f @ rest) = []" "dropWhile is_digit (f @ rest) = f @ rest"
      using e assms(1) by (auto simp: is_digit_def)
    have i: "number_int (nat_dec k @ f @ rest) = Some (nat_dec k, f @ rest)"
      using a z d r k by (auto simp: number_int_def some_digits_def Let_def takeWhile_append dropWhile_append)
    have f: "number_frac (f @ rest) = Some (f, rest)"
    proof (cases "ds = []")
      case False
      with e(1,2) ds assms(1) show ?thesis
        by (simp add: number_frac_def some_digits_def Let_def takeWhile_append dropWhile_append)
    qed (use e(3) assms(1) in simp)
    have "a \<noteq> CHR ''-''" "a \<noteq> CHR ''t''" "a \<noteq> CHR ''f''" "a \<noteq> CHR ''n''" using a by (auto simp: is_digit_def)
    then show ?thesis using i f e(4)
      by (simp add: json_literal_def json_number_def k strip_prefix_def prepend_def)
  qed
  moreover have "\<not> json_space a" "a \<noteq> CHR 0x22" "a \<noteq> CHR ''[''" "a \<noteq> CHR ''{''"
    using a by (auto simp: is_digit_def json_space_def)
  ultimately show ?thesis by (auto simp: text_of_def k gr0_conv_Suc)
qed

lemma parse_members_text:
  assumes "ms \<noteq> []" "list_all (\<lambda>(k, v, j). text_of v j) ms" "length ms < n"
  shows "parse_members n d (json_members (map (\<lambda>(k, v, j). (k, v)) ms) @ rest) =
    Some (map (\<lambda>(k, v, j). (sanitize k, j)) ms, rest)"
  using assms
proof (induction ms arbitrary: n)
  case (Cons m ms)
  obtain k v j where m: "m = (k, v, j)" by (cases m)
  obtain n' where n: "n = Suc n'" "0 < n'" using Cons.prems(3) by (cases n) auto
  have v: "value_end t \<Longrightarrow> parse_value n' d (v @ t) = Some (j, t)" for t
    using Cons.prems(2) m n(2) by (simp add: text_of_def)
  show ?case
  proof (cases ms)
    case Nil
    then show ?thesis by (simp add: m n json_quote_def json_string_chars v)
  next
    case (Cons m' ms')
    obtain k' v' j' where m': "m' = (k', v', j')" by (cases m')
    have "parse_members n' d (json_members (map (\<lambda>(k, v, j). (k, v)) ms) @ rest) =
        Some (map (\<lambda>(k, v, j). (sanitize k, j)) ms, rest)"
      by (rule Cons.IH) (use Cons.prems Cons n in simp_all)
    then show ?thesis using Cons by (simp add: m m' n json_quote_def json_string_chars v)
  qed
qed simp

lemma json_members_length: "length ms < length (json_members ms)"
  by (induction ms rule: json_members.induct) (simp_all add: json_quote_def)

lemma parse_object:
  assumes "ms \<noteq> []" "list_all (\<lambda>(k, v, j). text_of v j) ms" "length ms < n" "d < 10000"
  shows "parse_value (Suc n) d (json_object (map (\<lambda>(k, v, j). (k, v)) ms) @ rest) =
    Some (JObj (map (\<lambda>(k, v, j). (sanitize k, j)) ms), rest)"
proof -
  obtain c t where t: "json_members (map (\<lambda>(k, v, j). (k, v)) ms) = c # t" "c = CHR 0x22"
    using assms(1) by (cases "map (\<lambda>(k, v, j). (k, v)) ms" rule: json_members.cases) (auto simp: json_quote_def)
  with parse_members_text [OF assms(1-3), of "Suc d" rest] assms(4) show ?thesis
    by (simp add: json_object_def)
qed

lemma json_decode_object:
  assumes "ms \<noteq> []" "list_all (\<lambda>(k, v, j). text_of v j) ms"
  shows "json_parse (json_object (map (\<lambda>(k, v, j). (k, v)) ms)) =
      Some (JObj (map (\<lambda>(k, v, j). (sanitize k, j)) ms))"
    "json_decode (json_object (map (\<lambda>(k, v, j). (k, v)) ms)) =
      Some (JObj (map (\<lambda>(k, v, j). (sanitize k, j)) ms))"
proof -
  let ?ms = "map (\<lambda>(k, v, j). (k, v)) ms"
  have "length ms < 2 * length (json_object ?ms)"
    using json_members_length [of ?ms] by (simp add: json_object_def)
  from parse_object [OF assms this, of 0 "[]"]
  show "json_parse (json_object ?ms) = Some (JObj (map (\<lambda>(k, v, j). (sanitize k, j)) ms))"
    "json_decode (json_object ?ms) = Some (JObj (map (\<lambda>(k, v, j). (sanitize k, j)) ms))"
    by (simp_all add: json_parse_def json_decode_def)
qed

section \<open>Storing an object in a struct\<close>

text \<open>
  The name a key is compared by: a field whose name is ASCII is also found under a key that
  differs in case, or has the Kelvin sign for a k or the long s for an s.
\<close>

definition lower_ascii :: "char \<Rightarrow> char" where
  "lower_ascii c = (if CHR ''A'' \<le> c \<and> c \<le> CHR ''Z'' then char_of (byte c + 32) else c)"

fun fold_key :: "string \<Rightarrow> string" where
  "fold_key [] = []"
| "fold_key (a # s) =
     (if a = CHR 0xC5 \<and> s \<noteq> [] \<and> hd s = CHR 0xBF then CHR ''s'' # fold_key (tl s)
      else if a = CHR 0xE2 \<and> take 2 s = [CHR 0x84, CHR 0xAA] then CHR ''k'' # fold_key (drop 2 s)
      else lower_ascii a # fold_key s)"

declare fold_key.simps [simp del]

text \<open>
  Each member is stored in the field of its name; members without a field are skipped, and a
  later member overwrites an earlier one. The result is \<open>None\<close> when some value had the wrong
  type.
\<close>

fun store_members :: "(string \<Rightarrow> json \<Rightarrow> 'a \<Rightarrow> 'a option) \<Rightarrow> (string \<times> json) list \<Rightarrow> 'a \<Rightarrow> 'a option" where
  "store_members store [] x = Some x"
| "store_members store ((k, j) # ms) x =
     (case store (fold_key k) j x of None \<Rightarrow> None | Some y \<Rightarrow> store_members store ms y)"

definition store_struct :: "(string \<Rightarrow> json \<Rightarrow> 'a \<Rightarrow> 'a option) \<Rightarrow> json \<Rightarrow> 'a \<Rightarrow> 'a option" where
  "store_struct store j x =
     (case j of JObj ms \<Rightarrow> store_members store ms x | JNull \<Rightarrow> Some x | _ \<Rightarrow> None)"

text \<open>A field of type \<open>string\<close>; null leaves it alone.\<close>

definition store_string :: "((string \<Rightarrow> string) \<Rightarrow> 'a \<Rightarrow> 'a) \<Rightarrow> json \<Rightarrow> 'a \<Rightarrow> 'a option" where
  "store_string upd j x =
     (case j of JStr raw v \<Rightarrow> Some (upd (\<lambda>_. v) x) | JNull \<Rightarrow> Some x | _ \<Rightarrow> None)"

lemma store_string_simps [simp]:
  "store_string upd (JStr raw v) x = Some (upd (\<lambda>_. v) x)" "store_string upd JNull x = Some x"
  by (simp_all add: store_string_def)

section \<open>What is read is valid UTF-8\<close>

definition str_valid :: "json \<Rightarrow> bool" where
  "str_valid j \<longleftrightarrow> (case j of JStr raw v \<Rightarrow> valid_utf8 v | _ \<Rightarrow> True)"

lemma str_valid_simps [simp]:
  "str_valid (JStr raw v) = valid_utf8 v" "str_valid JNull" "str_valid (JBool b)" "str_valid (JNum n)"
  "str_valid (JArr es)" "str_valid (JObj ms)"
  by (simp_all add: str_valid_def)

lemma json_literal_valid: "json_literal s = Some (v, t) \<Longrightarrow> str_valid v"
  by (auto simp: json_literal_def split: option.splits)

lemma parse_value_valid:
  assumes "parse_value n d s = Some (v, t)"
  shows "str_valid v"
proof (cases n)
  case 0
  with assms show ?thesis by simp
next
  case (Suc n')
  with assms show ?thesis
    by (auto simp: json_str_def dest: json_string_valid json_literal_valid split: list.splits if_splits)
qed

lemma parse_members_valid:
  "parse_members n d s = Some (ms, t) \<Longrightarrow> \<forall>(k, j) \<in> set ms. str_valid j"
proof (induction n arbitrary: s ms)
  case (Suc n)
  then show ?case
    by (auto split: list.splits option.splits if_splits) (fastforce dest: parse_value_valid)+
qed simp

lemma parse_object_valid:
  assumes "parse_value n d s = Some (JObj ms, t)"
  shows "\<forall>(k, j) \<in> set ms. str_valid j"
proof (cases n)
  case 0
  with assms show ?thesis by simp
next
  case (Suc n')
  have l: "json_literal u \<noteq> Some (JObj ms, t)" for u
    by (auto simp: json_literal_def split: option.splits)
  from assms Suc l have "ms = [] \<or> (\<exists>s1. parse_members n' (Suc d) s1 = Some (ms, t))"
    by (auto simp: json_str_def split: list.splits if_splits)
  then show ?thesis using parse_members_valid by force
qed

lemma json_parse_valid: "json_parse s = Some (JObj ms) \<Longrightarrow> \<forall>(k, j) \<in> set ms. str_valid j"
proof -
  assume "json_parse s = Some (JObj ms)"
  then obtain rest where "parse_value (2 * length s + 1) 0 s = Some (JObj ms, rest)"
    unfolding json_parse_def by (auto simp del: parse_value.simps split: option.splits prod.splits if_splits)
  then show ?thesis by (rule parse_object_valid)
qed

text \<open>An invariant of a struct that every field keeps.\<close>

lemma store_members_inv:
  assumes "\<And>k j x y. store k j x = Some y \<Longrightarrow> str_valid j \<Longrightarrow> I x \<Longrightarrow> I y"
  shows "store_members store ms x = Some y \<Longrightarrow> \<forall>(k, j) \<in> set ms. str_valid j \<Longrightarrow> I x \<Longrightarrow> I y"
proof (induction ms arbitrary: x)
  case (Cons m ms)
  obtain k j where m: "m = (k, j)" by (cases m)
  with Cons.prems(1) obtain z where z: "store (fold_key k) j x = Some z" "store_members store ms z = Some y"
    by (auto split: option.splits)
  have "I z" by (rule assms [OF z(1)]) (use Cons.prems m in auto)
  with Cons z(2) show ?case by auto
qed simp

end
