(* ===== verification/Go_Float.thy ===== *)
theory Go_Float
  imports Complex_Main "HOL-Library.Log_Nat"
begin

text \<open>
  float64 arithmetic. A float64 is modelled by the rational it denotes, and an operation by the
  exact result rounded to a significand of 53 bits, to nearest with ties to even
  (\<open>round_float\<close>). The values the program computes with are zero or lie between
  \<open>10 ^ -20\<close> and \<open>10 ^ 20\<close>, far from the ends of the exponent range, so no value is
  subnormal or infinite.

  Rounding is monotone and leaves representable numbers alone; these two facts carry all the
  proofs about floating point code.
\<close>

type_synonym float64 = rat

section \<open>Rounding to an integer, ties to even\<close>

definition round_even :: "rat \<Rightarrow> int" where
  "round_even q =
     (let m = \<lfloor>q\<rfloor>; f = q - of_int m in
      if f < 1 / 2 \<or> f = 1 / 2 \<and> even m then m else m + 1)"

lemma round_even_of_int [simp]: "round_even (of_int i) = i"
  by (simp add: round_even_def)

lemma round_even_mono:
  assumes "q \<le> q'"
  shows "round_even q \<le> round_even q'"
proof -
  have "\<lfloor>q\<rfloor> \<le> \<lfloor>q'\<rfloor>" using assms by (rule floor_mono)
  then consider "\<lfloor>q\<rfloor> = \<lfloor>q'\<rfloor>" | "\<lfloor>q\<rfloor> + 1 \<le> \<lfloor>q'\<rfloor>" by linarith
  then show ?thesis
  proof cases
    case 1
    with assms show ?thesis by (auto simp: round_even_def Let_def)
  next
    case 2
    then show ?thesis by (auto simp: round_even_def Let_def)
  qed
qed

section \<open>The binary exponent\<close>

definition binary_exponent :: "rat \<Rightarrow> int" where
  "binary_exponent r =
     (let (a, b) = quotient_of r; k = bitlen a - bitlen b in
      if 2 powi k \<le> r then k else k - 1)"

lemma power2_nat_powi:
  "0 < a \<Longrightarrow> 2 powi (bitlen a - 1) \<le> (of_int a :: rat) \<and> (of_int a :: rat) < 2 powi bitlen a"
proof -
  assume a: "0 < a"
  have l: "0 < bitlen a" using a bitlen_nonneg [of a] bitlen_eq_zero_iff [of a] by linarith
  have b: "2 ^ nat (bitlen a - 1) \<le> a" "a < 2 ^ nat (bitlen a)" using bitlen_bounds [OF a] by auto
  from b have "of_int (2 ^ nat (bitlen a - 1)) \<le> (of_int a :: rat)"
    "(of_int a :: rat) < of_int (2 ^ nat (bitlen a))"
    by (simp_all only: of_int_le_iff of_int_less_iff)
  then have "(2 :: rat) ^ nat (bitlen a - 1) \<le> of_int a" "(of_int a :: rat) < 2 ^ nat (bitlen a)"
    by simp_all
  with l show ?thesis by (simp add: power_int_def)
qed

lemma binary_exponent_bounds:
  assumes "0 < r"
  shows "2 powi binary_exponent r \<le> r" "r < 2 powi (binary_exponent r + 1)"
proof -
  obtain a b where q: "quotient_of r = (a, b)" by force
  have b: "0 < b" and r: "r = of_int a / of_int b"
    using q quotient_of_denom_pos quotient_of_div by blast+
  have a: "0 < a" using assms b r by (simp add: zero_less_divide_iff)
  let ?k = "bitlen a - bitlen b"
  have A: "2 powi (bitlen a - 1) \<le> (of_int a :: rat)" "(of_int a :: rat) < 2 powi bitlen a"
    using power2_nat_powi [OF a] by auto
  have B: "2 powi (bitlen b - 1) \<le> (of_int b :: rat)" "(of_int b :: rat) < 2 powi bitlen b"
    using power2_nat_powi [OF b] by auto
  have lo: "2 powi (?k - 1) \<le> r"
  proof -
    have "2 powi (?k - 1) = (2 powi (bitlen a - 1) :: rat) / 2 powi bitlen b"
      by (simp add: power_int_diff power_int_add field_simps)
    also have "\<dots> \<le> of_int a / of_int b"
      using A(1) B(2) a b by (intro frac_le) simp_all
    finally show ?thesis using r by simp
  qed
  have hi: "r < 2 powi (?k + 1)"
  proof -
    have "of_int a / of_int b < (2 powi bitlen a :: rat) / 2 powi (bitlen b - 1)"
      using A(2) B(1) b a by (intro frac_less) simp_all
    also have "\<dots> = 2 powi (?k + 1)"
      by (simp add: power_int_diff power_int_add field_simps)
    finally show ?thesis using r by simp
  qed
  show "2 powi binary_exponent r \<le> r" "r < 2 powi (binary_exponent r + 1)"
    using lo hi by (auto simp: binary_exponent_def q Let_def)
qed

lemma powi2_le: "k \<le> l \<Longrightarrow> (2 :: rat) powi k \<le> 2 powi l"
  by (rule power_int_increasing) simp_all

lemma powi2_less: "(2 :: rat) powi k < 2 powi l \<Longrightarrow> k < l"
  using powi2_le [of l k] by (cases "k < l") simp_all

lemma binary_exponent_mono:
  assumes "0 < r" "r \<le> s"
  shows "binary_exponent r \<le> binary_exponent s"
proof -
  have "(2 :: rat) powi binary_exponent r < 2 powi (binary_exponent s + 1)"
    using binary_exponent_bounds(1) [of r] binary_exponent_bounds(2) [of s] assms by linarith
  then have "binary_exponent r < binary_exponent s + 1" by (rule powi2_less)
  then show ?thesis by simp
qed

section \<open>Rounding to a float64\<close>

definition round_float :: "rat \<Rightarrow> float64" where
  "round_float r =
     (if r \<le> 0 then 0
      else let e = binary_exponent r - 52 in of_int (round_even (r / 2 powi e)) * 2 powi e)"

text \<open>Multiplication, division, and conversion from and to a non-negative integer.\<close>

definition float_mult :: "float64 \<Rightarrow> float64 \<Rightarrow> float64" where
  "float_mult x y = round_float (x * y)"

definition float_div :: "float64 \<Rightarrow> float64 \<Rightarrow> float64" where
  "float_div x y = round_float (x / y)"

definition float_of_nat :: "nat \<Rightarrow> float64" where
  "float_of_nat n = round_float (of_nat n)"

definition nat_of_float :: "float64 \<Rightarrow> nat" where
  "nat_of_float x = nat \<lfloor>x\<rfloor>"

lemma round_float_bounds:
  assumes "0 < r"
  shows "2 powi binary_exponent r \<le> round_float r" "round_float r \<le> 2 powi (binary_exponent r + 1)"
proof -
  let ?e = "binary_exponent r - 52"
  have p: "(0 :: rat) < 2 powi ?e" by simp
  have c: "(2 :: rat) powi binary_exponent r = of_int (2 ^ 52) * 2 powi ?e"
    "(2 :: rat) powi (binary_exponent r + 1) = of_int (2 ^ 53) * 2 powi ?e"
    by (simp_all add: power_int_diff power_int_add)
  have "of_int (2 ^ 52) \<le> r / 2 powi ?e" "r / 2 powi ?e \<le> of_int (2 ^ 53)"
    using binary_exponent_bounds [OF assms] p unfolding c
    by (simp_all add: pos_le_divide_eq pos_divide_le_eq)
  then have "round_even (of_int (2 ^ 52)) \<le> round_even (r / 2 powi ?e)"
    "round_even (r / 2 powi ?e) \<le> round_even (of_int (2 ^ 53))"
    by (auto intro: round_even_mono)
  then have "(2 :: int) ^ 52 \<le> round_even (r / 2 powi ?e)" "round_even (r / 2 powi ?e) \<le> 2 ^ 53"
    by (simp_all only: round_even_of_int)
  then have "of_int (2 ^ 52) \<le> (of_int (round_even (r / 2 powi ?e)) :: rat)"
    "(of_int (round_even (r / 2 powi ?e)) :: rat) \<le> of_int (2 ^ 53)"
    by (simp_all only: of_int_le_iff)
  with assms p show "2 powi binary_exponent r \<le> round_float r"
    "round_float r \<le> 2 powi (binary_exponent r + 1)"
    unfolding c by (simp_all add: round_float_def Let_def mult_right_mono)
qed

lemma round_float_nonneg: "0 \<le> round_float r"
proof (cases "0 < r")
  case True
  have "(0 :: rat) < 2 powi binary_exponent r" by simp
  with round_float_bounds(1) [OF True] show ?thesis by linarith
next
  case False
  then show ?thesis by (simp add: round_float_def)
qed

lemma round_float_mono:
  assumes "r \<le> s"
  shows "round_float r \<le> round_float s"
proof (cases "0 < r")
  case r: True
  with assms have s: "0 < s" by linarith
  have "binary_exponent r \<le> binary_exponent s" using r assms by (rule binary_exponent_mono)
  then consider "binary_exponent r = binary_exponent s" | "binary_exponent r + 1 \<le> binary_exponent s"
    by linarith
  then show ?thesis
  proof cases
    case 1
    have "round_even (r / 2 powi (binary_exponent s - 52)) \<le> round_even (s / 2 powi (binary_exponent s - 52))"
      by (intro round_even_mono divide_right_mono assms) simp
    with 1 r s show ?thesis by (simp add: round_float_def Let_def mult_right_mono)
  next
    case 2
    then have "(2 :: rat) powi (binary_exponent r + 1) \<le> 2 powi binary_exponent s" by (rule powi2_le)
    with round_float_bounds(2) [OF r] round_float_bounds(1) [OF s] show ?thesis by linarith
  qed
next
  case False
  then show ?thesis using round_float_nonneg [of s] by (simp add: round_float_def)
qed

text \<open>A number with a significand of at most 53 bits is its own rounding.\<close>

lemma round_float_exact:
  assumes "0 \<le> m" "m < 2 ^ 53"
  shows "round_float (of_int m * 2 powi e) = of_int m * 2 powi e"
proof (cases "m = 0")
  case True
  then show ?thesis by (simp add: round_float_def)
next
  case False
  let ?r = "of_int m * 2 powi e :: rat"
  have r: "0 < ?r" using assms False by simp
  have "(of_int m :: rat) < of_int (2 ^ 53)" using assms(2) by (simp only: of_int_less_iff)
  then have "?r < 2 powi (e + 53)" by (simp add: power_int_add)
  then have "(2 :: rat) powi binary_exponent ?r < 2 powi (e + 53)"
    using binary_exponent_bounds(1) [OF r] by linarith
  then have k: "binary_exponent ?r < e + 53" by (rule powi2_less)
  define j where "j = nat (e + 52 - binary_exponent ?r)"
  define x where "x = binary_exponent ?r - 52"
  have e: "e = x + int j" using k by (simp add: j_def x_def)
  have pe: "2 powi e = (2 powi x * 2 ^ j :: rat)" by (subst e) (simp add: power_int_add)
  then have "?r / 2 powi x = of_int m * 2 ^ j" by simp
  then have "?r / 2 powi (binary_exponent ?r - 52) = of_int m * 2 ^ j" by (simp only: x_def)
  also have "\<dots> = of_int (m * 2 ^ j)" by simp
  finally have q: "?r / 2 powi (binary_exponent ?r - 52) = of_int (m * 2 ^ j)" .
  have "round_float ?r = of_int (m * 2 ^ j) * 2 powi (binary_exponent ?r - 52)"
    using r by (simp only: round_float_def Let_def q round_even_of_int not_le [symmetric] if_False)
  also have "\<dots> = ?r" by (simp only: x_def [symmetric]) (simp add: pe)
  finally show ?thesis .
qed

lemma round_float_int: "n < 2 ^ 53 \<Longrightarrow> round_float (of_nat n) = of_nat n"
proof -
  assume "n < 2 ^ 53"
  then have "int n < 2 ^ 53" by simp
  with round_float_exact [of "int n" 0] show ?thesis by simp
qed

lemmas float_exact = float_of_nat_def float_mult_def float_div_def round_float_int

lemma nat_of_float_of_nat [simp]: "nat_of_float (of_nat n) = n"
  by (simp add: nat_of_float_def)

lemma round_float_examples:
  "round_float (1 / 10) = 3602879701896397 / 36028797018963968"
  "round_float (2 ^ 53 + 1) = 2 ^ 53"
  by code_simp+

end
