(* ===== verification/Go_Duration.thy ===== *)
theory Go_Duration
  imports Go_Time Go_Float
begin

text \<open>
  \<open>time.ParseDuration\<close> of the standard library: an optional sign and one or more decimal
  numbers with an optional fraction and a unit, such as \<open>1h30m0s\<close> or \<open>2.5ms\<close>. The fraction
  is scaled with float64 arithmetic. Parsing inverts \<open>Duration.String\<close>.
\<close>

section \<open>Numbers\<close>

text \<open>
  The integer part; \<open>None\<close> is an overflow. With \<open>x \<le> 2 ^ 63 div 10\<close> the next value is below
  \<open>2 ^ 64\<close>, so the unsigned arithmetic of the source does not wrap around.
\<close>

fun leadingInt :: "nat \<Rightarrow> string \<Rightarrow> (nat \<times> string) option" where
  "leadingInt x [] = Some (x, [])"
| "leadingInt x (c # cs) =
     (if \<not> is_digit c then Some (x, c # cs)
      else if 2 ^ 63 div 10 < x then None
      else let y = x * 10 + digit_val c in if 2 ^ 63 < y then None else leadingInt y cs)"

text \<open>The digits after the point. Digits beyond the range of the value are skipped.\<close>

fun leadingFraction :: "nat \<Rightarrow> float64 \<Rightarrow> bool \<Rightarrow> string \<Rightarrow> nat \<times> float64 \<times> string" where
  "leadingFraction x scale overflow [] = (x, scale, [])"
| "leadingFraction x scale overflow (c # cs) =
     (if \<not> is_digit c then (x, scale, c # cs)
      else if overflow then leadingFraction x scale True cs
      else if (2 ^ 63 - 1) div 10 < x then leadingFraction x scale True cs
      else let y = x * 10 + digit_val c in
        if 2 ^ 63 < y then leadingFraction x scale True cs
        else leadingFraction y (float_mult scale 10) False cs)"

lemma leadingInt_length: "leadingInt x s = Some (y, rest) \<Longrightarrow> length rest \<le> length s"
  by (induction x s rule: leadingInt.induct) (auto simp: Let_def split: if_splits)

lemma leadingFraction_length:
  "leadingFraction x sc ov s = (y, sc', rest) \<Longrightarrow> length rest \<le> length s"
  by (induction x sc ov s rule: leadingFraction.induct) (auto simp: Let_def split: if_splits)

section \<open>Units\<close>

definition unitMap :: "string \<Rightarrow> nat option" where
  "unitMap u =
     (if u = ''ns'' then Some 1
      else if u = ''us'' \<or> u = [CHR 0xC2, CHR 0xB5, CHR ''s''] \<or> u = [CHR 0xCE, CHR 0xBC, CHR ''s'']
        then Some (10 ^ 3)
      else if u = ''ms'' then Some (10 ^ 6)
      else if u = ''s'' then Some (10 ^ 9)
      else if u = ''m'' then Some (60 * 10 ^ 9)
      else if u = ''h'' then Some (3600 * 10 ^ 9)
      else None)"

definition unit_char :: "char \<Rightarrow> bool" where
  "unit_char c \<longleftrightarrow> c \<noteq> CHR ''.'' \<and> \<not> is_digit c"

section \<open>One number with its unit\<close>

text \<open>
  The body of the loop: the nanoseconds of the first number of a text and the text after its
  unit; \<open>None\<close> is an error.
\<close>

definition optional_fraction :: "string \<Rightarrow> nat \<times> float64 \<times> string \<times> bool" where
  "optional_fraction s =
     (case s of
        [] \<Rightarrow> (0, 1, [], False)
      | c # cs \<Rightarrow>
          if c = CHR ''.'' then
            (case leadingFraction 0 1 False cs of
               (f, scale, rest) \<Rightarrow> (f, scale, rest, length rest \<noteq> length cs))
          else (0, 1, s, False))"

definition scaled_fraction :: "nat \<Rightarrow> nat \<Rightarrow> float64 \<Rightarrow> nat" where
  "scaled_fraction f un scale =
     nat_of_float (float_mult (float_of_nat f) (float_div (float_of_nat un) scale))"

definition duration_part :: "string \<Rightarrow> (nat \<times> string) option" where
  "duration_part s =
     (if s = [] \<or> \<not> (hd s = CHR ''.'' \<or> is_digit (hd s)) then None
      else case leadingInt 0 s of
        None \<Rightarrow> None
      | Some (v, s1) \<Rightarrow>
          let pre = length s1 \<noteq> length s in
          case optional_fraction s1 of
            (f, scale, s2, post) \<Rightarrow>
              if \<not> pre \<and> \<not> post then None
              else
                let u = takeWhile unit_char s2; rest = dropWhile unit_char s2 in
                if u = [] then None
                else case unitMap u of
                  None \<Rightarrow> None
                | Some un \<Rightarrow>
                    if 2 ^ 63 div un < v then None
                    else
                      let v' = v * un in
                      if 0 < f then
                        let v'' = v' + scaled_fraction f un scale in
                        if 2 ^ 63 < v'' then None else Some (v'', rest)
                      else Some (v', rest))"

lemma optional_fraction_length:
  "optional_fraction s = (f, scale, rest, post) \<Longrightarrow> length rest \<le> length s"
  by (auto simp: optional_fraction_def dest: leadingFraction_length
      split: list.splits if_splits prod.splits)

lemma duration_part_length:
  assumes "duration_part s = Some (v, rest)"
  shows "length rest < length s"
proof -
  obtain w s1 f scale s2 post where s1: "leadingInt 0 s = Some (w, s1)"
    and s2: "optional_fraction s1 = (f, scale, s2, post)"
    and u: "takeWhile unit_char s2 \<noteq> []" and rest: "rest = dropWhile unit_char s2"
    using assms
    by (auto simp: duration_part_def Let_def split: if_splits option.splits prod.splits)
  have "length (takeWhile unit_char s2 @ dropWhile unit_char s2) \<le> length s"
    using leadingInt_length [OF s1] optional_fraction_length [OF s2] by simp
  with u show ?thesis unfolding rest length_append by (cases "takeWhile unit_char s2") auto
qed

section \<open>ParseDuration\<close>

text \<open>
  The sum of the parts. It is an unsigned 64-bit addition: with \<open>2 ^ 63\<close> on both sides it wraps
  around to zero.
\<close>

function parse_parts :: "nat \<Rightarrow> string \<Rightarrow> nat option" where
  "parse_parts d s =
     (if s = [] then Some d
      else case duration_part s of
        None \<Rightarrow> None
      | Some (v, rest) \<Rightarrow>
          let d' = (d + v) mod 2 ^ 64 in if 2 ^ 63 < d' then None else parse_parts d' rest)"
  by pat_completeness auto
termination by (relation "measure (\<lambda>(d, s). length s)") (auto simp: duration_part_length)

declare parse_parts.simps [simp del]

definition split_sign :: "string \<Rightarrow> bool \<times> string" where
  "split_sign s =
     (case s of
        [] \<Rightarrow> (False, [])
      | c # cs \<Rightarrow>
          if c = CHR ''-'' then (True, cs) else if c = CHR ''+'' then (False, cs) else (False, s))"

definition ParseDuration :: "string \<Rightarrow> duration option" where
  "ParseDuration orig =
     (case split_sign orig of
        (neg, s) \<Rightarrow>
          if s = ''0'' then Some 0
          else if s = [] then None
          else case parse_parts 0 s of
            None \<Rightarrow> None
          | Some d \<Rightarrow>
              if neg then Some (- of_nat d)
              else if 2 ^ 63 - 1 < d then None
              else Some (of_nat d))"

section \<open>Parsing what is printed\<close>

lemma dec_val_mono: "x \<le> dec_val x ds"
proof (induction ds arbitrary: x)
  case (Cons c ds)
  have "x \<le> x * 10 + digit_val c" by simp
  also have "\<dots> \<le> dec_val (x * 10 + digit_val c) ds" by (rule Cons.IH)
  finally show ?case by simp
qed simp

definition no_digit :: "string \<Rightarrow> bool" where
  "no_digit s \<longleftrightarrow> s = [] \<or> \<not> is_digit (hd s)"

lemma leadingInt_digits:
  assumes "list_all is_digit ds" "dec_val x ds \<le> 2 ^ 63" "no_digit rest"
  shows "leadingInt x (ds @ rest) = Some (dec_val x ds, rest)"
  using assms
proof (induction ds arbitrary: x)
  case Nil
  then show ?case by (cases rest) (auto simp: no_digit_def)
next
  case (Cons c ds)
  have "x * 10 + digit_val c \<le> 2 ^ 63"
    using dec_val_mono [of "x * 10 + digit_val c" ds] Cons.prems(2) by simp
  with Cons show ?case by simp
qed

lemma leadingFraction_digits:
  assumes "list_all is_digit ds" "dec_val x ds < 10 ^ 15" "k + length ds \<le> 15" "no_digit rest"
  shows "leadingFraction x (of_nat (10 ^ k)) False (ds @ rest) =
    (dec_val x ds, of_nat (10 ^ (k + length ds)), rest)"
  using assms
proof (induction ds arbitrary: x k)
  case Nil
  then show ?case by (cases rest) (auto simp: no_digit_def)
next
  case (Cons c ds)
  have y: "x * 10 + digit_val c < 10 ^ 15"
    using dec_val_mono [of "x * 10 + digit_val c" ds] Cons.prems(2) by simp
  have "(10 :: nat) ^ Suc k \<le> 10 ^ 15" using Cons.prems(3) by (intro power_increasing) simp_all
  then have "(10 :: nat) ^ Suc k < 2 ^ 53" by simp
  then have "float_mult (of_nat (10 ^ k)) 10 = of_nat (10 ^ Suc k)"
    using round_float_int [of "10 ^ Suc k"] by (simp add: float_mult_def mult.commute)
  then have "leadingFraction x (of_nat (10 ^ k)) False ((c # ds) @ rest) =
    leadingFraction (x * 10 + digit_val c) (of_nat (10 ^ Suc k)) False (ds @ rest)"
    using Cons.prems y by simp
  with Cons.IH [of "x * 10 + digit_val c" "Suc k"] Cons.prems show ?case by simp
qed

text \<open>The digits that \<open>fmtFrac\<close> prints.\<close>

lemma pad_digits_digits: "list_all is_digit (pad_digits k n)"
  by (induction k arbitrary: n) (simp_all add: digit_char_digit)

lemma pad_digits_length [simp]: "length (pad_digits k n) = k"
  by (induction k arbitrary: n) simp_all

lemma dec_val_pad_digits: "dec_val 0 (pad_digits k n) = n mod 10 ^ k"
proof (induction k arbitrary: n)
  case (Suc k)
  have "n mod (10 * 10 ^ k) = 10 * (n div 10 mod 10 ^ k) + n mod 10" by (rule mod_mult2_eq)
  with Suc show ?case by (simp add: dec_val_append digit_val_char mult.commute)
qed simp

lemma dec_val_zeros: "dec_val x (replicate k (CHR ''0'')) = x * 10 ^ k"
  by (induction k arbitrary: x) (simp_all add: digit_val_def)

lemma drop_trailing_zeros_append:
  "\<exists>k. s = drop_trailing_zeros s @ replicate k (CHR ''0'')"
proof -
  let ?z = "takeWhile (\<lambda>c. c = CHR ''0'') (rev s)"
  have "s = drop_trailing_zeros s @ rev ?z"
    by (simp add: drop_trailing_zeros_def flip: rev_append)
  moreover have "?z = replicate (length ?z) (CHR ''0'')"
    by (intro replicate_eqI) (auto dest: set_takeWhileD)
  ultimately show ?thesis by (metis rev_replicate)
qed

lemma fmtFrac_digits:
  obtains ds j where "fmtFrac u k = (if ds = [] then [] else CHR ''.'' # ds)"
    "list_all is_digit ds" "length ds + j = k" "dec_val 0 ds * 10 ^ j = u mod 10 ^ k"
proof -
  define ds where "ds = drop_trailing_zeros (pad_digits k (u mod 10 ^ k))"
  obtain j where j: "pad_digits k (u mod 10 ^ k) = ds @ replicate j (CHR ''0'')"
    using drop_trailing_zeros_append unfolding ds_def by blast
  have "list_all is_digit (ds @ replicate j (CHR ''0''))" "length (ds @ replicate j (CHR ''0'')) = k"
    "dec_val 0 (ds @ replicate j (CHR ''0'')) = u mod 10 ^ k"
    unfolding j [symmetric] by (simp_all add: pad_digits_digits dec_val_pad_digits)
  then show thesis
    using that [of ds j] by (simp add: ds_def fmtFrac_def Let_def dec_val_append dec_val_zeros)
qed

text \<open>
  The float64 computation is exact for every fraction that is printed: nine digits of seconds
  at most.
\<close>

lemma power10_less: "k \<le> 15 \<Longrightarrow> (10 :: nat) ^ k < 2 ^ 53"
proof -
  assume "k \<le> 15"
  then have "(10 :: nat) ^ k \<le> 10 ^ 15" by (intro power_increasing) simp_all
  then show ?thesis by simp
qed

lemma scaled_fraction_exact:
  assumes "m + j \<le> 15" "f * 10 ^ j < 10 ^ 15"
  shows "scaled_fraction f (10 ^ (m + j)) (of_nat (10 ^ m)) = f * 10 ^ j"
proof -
  have b2: "f * 10 ^ j < 2 ^ 53" using assms(2) by simp
  have "f * 1 \<le> f * 10 ^ j" by (rule mult_le_mono2) simp
  then have b1: "f < 2 ^ 53" using b2 by (metis le_less_trans mult_1_right)
  have p: "(10 :: nat) ^ (m + j) < 2 ^ 53" "(10 :: nat) ^ j < 2 ^ 53"
    by (rule power10_less, use assms(1) in simp)+
  have "float_div (float_of_nat (10 ^ (m + j))) (of_nat (10 ^ m)) = of_nat (10 ^ j)"
    using round_float_int [OF p(1)] round_float_int [OF p(2)]
    by (simp add: float_div_def float_of_nat_def power_add)
  then have "float_mult (float_of_nat f) (float_div (float_of_nat (10 ^ (m + j))) (of_nat (10 ^ m)))
      = of_nat (f * 10 ^ j)"
    using round_float_int [OF b1] round_float_int [OF b2]
    by (simp add: float_mult_def float_of_nat_def)
  then show ?thesis by (simp only: scaled_fraction_def nat_of_float_of_nat)
qed

definition unit_text :: "string \<Rightarrow> bool" where
  "unit_text un \<longleftrightarrow> un \<noteq> [] \<and> list_all unit_char un"

definition part_end :: "string \<Rightarrow> bool" where
  "part_end rest \<longleftrightarrow> rest = [] \<or> \<not> unit_char (hd rest)"

lemma take_unit:
  assumes "unit_text un" "part_end rest"
  shows "takeWhile unit_char (un @ rest) = un" "dropWhile unit_char (un @ rest) = rest"
proof -
  have un: "\<forall>c \<in> set un. unit_char c" using assms(1) by (simp add: unit_text_def list_all_iff)
  have "takeWhile unit_char rest = []" "dropWhile unit_char rest = rest"
    using assms(2) by (cases rest; auto simp: part_end_def)+
  with un show "takeWhile unit_char (un @ rest) = un" "dropWhile unit_char (un @ rest) = rest"
    by (simp_all add: takeWhile_append2 dropWhile_append2)
qed

lemma unit_text_no_digit:
  "unit_text un \<Longrightarrow> no_digit (un @ rest)"
  "unit_text un \<Longrightarrow> optional_fraction (un @ rest) = (0, 1, un @ rest, False)"
  by (cases un; auto simp: unit_text_def unit_char_def no_digit_def optional_fraction_def)+

lemma nat_dec_0: "nat_dec 0 = ''0''"
  by (simp add: nat_dec.simps [of 0] digit_char_def char_of_def bit_Suc_0_iff)

lemma nat_dec_hd: "is_digit (hd (nat_dec n))"
  using nat_dec_digits [of n] by (cases "nat_dec n") (simp_all add: nat_dec_nonempty [symmetric])

lemma duration_part_int:
  assumes "unitMap un = Some w" "unit_text un" "n * w \<le> 2 ^ 63" "0 < w" "part_end rest"
  shows "duration_part (nat_dec n @ un @ rest) = Some (n * w, rest)"
proof -
  have "n * 1 \<le> n * w" using assms(4) by (intro mult_le_mono2) simp
  then have n: "n \<le> 2 ^ 63" using assms(3) by linarith
  then have l: "leadingInt 0 (nat_dec n @ un @ rest) = Some (n, un @ rest)"
    using leadingInt_digits [OF nat_dec_digits, of 0 n "un @ rest"] unit_text_no_digit(1) [OF assms(2)]
    by (simp add: dec_val_nat_dec)
  have "\<not> 2 ^ 63 div w < n"
    using assms(3,4) by (simp add: not_less less_eq_div_iff_mult_less_eq)
  then show ?thesis
    using l assms nat_dec_hd [of n] unit_text_no_digit(2) [OF assms(2), of rest]
    by (simp add: duration_part_def take_unit [OF assms(2,5)] unit_text_def)
qed

lemma duration_part_frac:
  assumes "unitMap un = Some (10 ^ k)" "unit_text un" "k \<le> 9"
    and "n * 10 ^ k + u mod 10 ^ k \<le> 2 ^ 63" "part_end rest"
  shows "duration_part (nat_dec n @ fmtFrac u k @ un @ rest) = Some (n * 10 ^ k + u mod 10 ^ k, rest)"
proof -
  obtain ds j where ds: "fmtFrac u k = (if ds = [] then [] else CHR ''.'' # ds)"
    "list_all is_digit ds" "length ds + j = k" "dec_val 0 ds * 10 ^ j = u mod 10 ^ k"
    by (rule fmtFrac_digits)
  show ?thesis
  proof (cases "ds = []")
    case True
    with ds(4) have "u mod 10 ^ k = 0" by simp
    with True ds(1) show ?thesis
      using duration_part_int [OF assms(1,2) _ _ assms(5), of n] assms(4) by simp
  next
    case False
    have "n * 1 \<le> n * 10 ^ k" by (intro mult_le_mono2) simp
    then have n: "n \<le> 2 ^ 63" "n * 10 ^ k \<le> 2 ^ 63" using assms(4) by linarith+
    have dot: "no_digit (CHR ''.'' # ds @ un @ rest)" by (simp add: no_digit_def is_digit_def)
    have l: "leadingInt 0 (nat_dec n @ fmtFrac u k @ un @ rest) = Some (n, fmtFrac u k @ un @ rest)"
      using leadingInt_digits [OF nat_dec_digits, of 0 n] n(1) dot False ds(1)
      by (simp add: dec_val_nat_dec)
    have u: "u mod 10 ^ k < 10 ^ 15"
      using assms(3) by (intro less_le_trans [OF mod_less_divisor power_increasing]) simp_all
    have "dec_val 0 ds * 1 \<le> dec_val 0 ds * 10 ^ j" by (intro mult_le_mono2) simp
    then have f: "dec_val 0 ds < 10 ^ 15" using u ds(4) by linarith
    have "leadingFraction 0 1 False (ds @ un @ rest) = (dec_val 0 ds, of_nat (10 ^ length ds), un @ rest)"
      using leadingFraction_digits [OF ds(2) f, of 0 "un @ rest"] ds(3) assms(3)
        unit_text_no_digit(1) [OF assms(2)] by simp
    then have o: "optional_fraction (fmtFrac u k @ un @ rest) =
      (dec_val 0 ds, of_nat (10 ^ length ds), un @ rest, True)"
      using False ds(1) by (simp add: optional_fraction_def)
    have s: "scaled_fraction (dec_val 0 ds) (10 ^ k) (of_nat (10 ^ length ds)) = u mod 10 ^ k"
      using scaled_fraction_exact [of "length ds" j "dec_val 0 ds"] ds(3,4) assms(3) u by simp
    have "\<not> 2 ^ 63 div 10 ^ k < n"
      using n(2) by (simp add: not_less less_eq_div_iff_mult_less_eq)
    moreover have "dec_val 0 ds = 0 \<Longrightarrow> u mod 10 ^ k = 0" using ds(4) by simp
    ultimately show ?thesis
      using l o s assms(1,2,4) nat_dec_hd [of n]
      by (cases "dec_val 0 ds = 0")
        (simp_all add: duration_part_def take_unit [OF assms(2,5)] unit_text_def Let_def del: of_nat_power)
  qed
qed

lemma unit_texts [simp]:
  "unit_text ''ns''" "unit_text [CHR 0xC2, CHR 0xB5, CHR ''s'']" "unit_text ''ms''" "unit_text ''s''"
  "unit_text ''m''" "unit_text ''h''"
  by (simp_all add: unit_text_def unit_char_def is_digit_def)

lemma unitMap_values [simp]:
  "unitMap ''ns'' = Some 1" "unitMap [CHR 0xC2, CHR 0xB5, CHR ''s''] = Some (10 ^ 3)"
  "unitMap ''ms'' = Some (10 ^ 6)" "unitMap ''s'' = Some (10 ^ 9)"
  "unitMap ''m'' = Some 60000000000" "unitMap ''h'' = Some 3600000000000"
  by (simp_all add: unitMap_def)

lemma part_end_nat_dec [simp]: "part_end (nat_dec n @ rest)" "part_end []"
  using nat_dec_hd [of n] by (simp_all add: part_end_def unit_char_def)

lemma parse_parts_step:
  assumes "duration_part s = Some (v, rest)" "d + v \<le> 2 ^ 63"
  shows "parse_parts d s = parse_parts (d + v) rest"
  using assms by (subst parse_parts.simps) (auto simp: duration_part_def)

lemma parse_parts_Nil: "parse_parts d [] = Some d"
  by (subst parse_parts.simps) simp

text \<open>The text of a number of seconds below a minute, and of minutes and hours before it.\<close>

lemma parse_seconds:
  assumes "d + (n * 10 ^ 9 + u mod 10 ^ 9) \<le> 2 ^ 63"
  shows "parse_parts d (nat_dec n @ fmtFrac u 9 @ ''s'') = Some (d + (n * 10 ^ 9 + u mod 10 ^ 9))"
  using duration_part_frac [of "''s''" 9 n u "[]"] assms
  by (simp add: parse_parts_step [of _ "n * 10 ^ 9 + u mod 10 ^ 9" "[]"] parse_parts_Nil)

lemma parse_unit:
  assumes "unitMap un = Some w" "unit_text un" "0 < w" "d + n * w \<le> 2 ^ 63" "part_end rest"
  shows "parse_parts d (nat_dec n @ un @ rest) = parse_parts (d + n * w) rest"
  using duration_part_int [OF assms(1,2) _ assms(3,5), of n] assms(4)
  by (intro parse_parts_step) simp_all

lemma sixty_split:
  "u = u div 1000000000 div 60 div 60 * 3600000000000 + u div 1000000000 div 60 mod 60 * 60000000000
     + (u div 1000000000 mod 60 * 1000000000 + u mod 1000000000)" for u :: nat
proof -
  define a where "a = u div 1000000000"
  define b where "b = a div 60"
  have "u = a * 1000000000 + u mod 1000000000" "a = b * 60 + a mod 60" "b = b div 60 * 60 + b mod 60"
    by (simp_all add: a_def b_def)
  then show ?thesis unfolding a_def [symmetric] b_def [symmetric] by linarith
qed

lemma parse_duration_text:
  assumes "u \<le> 2 ^ 63"
  shows "parse_parts 0 (duration_text u) = Some u"
proof -
  consider "u = 0" | "0 < u" "u < 1000" | "1000 \<le> u" "u < 1000000" | "1000000 \<le> u" "u < 1000000000"
    | "1000000000 \<le> u" by linarith
  then show ?thesis
  proof cases
    case 1
    then show ?thesis
      using parse_unit [of "''s''" "10 ^ 9" 0 0 "[]"]
      by (simp add: duration_text_def parse_parts_Nil nat_dec_0)
  next
    case 2
    then show ?thesis
      using parse_unit [of "''ns''" 1 0 u "[]"] assms by (simp add: duration_text_def parse_parts_Nil)
  next
    case 3
    then show ?thesis
      using duration_part_frac [of "[CHR 0xC2, CHR 0xB5, CHR ''s'']" 3 "u div 1000" u "[]"] assms
      by (simp add: duration_text_def parse_parts_step [of _ u "[]"] parse_parts_Nil)
  next
    case 4
    then show ?thesis
      using duration_part_frac [of "''ms''" 6 "u div 1000000" u "[]"] assms
      by (simp add: duration_text_def parse_parts_step [of _ u "[]"] parse_parts_Nil)
  next
    case 5
    define h m s f where hmsf: "h = u div 1000000000 div 60 div 60"
      "m = u div 1000000000 div 60 mod 60" "s = u div 1000000000 mod 60" "f = u mod 1000000000"
    have u: "u = h * 3600000000000 + m * 60000000000 + (s * 1000000000 + f)"
      using sixty_split [of u] by (simp add: hmsf)
    have b: "h * 3600000000000 \<le> 2 ^ 63" "h * 3600000000000 + m * 60000000000 \<le> 2 ^ 63"
      using u assms by linarith+
    let ?s = "nat_dec s @ fmtFrac u 9 @ ''s''"
    have um: "u mod 10 ^ 9 = f" by (simp add: hmsf)
    have sec: "parse_parts (h * 3600000000000 + m * 60000000000) ?s = Some u"
      using parse_seconds [of "h * 3600000000000 + m * 60000000000" s u] assms um u [symmetric] by simp
    have mins: "parse_parts (h * 3600000000000) (nat_dec m @ ''m'' @ ?s) = Some u"
      using parse_unit [of "''m''" 60000000000 "h * 3600000000000" m ?s] b sec by simp
    have hour: "parse_parts 0 (nat_dec h @ ''h'' @ nat_dec m @ ''m'' @ ?s) = Some u"
      using parse_unit [of "''h''" 3600000000000 0 h "nat_dec m @ ''m'' @ ?s"] b mins by simp
    have "duration_text u =
      (if u div 1000000000 div 60 = 0 then ?s else if h = 0 then nat_dec m @ ''m'' @ ?s
       else nat_dec h @ ''h'' @ nat_dec m @ ''m'' @ ?s)"
      using 5 by (simp add: duration_text_def hmsf Let_def)
    moreover have "u div 1000000000 div 60 = 0 \<Longrightarrow> h = 0 \<and> m = 0" by (simp add: hmsf)
    ultimately show ?thesis using sec mins hour by auto
  qed
qed

lemma duration_text_start:
  "duration_text u \<noteq> []" "is_digit (hd (duration_text u))" "duration_text u \<noteq> ''0''"
proof -
  have h: "\<exists>n rest. duration_text u = nat_dec n @ rest \<and> rest \<noteq> []"
  proof (cases "u = 0")
    case True
    then have "duration_text u = nat_dec 0 @ ''s''"
      by (simp add: duration_text_def nat_dec_0)
    then show ?thesis by blast
  next
    case False
    then show ?thesis by (auto simp: duration_text_def Let_def)
  qed
  then obtain n rest where t: "duration_text u = nat_dec n @ rest" "rest \<noteq> []" by blast
  then show "duration_text u \<noteq> []" "is_digit (hd (duration_text u))"
    using nat_dec_hd [of n] by simp_all
  show "duration_text u \<noteq> ''0''"
    using t by (cases "nat_dec n") auto
qed

lemma duration_String_nonempty [simp]: "duration_String d \<noteq> []"
  using duration_text_start(1) by (simp add: duration_String_def Let_def)

text \<open>Parsing the text of a duration gives the duration, for every 64-bit value.\<close>

lemma ParseDuration_String: "ParseDuration (duration_String d) = Some d"
proof -
  define u where "u = nat \<bar>sint d\<bar>"
  have iu: "int u = \<bar>sint d\<bar>" by (simp add: u_def)
  have u: "u \<le> 2 ^ 63" using sint64_bounds [of d] iu by (simp add: min_int64_def max_int64_def)
  obtain c cs where t: "duration_text u = c # cs" "is_digit c"
    using duration_text_start(1,2) [of u] by (cases "duration_text u") auto
  then have c: "c \<noteq> CHR ''-''" "c \<noteq> CHR ''+''" by (auto simp: is_digit_def)
  note p = parse_duration_text [OF u] duration_text_start(3) [of u]
  show ?thesis
  proof (cases "sint d < 0")
    case True
    then have i: "sint d = - int u" using iu by linarith
    have "of_int (sint d) = d" by simp
    then have "- of_nat u = d" unfolding i by simp
    moreover have "duration_String d = CHR ''-'' # duration_text u"
      using True by (simp add: duration_String_def u_def)
    ultimately show ?thesis using p t by (auto simp: ParseDuration_def split_sign_def)
  next
    case False
    then have i: "sint d = int u" using iu by linarith
    have "of_int (sint d) = d" by simp
    then have "of_nat u = d" unfolding i by simp
    moreover have "duration_String d = duration_text u"
      using False by (simp add: duration_String_def u_def)
    moreover have "u \<le> 2 ^ 63 - 1"
      using sint64_bounds [of d] i by (simp add: max_int64_def)
    ultimately show ?thesis using p t c by (auto simp: ParseDuration_def split_sign_def)
  qed
qed

end
