(* ===== verification/Go_Rfc3339.thy ===== *)
theory Go_Rfc3339
  imports Go_Duration
begin

text \<open>
  Calendar dates and the RFC 3339 text of an instant: \<open>time.Parse(time.RFC3339, s)\<close> and the text
  that \<open>Time.MarshalJSON\<close> writes. Parsing inverts writing, in every time zone.
\<close>

section \<open>The calendar\<close>

definition leap_year :: "int \<Rightarrow> bool" where
  "leap_year y \<longleftrightarrow> y mod 4 = 0 \<and> (y mod 100 \<noteq> 0 \<or> y mod 400 = 0)"

text \<open>
  The year and the day in it, both from a number of days since January 1 of year 1. A cycle of
  400 years has 146097 days; the last of the four centuries of a cycle and the last of the four
  years of a leap cycle are one day longer, which is what the corrections by \<open>div 4\<close> are for.
\<close>

definition year_of_days :: "int \<Rightarrow> int \<times> int" where
  "year_of_days d =
     (let n400 = d div 146097; d1 = d mod 146097;
          n = d1 div 36524; n100 = n - n div 4; d2 = d1 - 36524 * n100;
          n4 = d2 div 1461; d3 = d2 - 1461 * n4;
          m = d3 div 365; n1 = m - m div 4
      in (400 * n400 + 100 * n100 + 4 * n4 + n1 + 1, d3 - 365 * n1))"

text \<open>The days before January 1 of a year.\<close>

definition days_of_year :: "int \<Rightarrow> int" where
  "days_of_year y =
     (let z = y - 1 in
      z div 400 * 146097 + z mod 400 div 100 * 36524 + z mod 100 div 4 * 1461 + z mod 4 * 365)"

definition days_before :: "nat list" where
  "days_before = [0, 31, 59, 90, 120, 151, 181, 212, 243, 273, 304, 334, 365]"

definition days_in :: "nat \<Rightarrow> bool \<Rightarrow> nat" where
  "days_in month leap =
     (if month = 2 \<and> leap then 29 else days_before ! month - days_before ! (month - 1))"

text \<open>The month and the day of the month from the day of the year.\<close>

definition month_of_yday :: "bool \<Rightarrow> nat \<Rightarrow> nat \<times> nat" where
  "month_of_yday leap yday =
     (if leap \<and> yday = 59 then (2, 29)
      else
        let day = (if leap \<and> 59 < yday then yday - 1 else yday);
            m = day div 31; e = days_before ! (m + 1) in
        if e \<le> day then (m + 2, day - e + 1) else (m + 1, day - days_before ! m + 1))"

definition yday_of_month :: "bool \<Rightarrow> nat \<Rightarrow> nat \<Rightarrow> nat" where
  "yday_of_month leap month day =
     days_before ! (month - 1) + (if leap \<and> 3 \<le> month then 1 else 0) + (day - 1)"

lemma days_before_nth [simp]:
  "days_before ! 0 = 0" "days_before ! Suc 0 = 31" "days_before ! Suc (Suc 0) = 59"
  "days_before ! Suc (Suc (Suc 0)) = 90"
  "days_before ! 2 = 59" "days_before ! 3 = 90"
  "days_before ! 4 = 120" "days_before ! 5 = 151" "days_before ! 6 = 181" "days_before ! 7 = 212"
  "days_before ! 8 = 243" "days_before ! 9 = 273" "days_before ! 10 = 304" "days_before ! 11 = 334"
  "days_before ! 12 = 365"
  by (simp_all add: days_before_def)

lemma less_12_cases:
  "k < 12 \<Longrightarrow> k = 0 \<or> k = 1 \<or> k = 2 \<or> k = 3 \<or> k = 4 \<or> k = 5 \<or> k = 6 \<or> k = 7 \<or> k = 8 \<or> k = 9
    \<or> k = 10 \<or> k = (11 :: nat)"
  by presburger

lemma days_before_bounds:
  "k < 12 \<Longrightarrow> days_before ! k \<le> 31 * k" "k < 11 \<Longrightarrow> 31 * k + 30 < days_before ! (k + 2)"
proof -
  show "k < 12 \<Longrightarrow> days_before ! k \<le> 31 * k"
    by (drule less_12_cases) (elim disjE; simp)
  show "31 * k + 30 < days_before ! (k + 2)" if "k < 11"
  proof -
    have "k < 12" using that by simp
    from less_12_cases [OF this] that show ?thesis by (elim disjE; simp)
  qed
qed

lemma days_before_mono: "i \<le> j \<Longrightarrow> j \<le> 12 \<Longrightarrow> days_before ! i \<le> days_before ! j"
  by (rule sorted_nth_mono) (simp_all add: days_before_def)

text \<open>A day of a year without February 29.\<close>

lemma month_of_common_yday:
  assumes "D < 365" "month_of_yday False D = (m, d)"
  shows "1 \<le> m \<and> m \<le> 12 \<and> 1 \<le> d \<and> d \<le> days_in m False \<and> yday_of_month False m d = D \<and>
    (3 \<le> m) = (59 \<le> D)"
proof -
  define k where "k = D div 31"
  have "D = 31 * k + D mod 31" "D mod 31 < 31" by (simp_all add: k_def)
  then have D: "31 * k \<le> D" "D \<le> 31 * k + 30" by linarith+
  then have k: "k < 12" using assms(1) by linarith
  have m: "1 \<le> m" "m \<le> 12" "days_before ! (m - 1) \<le> D" "D < days_before ! m"
    "d = D - days_before ! (m - 1) + 1"
  proof -
    have "(if days_before ! (k + 1) \<le> D then (k + 2, D - days_before ! (k + 1) + 1)
        else (k + 1, D - days_before ! k + 1)) = (m, d)"
      using assms(2) unfolding month_of_yday_def Let_def k_def by (simp split: if_splits)
    moreover have "days_before ! (k + 1) \<le> D \<Longrightarrow> k < 11"
      using k assms(1) by (cases "k = 11") auto
    ultimately show "1 \<le> m" "m \<le> 12" "days_before ! (m - 1) \<le> D" "D < days_before ! m"
      "d = D - days_before ! (m - 1) + 1"
      using days_before_bounds [of k] D k by (auto split: if_splits)
  qed
  have "(3 \<le> m) = (59 \<le> D)"
  proof (cases "3 \<le> m")
    case True
    then have "2 \<le> m - 1" "m - 1 \<le> 12" using m(2) by linarith+
    then have "days_before ! 2 \<le> days_before ! (m - 1)" by (rule days_before_mono)
    with True m(3) show ?thesis by simp
  next
    case False
    then have "days_before ! m \<le> days_before ! 2" by (intro days_before_mono) simp_all
    with False m(4) show ?thesis by simp
  qed
  with m show ?thesis by (simp add: days_in_def yday_of_month_def)
qed

lemma month_of_yday:
  assumes "yday < (if leap then 366 else 365)" "month_of_yday leap yday = (m, d)"
  shows "1 \<le> m" "m \<le> 12" "1 \<le> d" "d \<le> days_in m leap" "yday_of_month leap m d = yday"
proof -
  have "1 \<le> m \<and> m \<le> 12 \<and> 1 \<le> d \<and> d \<le> days_in m leap \<and> yday_of_month leap m d = yday"
  proof (cases "leap \<and> yday = 59")
    case True
    with assms(2) show ?thesis by (auto simp: month_of_yday_def days_in_def yday_of_month_def)
  next
    case False
    define D where "D = (if leap \<and> 59 < yday then yday - 1 else yday)"
    have "D < 365" using assms(1) by (auto simp: D_def split: if_splits)
    moreover have "month_of_yday False D = (m, d)"
      using assms(2) False by (auto simp: month_of_yday_def D_def)
    ultimately have c: "1 \<le> m \<and> m \<le> 12 \<and> 1 \<le> d \<and> d \<le> days_in m False \<and>
      yday_of_month False m d = D \<and> (3 \<le> m) = (59 \<le> D)" by (rule month_of_common_yday)
    have "days_in m False \<le> days_in m leap" by (simp add: days_in_def)
    moreover have "yday_of_month leap m d = yday_of_month False m d + (if leap \<and> 3 \<le> m then 1 else 0)"
      by (simp add: yday_of_month_def)
    ultimately show ?thesis using c False by (auto simp: D_def split: if_splits)
  qed
  then show "1 \<le> m" "m \<le> 12" "1 \<le> d" "d \<le> days_in m leap" "yday_of_month leap m d = yday"
    by simp_all
qed

lemma days_in_le: "1 \<le> m \<Longrightarrow> m \<le> 12 \<Longrightarrow> days_in m leap \<le> 31"
proof -
  assume m: "1 \<le> m" "m \<le> 12"
  then obtain k where k: "m = k + 1" "k < 12" by (metis Suc_eq_plus1 Suc_le_D One_nat_def less_Suc_eq_le numeral_eq_Suc pred_numeral_simps(2) Suc_le_mono)
  show ?thesis using less_12_cases [OF k(2)] unfolding k(1) by (elim disjE) (simp_all add: days_in_def)
qed

text \<open>Splitting a day number into a year and a day of it, and back.\<close>

lemma quarter:
  assumes "0 \<le> n" "n \<le> (4 :: int)"
  shows "n - n div 4 = min n 3"
proof -
  from assms have "n = 0 \<or> n = 1 \<or> n = 2 \<or> n = 3 \<or> n = 4" by linarith
  then show ?thesis by auto
qed

lemma int_div_bounds:
  fixes x k m :: int
  assumes "0 \<le> x" "x < (k + 1) * m" "0 < m"
  shows "0 \<le> x div m" "x div m \<le> k" "0 \<le> x - m * (x div m)" "x - m * (x div m) < m"
proof -
  have r: "x - m * (x div m) = x mod m" by (simp add: minus_mult_div_eq_mod)
  show "0 \<le> x div m" using assms by (simp add: pos_imp_zdiv_nonneg_iff)
  show "0 \<le> x - m * (x div m)" "x - m * (x div m) < m" unfolding r using assms(3) by simp_all
  show "x div m \<le> k"
  proof (rule ccontr)
    assume "\<not> x div m \<le> k"
    then have "m * (k + 1) \<le> m * (x div m)" using assms(3) by (intro mult_left_mono) linarith+
    moreover have "x < m * (k + 1)" using assms(2) by (simp add: mult.commute)
    ultimately show False using \<open>0 \<le> x - m * (x div m)\<close> by linarith
  qed
qed

text \<open>The same with a quotient that is cut off at 3.\<close>

lemma int_div_min:
  fixes x m :: int
  assumes "0 \<le> x" "x \<le> 4 * m" "0 < m"
  shows "0 \<le> x - m * min (x div m) 3" "x - m * min (x div m) 3 \<le> m"
    "x - m * min (x div m) 3 = m \<Longrightarrow> min (x div m) 3 = 3" "0 \<le> x div m" "x div m \<le> 4"
proof -
  have b: "0 \<le> x div m" "x div m \<le> 4" "0 \<le> x - m * (x div m)" "x - m * (x div m) < m"
    using int_div_bounds [of x 4 m] assms by simp_all
  then show "0 \<le> x div m" "x div m \<le> 4" by simp_all
  consider "x div m \<le> 3" | "x div m = 4" using b by linarith
  then have "0 \<le> x - m * min (x div m) 3 \<and> x - m * min (x div m) 3 \<le> m \<and>
    (x - m * min (x div m) 3 = m \<longrightarrow> min (x div m) 3 = 3)"
  proof cases
    case 1
    then have "min (x div m) 3 = x div m" by simp
    with b show ?thesis by simp
  next
    case 2
    then have "min (x div m) 3 = 3" by simp
    with b assms 2 show ?thesis by simp
  qed
  then show "0 \<le> x - m * min (x div m) 3" "x - m * min (x div m) 3 \<le> m"
    "x - m * min (x div m) 3 = m \<Longrightarrow> min (x div m) 3 = 3" by blast+
qed

lemma year_of_days:
  assumes "year_of_days d = (y, yday)"
  shows "days_of_year y + yday = d" "0 \<le> yday" "yday < (if leap_year y then 366 else 365)"
proof -
  define a where "a = d div 146097"
  define d1 where "d1 = d mod 146097"
  define b where "b = min (d1 div 36524) 3"
  define d2 where "d2 = d1 - 36524 * b"
  define c where "c = d2 div 1461"
  define d3 where "d3 = d2 - 1461 * c"
  define e where "e = min (d3 div 365) 3"
  have d1: "0 \<le> d1" "d1 < 146097" by (simp_all add: d1_def)
  note D2 = int_div_min [of d1 36524, folded b_def, folded d2_def]
  have n: "0 \<le> d1 div 36524" "d1 div 36524 \<le> 4" and d2: "0 \<le> d2" "d2 \<le> 36524" "d2 = 36524 \<Longrightarrow> b = 3"
    using D2 d1 by simp_all
  have c: "0 \<le> c" "c \<le> 24" and d3: "0 \<le> d3" "d3 \<le> 1460"
    using int_div_bounds [of d2 24 1461, folded c_def, folded d3_def] d2 by simp_all
  note R = int_div_min [of d3 365, folded e_def]
  have m: "0 \<le> d3 div 365" "d3 div 365 \<le> 4"
    and r: "0 \<le> d3 - 365 * e" "d3 - 365 * e \<le> 365" "d3 - 365 * e = 365 \<Longrightarrow> e = 3"
    using R d3 by simp_all
  have b: "0 \<le> b" "b \<le> 3" and e: "0 \<le> e" "e \<le> 3" using n m by (simp_all add: b_def e_def)
  have y: "y = 400 * a + 100 * b + 4 * c + e + 1" and yd: "yday = d3 - 365 * e"
  proof -
    have B: "d1 div 36524 - d1 div 36524 div 4 = b" unfolding b_def by (rule quarter [OF n])
    have E: "d3 div 365 - d3 div 365 div 4 = e" unfolding e_def by (rule quarter [OF m])
    have "year_of_days d = (400 * a + 100 * b + 4 * c + e + 1, d3 - 365 * e)"
      unfolding year_of_days_def Let_def a_def [symmetric] d1_def [symmetric] B d2_def [symmetric]
        c_def [symmetric] d3_def [symmetric] E ..
    with assms show "y = 400 * a + 100 * b + 4 * c + e + 1" "yday = d3 - 365 * e" by simp_all
  qed
  define z where "z = y - 1"
  have z: "z = 400 * a + (100 * b + 4 * c + e)" using y by (simp add: z_def)
  have z400: "z div 400 = a" "z mod 400 = 100 * b + 4 * c + e"
    using b c e by (intro int_div_pos_eq [OF z] int_mod_pos_eq [OF z]; linarith)+
  have z100: "(100 * b + 4 * c + e) div 100 = b"
    using c e by (intro int_div_pos_eq [where r = "4 * c + e"]; linarith)
  have q1: "z = 100 * (4 * a + b) + (4 * c + e)" by (simp add: z algebra_simps)
  have zm: "z mod 100 = 4 * c + e" by (rule int_mod_pos_eq [OF q1]) (use c e in linarith)+
  have z4: "(4 * c + e) div 4 = c" using e by (intro int_div_pos_eq [where r = e]; linarith)
  have q4: "z = 4 * (100 * a + 25 * b + c) + e" by (simp add: z algebra_simps)
  have z1: "z mod 4 = e" by (rule int_mod_pos_eq [OF q4]) (use e in linarith)+
  have "days_of_year y = a * 146097 + b * 36524 + c * 1461 + e * 365"
    by (simp add: days_of_year_def z_def [symmetric] z400 z100 zm z4 z1)
  moreover have "d = 146097 * a + d1" by (simp add: a_def d1_def)
  ultimately show "days_of_year y + yday = d" by (simp add: yd d3_def d2_def)
  show "0 \<le> yday" using r yd by simp
  show "yday < (if leap_year y then 366 else 365)"
  proof (cases "yday = 365")
    case False
    with r yd show ?thesis by auto
  next
    case True
    then have e3: "e = 3" using r(3) yd by simp
    have y4: "y = 4 * (100 * a + 25 * b + c + 1)" using y e3 by simp
    have "y mod 100 = 0 \<Longrightarrow> y mod 400 = 0"
    proof -
      assume "y mod 100 = 0"
      moreover have "y = 100 * (4 * a + b) + (4 * c + 4)" using y e3 by simp
      ultimately have "(4 * c + 4) mod 100 = 0" by (metis mod_mult_self4)
      then have "c = 24" using c by (cases "c = 24") (simp_all add: mod_pos_pos_trivial)
      then have "d2 = 36524" using True yd e3 by (simp add: d3_def)
      then have "b = 3" by (rule d2(3))
      then have "y = 400 * (a + 1)" using y e3 \<open>c = 24\<close> by simp
      then show "y mod 400 = 0" by simp
    qed
    moreover have "y mod 4 = 0" unfolding y4 by simp
    ultimately have "leap_year y" by (auto simp: leap_year_def)
    with True show ?thesis by simp
  qed
qed

section \<open>Writing an instant\<close>

text \<open>
  \<open>zone\<close> is the offset of the local time in minutes. An instant whose local year has not four
  digits and a zone of 24 hours or more have no text.
\<close>

definition zone_text :: "int \<Rightarrow> string" where
  "zone_text zone =
     (if zone = 0 then ''Z''
      else (if zone < 0 then ''-'' else ''+'') @ pad_digits 2 (nat \<bar>zone\<bar> div 60) @ '':'' @
        pad_digits 2 (nat \<bar>zone\<bar> mod 60))"

definition clock_text :: "nat \<Rightarrow> string" where
  "clock_text sod =
     pad_digits 2 (sod div 3600) @ '':'' @ pad_digits 2 (sod div 60 mod 60) @ '':'' @
     pad_digits 2 (sod mod 60)"

definition date_text :: "int \<Rightarrow> nat \<Rightarrow> string" where
  "date_text y yday =
     (case month_of_yday (leap_year y) yday of
        (m, d) \<Rightarrow> pad_digits 4 (nat y) @ ''-'' @ pad_digits 2 m @ ''-'' @ pad_digits 2 d)"

definition unix_days :: int where
  "unix_days = 719162"

definition marshal_time :: "int \<Rightarrow> time \<Rightarrow> string option" where
  "marshal_time zone t =
     (let secs = t div 1000000000 + 60 * zone;
          (y, yday) = year_of_days (secs div 86400 + unix_days)
      in if 0 \<le> y \<and> y \<le> 9999 \<and> \<bar>zone\<bar> < 1440
         then Some (date_text y (nat yday) @ ''T'' @ clock_text (nat (secs mod 86400)) @
           fmtFrac (nat (t mod 1000000000)) 9 @ zone_text zone)
         else None)"

section \<open>Reading an instant\<close>

text \<open>One or two digits; two when \<open>fixed\<close>.\<close>

fun getnum :: "bool \<Rightarrow> string \<Rightarrow> (nat \<times> string) option" where
  "getnum fixed (a # b # s) =
     (if \<not> is_digit a then None
      else if \<not> is_digit b then (if fixed then None else Some (digit_val a, b # s))
      else Some (digit_val a * 10 + digit_val b, s))"
| "getnum fixed [a] = (if \<not> is_digit a \<or> fixed then None else Some (digit_val a, []))"
| "getnum fixed [] = None"

definition skip_char :: "char \<Rightarrow> string \<Rightarrow> string option" where
  "skip_char c s = (case s of x # t \<Rightarrow> if x = c then Some t else None | [] \<Rightarrow> None)"

text \<open>\<open>\<ge>\<close> the lower and below the upper bound.\<close>

definition num_in :: "nat \<Rightarrow> nat \<Rightarrow> (nat \<times> string) option \<Rightarrow> (nat \<times> string) option" where
  "num_in lo hi p =
     (case p of Some (n, s) \<Rightarrow> if lo \<le> n \<and> n < hi then Some (n, s) else None | None \<Rightarrow> None)"

definition parse_date :: "string \<Rightarrow> ((int \<times> nat \<times> nat) \<times> string) option" where
  "parse_date s =
     (if length s < 4 \<or> \<not> list_all is_digit (take 4 s) then None
      else let y = int (dec_val 0 (take 4 s)) in
        case skip_char (CHR ''-'') (drop 4 s) of
          None \<Rightarrow> None
        | Some s1 \<Rightarrow>
            (case num_in 1 13 (getnum True s1) of
               None \<Rightarrow> None
             | Some (m, s2) \<Rightarrow>
                 (case skip_char (CHR ''-'') s2 of
                    None \<Rightarrow> None
                  | Some s3 \<Rightarrow>
                      (case num_in 1 (days_in m (leap_year y) + 1) (getnum True s3) of
                         None \<Rightarrow> None
                       | Some (d, s4) \<Rightarrow> Some ((y, m, d), s4)))))"

definition parse_clock :: "string \<Rightarrow> (nat \<times> string) option" where
  "parse_clock s =
     (case num_in 0 24 (getnum False s) of
        None \<Rightarrow> None
      | Some (h, s1) \<Rightarrow>
          (case skip_char (CHR '':'') s1 of
             None \<Rightarrow> None
           | Some s2 \<Rightarrow>
               (case num_in 0 60 (getnum True s2) of
                  None \<Rightarrow> None
                | Some (m, s3) \<Rightarrow>
                    (case skip_char (CHR '':'') s3 of
                       None \<Rightarrow> None
                     | Some s4 \<Rightarrow>
                         (case num_in 0 60 (getnum True s4) of
                            None \<Rightarrow> None
                          | Some (sec, s5) \<Rightarrow> Some (h * 3600 + m * 60 + sec, s5))))))"

text \<open>
  A fraction after a point or a comma, if a digit follows: nine digits count, more are skipped.
\<close>

definition parse_nanos :: "string \<Rightarrow> nat \<times> string" where
  "parse_nanos s =
     (case s of
        c # d # t \<Rightarrow>
          if (c = CHR ''.'' \<or> c = CHR '','') \<and> is_digit d then
            (let ds = take 9 (takeWhile is_digit (d # t)) in
             (dec_val 0 ds * 10 ^ (9 - length ds), dropWhile is_digit (d # t)))
          else (0, s)
      | _ \<Rightarrow> (0, s))"

text \<open>The offset in minutes. An hour of 24 and a minute of 60 are let through.\<close>

definition parse_zone :: "string \<Rightarrow> (int \<times> string) option" where
  "parse_zone s =
     (case s of
        [] \<Rightarrow> None
      | c # t \<Rightarrow>
          if c = CHR ''Z'' then Some (0, t)
          else if length s < 6 \<or> s ! 3 \<noteq> CHR '':'' then None
          else
            (case (num_in 0 25 (getnum True (take 2 t)), num_in 0 61 (getnum True (take 2 (drop 3 t)))) of
               (Some (h, _), Some (m, _)) \<Rightarrow>
                 if c = CHR ''+'' then Some (int (h * 60 + m), drop 5 t)
                 else if c = CHR ''-'' then Some (- int (h * 60 + m), drop 5 t)
                 else None
             | _ \<Rightarrow> None))"

text \<open>\<open>time.Date\<close> in UTC, from the fields of a date that have been checked.\<close>

definition unix_seconds :: "int \<times> nat \<times> nat \<Rightarrow> nat \<Rightarrow> int" where
  "unix_seconds ymd sod =
     (case ymd of (y, m, d) \<Rightarrow>
        (days_of_year y + int (yday_of_month (leap_year y) m d) - unix_days) * 86400 + int sod)"

definition Parse_RFC3339 :: "string \<Rightarrow> time option" where
  "Parse_RFC3339 s =
     (case parse_date s of
        None \<Rightarrow> None
      | Some (ymd, s1) \<Rightarrow>
          (case skip_char (CHR ''T'') s1 of
             None \<Rightarrow> None
           | Some s2 \<Rightarrow>
               (case parse_clock s2 of
                  None \<Rightarrow> None
                | Some (sod, s3) \<Rightarrow>
                    (case parse_nanos s3 of (ns, s4) \<Rightarrow>
                       (case parse_zone s4 of
                          None \<Rightarrow> None
                        | Some (zone, s5) \<Rightarrow>
                            if s5 = []
                            then Some ((unix_seconds ymd sod - 60 * zone) * 1000000000 + int ns)
                            else None)))))"

section \<open>What is written is read back\<close>

lemma getnum_pad: "n < 100 \<Longrightarrow> getnum fixed (pad_digits 2 n @ s) = Some (n, s)"
  by (simp add: pad_digits_numeral numeral_2_eq_2 digit_char_digit digit_val_char)

lemma num_in_pad:
  "n < 100 \<Longrightarrow> lo \<le> n \<Longrightarrow> n < hi \<Longrightarrow> num_in lo hi (getnum fixed (pad_digits 2 n @ s)) = Some (n, s)"
  by (simp add: num_in_def getnum_pad)

lemma skip_char_same [simp]: "skip_char c (c # s) = Some s"
  by (simp add: skip_char_def)

lemma parse_date_text:
  assumes "0 \<le> y" "y \<le> 9999" "yday < (if leap_year y then 366 else 365)"
    and "month_of_yday (leap_year y) yday = (m, d)"
  shows "parse_date (date_text y yday @ s) = Some ((y, m, d), s)"
proof -
  note md = month_of_yday [OF assms(3,4)]
  have d31: "d \<le> 31" using md days_in_le [of m "leap_year y"] by linarith
  have "dec_val 0 (pad_digits 4 (nat y)) = nat y" using assms(1,2) by (simp add: dec_val_pad_digits)
  moreover have "take 4 (pad_digits 4 (nat y) @ t) = pad_digits 4 (nat y)"
    "drop 4 (pad_digits 4 (nat y) @ t) = t" for t by simp_all
  moreover have "date_text y yday @ s = pad_digits 4 (nat y) @ CHR ''-'' # (pad_digits 2 m @ CHR ''-'' # (pad_digits 2 d @ s))"
    using assms(4) by (simp add: date_text_def)
  ultimately show ?thesis
    using md d31 assms(1)
    by (simp add: parse_date_def Let_def pad_digits_digits num_in_pad)
qed

lemma parse_clock_text:
  assumes "sod < 86400"
  shows "parse_clock (clock_text sod @ s) = Some (sod, s)"
proof -
  have h: "sod div 3600 < 24" using assms by (simp add: div_less_iff_less_mult)
  have "sod div 60 div 60 = sod div 3600" by (simp add: div_mult2_eq [symmetric])
  then have "sod div 3600 * 3600 + sod div 60 mod 60 * 60 + sod mod 60 = sod"
    using div_mult_mod_eq [of sod 60] div_mult_mod_eq [of "sod div 60" 60] by linarith
  with h show ?thesis by (simp add: parse_clock_def clock_text_def num_in_pad)
qed

lemma digit_span:
  assumes "list_all is_digit ds" "no_digit s"
  shows "takeWhile is_digit (ds @ s) = ds" "dropWhile is_digit (ds @ s) = s"
proof -
  have ds: "\<forall>c \<in> set ds. is_digit c" using assms(1) by (simp add: list_all_iff)
  have "takeWhile is_digit s = []" "dropWhile is_digit s = s"
    using assms(2) by (cases s; auto simp: no_digit_def)+
  with ds show "takeWhile is_digit (ds @ s) = ds" "dropWhile is_digit (ds @ s) = s"
    by (simp_all add: takeWhile_append2 dropWhile_append2)
qed

lemma parse_nanos_text:
  assumes "ns < 1000000000" "no_digit s" "s \<noteq> []" "hd s \<noteq> CHR ''.''" "hd s \<noteq> CHR '',''"
  shows "parse_nanos (fmtFrac ns 9 @ s) = (ns, s)"
proof -
  obtain ds j where ds: "fmtFrac ns 9 = (if ds = [] then [] else CHR ''.'' # ds)"
    "list_all is_digit ds" "length ds + j = 9" "dec_val 0 ds * 10 ^ j = ns mod 10 ^ 9"
    by (rule fmtFrac_digits)
  have ns: "dec_val 0 ds * 10 ^ j = ns" using ds(4) assms(1) by simp
  show ?thesis
  proof (cases ds)
    case Nil
    with ds ns assms(3-5) show ?thesis
      by (cases s) (auto simp: parse_nanos_def split: list.split)
  next
    case (Cons c cs)
    have "is_digit c" using ds(2) Cons by simp
    moreover have "take 9 ds = ds" "9 - length ds = j" using ds(3) by simp_all
    moreover have "fmtFrac ns 9 @ s = CHR ''.'' # c # (cs @ s)" using ds(1) Cons by simp
    ultimately show ?thesis
      using digit_span [OF ds(2) assms(2)] ns Cons by (simp add: parse_nanos_def Let_def)
  qed
qed

lemma parse_zone_text:
  assumes "\<bar>zone\<bar> < 1440"
  shows "parse_zone (zone_text zone) = Some (zone, [])"
proof (cases "zone = 0")
  case True
  then show ?thesis by (simp add: zone_text_def parse_zone_def)
next
  case False
  define n where "n = nat \<bar>zone\<bar>"
  have n: "n < 1440" using assms by (simp add: n_def)
  then have h: "n div 60 < 24" by (simp add: div_less_iff_less_mult)
  have len: "length (pad_digits 2 k) = 2" for k by simp
  have z: "zone_text zone = (if zone < 0 then CHR ''-'' else CHR ''+'') # pad_digits 2 (n div 60) @
      CHR '':'' # pad_digits 2 (n mod 60)"
    using False by (simp add: zone_text_def n_def)
  have "num_in 0 25 (getnum True (pad_digits 2 (n div 60))) = Some (n div 60, [])"
    "num_in 0 61 (getnum True (pad_digits 2 (n mod 60))) = Some (n mod 60, [])"
    using num_in_pad [of _ 0 _ True "[]"] h by simp_all
  moreover have "int (n div 60 * 60 + n mod 60) = \<bar>zone\<bar>" by (simp add: n_def)
  ultimately show ?thesis
    using False by (auto simp: parse_zone_def z nth_append)
qed

lemma zone_text_start:
  "no_digit (zone_text zone)" "zone_text zone \<noteq> []" "hd (zone_text zone) \<noteq> CHR ''.''"
  "hd (zone_text zone) \<noteq> CHR '',''"
  by (simp_all add: zone_text_def no_digit_def is_digit_def)

text \<open>An instant that has a text is read back exactly, to the nanosecond, whatever the zone.\<close>

lemma Parse_marshal_time:
  assumes "marshal_time zone t = Some s"
  shows "Parse_RFC3339 s = Some t"
proof -
  define secs where "secs = t div 1000000000 + 60 * zone"
  obtain y yd where yd: "year_of_days (secs div 86400 + unix_days) = (y, yd)" by fastforce
  note Y = year_of_days [OF yd]
  obtain m d where md: "month_of_yday (leap_year y) (nat yd) = (m, d)" by fastforce
  have b: "0 \<le> y" "y \<le> 9999" "\<bar>zone\<bar> < 1440" and
    s: "s = date_text y (nat yd) @ CHR ''T'' # (clock_text (nat (secs mod 86400)) @
          (fmtFrac (nat (t mod 1000000000)) 9 @ zone_text zone))"
    using assms by (auto simp: marshal_time_def secs_def [symmetric] yd Let_def split: if_splits)
  have ydn: "nat yd < (if leap_year y then 366 else 365)" using Y(2,3) by (auto split: if_splits)
  note M = month_of_yday [OF ydn md]
  have sod: "nat (secs mod 86400) < 86400" by simp
  have ns: "nat (t mod 1000000000) < 1000000000" by simp
  have "days_of_year y + int (nat yd) - unix_days = secs div 86400" using Y(1,2) by simp
  then have "unix_seconds (y, m, d) (nat (secs mod 86400)) = secs div 86400 * 86400 + secs mod 86400"
    by (simp only: unix_seconds_def prod.case M(5) int_nat_eq) simp_all
  then have "unix_seconds (y, m, d) (nat (secs mod 86400)) = secs" by simp
  moreover have "(secs - 60 * zone) * 1000000000 + t mod 1000000000 = t" by (simp add: secs_def)
  ultimately show ?thesis
    unfolding s Parse_RFC3339_def
    by (simp add: parse_date_text [OF b(1,2) ydn md] parse_clock_text [OF sod]
        parse_nanos_text [OF ns zone_text_start] parse_zone_text [OF b(3)])
qed

lemma epoch_day: "year_of_days 719162 = (1970, 0)"
  by (simp add: year_of_days_def)

lemma marshal_time_example:
  "marshal_time 480 10 = Some ''1970-01-01T08:00:00.00000001+08:00''"
  by (simp add: marshal_time_def unix_days_def epoch_day date_text_def clock_text_def leap_year_def
      month_of_yday_def pad_digits_numeral zone_text_def fmtFrac_def drop_trailing_zeros_def
      digit_char_def char_of_def bit_Suc_0_iff)

text \<open>Every instant of the first day of the epoch has a text in UTC.\<close>

lemma marshal_time_epoch: "0 \<le> t \<Longrightarrow> t < 86400000000000 \<Longrightarrow> marshal_time 0 t \<noteq> None"
proof -
  assume "0 \<le> t" "t < 86400000000000"
  then have "t div 1000000000 div 86400 = 0" by (simp add: zdiv_zmult2_eq [symmetric] div_pos_pos_trivial)
  then show ?thesis by (simp add: marshal_time_def unix_days_def epoch_day)
qed

end
