(* ===== verification/Wire.thy ===== *)
theory Wire
  imports Json Protocol Go_Rfc3339
begin

text \<open>
  The JSON of the messages of pkg/protocol: what a client sends (\<open>unmarshal_inbound\<close>), what a
  connection is sent (\<open>marshal_outbound\<close>) and what the nodes exchange (\<open>marshal_broadcast\<close>,
  \<open>unmarshal_broadcast\<close>). Every message that can be written is read back, with the bytes of its
  texts that are not UTF-8 replaced.
\<close>

section \<open>Times\<close>

text \<open>
  \<open>Time.UnmarshalJSON\<close> is given the text of the value: null is skipped, a string has to be an
  RFC 3339 time as it stands between the quotes.
\<close>

definition store_time :: "((time \<Rightarrow> time) \<Rightarrow> 'a \<Rightarrow> 'a) \<Rightarrow> json \<Rightarrow> 'a \<Rightarrow> 'a option" where
  "store_time upd j x =
     (case j of
        JStr raw v \<Rightarrow> map_option (\<lambda>t. upd (\<lambda>_. t) x) (Parse_RFC3339 raw)
      | JNull \<Rightarrow> Some x
      | _ \<Rightarrow> None)"

text \<open>The characters of a time need no escape, so its quoted text holds it unchanged.\<close>

definition plain :: "string \<Rightarrow> bool" where
  "plain s \<longleftrightarrow> list_all (\<lambda>c. byte c < 128 \<and> html_safe c) s"

lemma plain_chars: "plain s \<Longrightarrow> json_chars s = s"
  by (induction s) (simp_all add: plain_def json_chars_ascii)

lemma plain_valid: "plain s \<Longrightarrow> valid_utf8 s"
  by (rule valid_ascii) (simp add: plain_def list_all_iff)

lemma plain_digits: "list_all is_digit s \<Longrightarrow> plain s"
  by (induction s) (auto simp: plain_def is_digit_def html_safe_def byte_def)

lemma plain_append [simp]: "plain (s @ t) \<longleftrightarrow> plain s \<and> plain t"
  by (simp add: plain_def)

lemma plain_Nil [simp]: "plain []"
  by (simp add: plain_def)

lemma plain_Cons [simp]: "plain (c # s) \<longleftrightarrow> (byte c < 128 \<and> html_safe c) \<and> plain s"
  by (simp add: plain_def)

lemma plain_pad [simp]: "plain (pad_digits k n)"
  by (rule plain_digits) (rule pad_digits_digits)

lemmas char_simps = html_safe_def byte_def

lemma plain_fmtFrac [simp]: "plain (fmtFrac u k)"
proof -
  obtain ds j where "fmtFrac u k = (if ds = [] then [] else CHR ''.'' # ds)" "list_all is_digit ds"
    by (rule fmtFrac_digits)
  then show ?thesis by (simp add: char_simps plain_digits)
qed

lemma plain_time:
  assumes "marshal_time zone t = Some s"
  shows "plain s"
proof -
  have "plain (date_text y yd)" for y yd by (simp add: date_text_def case_prod_beta char_simps)
  moreover have "plain (clock_text n)" for n by (simp add: clock_text_def char_simps)
  moreover have "plain (zone_text zone)" by (simp add: zone_text_def char_simps)
  ultimately show ?thesis
    using assms by (auto simp: marshal_time_def Let_def char_simps split: prod.splits if_splits)
qed

section \<open>Inbound messages\<close>

definition inbound_field :: "string \<Rightarrow> json \<Rightarrow> ws_inbound \<Rightarrow> ws_inbound option" where
  "inbound_field k j m =
     (if k = ''type'' then store_string in_Type_update j m
      else if k = ''content'' then store_string in_Content_update j m
      else Some m)"

definition zero_inbound :: ws_inbound where
  "zero_inbound = \<lparr>in_Type = [], in_Content = []\<rparr>"

definition json_error :: go_error where
  "json_error = ErrMsg ''json''"

definition unmarshal_inbound :: "string \<Rightarrow> ws_inbound result" where
  "unmarshal_inbound raw =
     (case json_parse raw of
        None \<Rightarrow> Err json_error
      | Some j \<Rightarrow>
          (case store_struct inbound_field j zero_inbound of
             None \<Rightarrow> Err json_error
           | Some m \<Rightarrow> Ok m))"

section \<open>Broadcast messages\<close>

text \<open>\<open>zone\<close> is the offset of the node's local time in minutes.\<close>

definition marshal_broadcast :: "int \<Rightarrow> broadcast_message \<Rightarrow> string result" where
  "marshal_broadcast zone m =
     (case marshal_time zone (bc_Timestamp m) of
        None \<Rightarrow> Err json_error
      | Some ts \<Rightarrow>
          Ok (json_object
            [(''message_id'', json_quote (bc_MessageID m)), (''room_id'', json_quote (bc_RoomID m)),
             (''user_id'', json_quote (bc_UserID m)), (''content'', json_quote (bc_Content m)),
             (''node_id'', json_quote (bc_NodeID m)), (''timestamp'', CHR 0x22 # ts @ [CHR 0x22])]))"

definition broadcast_field :: "string \<Rightarrow> json \<Rightarrow> broadcast_message \<Rightarrow> broadcast_message option" where
  "broadcast_field k j m =
     (if k = ''message_id'' then store_string bc_MessageID_update j m
      else if k = ''room_id'' then store_string bc_RoomID_update j m
      else if k = ''user_id'' then store_string bc_UserID_update j m
      else if k = ''content'' then store_string bc_Content_update j m
      else if k = ''node_id'' then store_string bc_NodeID_update j m
      else if k = ''timestamp'' then store_time bc_Timestamp_update j m
      else Some m)"

definition unmarshal_broadcast :: "string \<Rightarrow> broadcast_message result" where
  "unmarshal_broadcast raw =
     (case json_parse raw of
        None \<Rightarrow> Err json_error
      | Some j \<Rightarrow>
          (case store_struct broadcast_field j zero_broadcast of
             None \<Rightarrow> Err json_error
           | Some m \<Rightarrow> Ok m))"

section \<open>Outbound messages\<close>

text \<open>
  \<open>omitempty\<close> leaves out an empty string. It has no effect on the timestamp, which is a struct.
\<close>

definition omit_empty :: "string \<Rightarrow> string \<Rightarrow> (string \<times> string) list" where
  "omit_empty k s = (if s = [] then [] else [(k, json_quote s)])"

definition marshal_outbound :: "int \<Rightarrow> ws_outbound \<Rightarrow> string result" where
  "marshal_outbound zone m =
     (case marshal_time zone (out_Timestamp m) of
        None \<Rightarrow> Err json_error
      | Some ts \<Rightarrow>
          Ok (json_object
            ([(''type'', json_quote (out_Type m))] @ omit_empty ''message_id'' (out_MessageID m) @
             omit_empty ''room_id'' (out_RoomID m) @ omit_empty ''user_id'' (out_UserID m) @
             omit_empty ''content'' (out_Content m) @ omit_empty ''node_id'' (out_NodeID m) @
             [(''timestamp'', CHR 0x22 # ts @ [CHR 0x22])] @ omit_empty ''error'' (out_Error m))))"

section \<open>What is written is read back\<close>

text \<open>The member of a text and of a time, with what is read of them.\<close>

definition str_member :: "string \<Rightarrow> string \<Rightarrow> string \<times> string \<times> json" where
  "str_member k s = (k, json_quote s, JStr (json_chars s) (sanitize s))"

definition time_member :: "string \<Rightarrow> string \<Rightarrow> string \<times> string \<times> json" where
  "time_member k ts = (k, CHR 0x22 # ts @ [CHR 0x22], JStr ts ts)"

lemma str_member_text: "case str_member k s of (k, v, j) \<Rightarrow> text_of v j"
  by (simp add: str_member_def text_of_string)

lemma time_member_text:
  assumes "marshal_time zone t = Some ts"
  shows "case time_member k ts of (k, v, j) \<Rightarrow> text_of v j"
  using text_of_string [of ts] plain_time [OF assms]
  by (simp add: time_member_def json_quote_def plain_chars plain_valid [unfolded valid_utf8_def])

lemma store_time_text:
  assumes "marshal_time zone t = Some ts"
  shows "store_time upd (JStr ts v) x = Some (upd (\<lambda>_. t) x)"
  by (simp add: store_time_def Parse_marshal_time [OF assms])

lemma field_names [simp]:
  "sanitize ''type'' = ''type''" "sanitize ''message_id'' = ''message_id''"
  "sanitize ''room_id'' = ''room_id''" "sanitize ''user_id'' = ''user_id''"
  "sanitize ''content'' = ''content''" "sanitize ''node_id'' = ''node_id''"
  "sanitize ''timestamp'' = ''timestamp''" "sanitize ''error'' = ''error''"
  by (simp_all add: byte_def)

lemma fold_names [simp]:
  "fold_key ''type'' = ''type''" "fold_key ''message_id'' = ''message_id''"
  "fold_key ''room_id'' = ''room_id''" "fold_key ''user_id'' = ''user_id''"
  "fold_key ''content'' = ''content''" "fold_key ''node_id'' = ''node_id''"
  "fold_key ''timestamp'' = ''timestamp''" "fold_key ''error'' = ''error''"
  by (simp_all add: fold_key.simps lower_ascii_def)

definition sanitize_broadcast :: "broadcast_message \<Rightarrow> broadcast_message" where
  "sanitize_broadcast m =
     m\<lparr>bc_MessageID := sanitize (bc_MessageID m), bc_RoomID := sanitize (bc_RoomID m),
       bc_UserID := sanitize (bc_UserID m), bc_Content := sanitize (bc_Content m),
       bc_NodeID := sanitize (bc_NodeID m)\<rparr>"

lemma broadcast_roundtrip:
  assumes "marshal_broadcast zone m = Ok s"
  shows "unmarshal_broadcast s = Ok (sanitize_broadcast m)"
proof -
  obtain ts where ts: "marshal_time zone (bc_Timestamp m) = Some ts"
    using assms by (auto simp: marshal_broadcast_def split: option.splits)
  let ?ms = "[str_member ''message_id'' (bc_MessageID m), str_member ''room_id'' (bc_RoomID m),
    str_member ''user_id'' (bc_UserID m), str_member ''content'' (bc_Content m),
    str_member ''node_id'' (bc_NodeID m), time_member ''timestamp'' ts]"
  have s: "s = json_object (map (\<lambda>(k, v, j). (k, v)) ?ms)"
    using assms ts by (simp add: marshal_broadcast_def str_member_def time_member_def)
  have "list_all (\<lambda>(k, v, j). text_of v j) ?ms"
    using str_member_text time_member_text [OF ts] by simp
  then have "json_parse s = Some (JObj (map (\<lambda>(k, v, j). (sanitize k, j)) ?ms))"
    unfolding s by (intro json_decode_object(1)) simp_all
  then show ?thesis
    by (cases m) (simp add: unmarshal_broadcast_def store_struct_def str_member_def time_member_def
        broadcast_field_def store_time_text [OF ts] zero_broadcast_def sanitize_broadcast_def)
qed

text \<open>A client's frame, as a client in JavaScript or Go writes it.\<close>

definition marshal_inbound :: "ws_inbound \<Rightarrow> string" where
  "marshal_inbound m =
     json_object [(''type'', json_quote (in_Type m)), (''content'', json_quote (in_Content m))]"

lemma inbound_roundtrip:
  "unmarshal_inbound (marshal_inbound m) =
    Ok \<lparr>in_Type = sanitize (in_Type m), in_Content = sanitize (in_Content m)\<rparr>"
proof -
  let ?ms = "[str_member ''type'' (in_Type m), str_member ''content'' (in_Content m)]"
  have s: "marshal_inbound m = json_object (map (\<lambda>(k, v, j). (k, v)) ?ms)"
    by (simp add: marshal_inbound_def str_member_def)
  have "list_all (\<lambda>(k, v, j). text_of v j) ?ms" using str_member_text by simp
  then have "json_parse (marshal_inbound m) = Some (JObj (map (\<lambda>(k, v, j). (sanitize k, j)) ?ms))"
    unfolding s by (intro json_decode_object(1)) simp_all
  then show ?thesis
    by (simp add: unmarshal_inbound_def store_struct_def str_member_def inbound_field_def zero_inbound_def)
qed

text \<open>The members of an outbound message.\<close>

definition opt_member :: "string \<Rightarrow> string \<Rightarrow> (string \<times> string \<times> json) list" where
  "opt_member k s = (if s = [] then [] else [str_member k s])"

lemma opt_member_text: "list_all (\<lambda>(k, v, j). text_of v j) (opt_member k s)"
  using str_member_text by (simp add: opt_member_def)

lemma opt_member_fst: "map (\<lambda>(k, v, j). (k, v)) (opt_member k s) = omit_empty k s"
  by (simp add: opt_member_def omit_empty_def str_member_def)

definition outbound_members :: "string \<Rightarrow> ws_outbound \<Rightarrow> (string \<times> string \<times> json) list" where
  "outbound_members ts m =
     [str_member ''type'' (out_Type m)] @ opt_member ''message_id'' (out_MessageID m) @
     opt_member ''room_id'' (out_RoomID m) @ opt_member ''user_id'' (out_UserID m) @
     opt_member ''content'' (out_Content m) @ opt_member ''node_id'' (out_NodeID m) @
     [time_member ''timestamp'' ts] @ opt_member ''error'' (out_Error m)"

lemma outbound_parse:
  assumes "marshal_outbound zone m = Ok s"
  obtains ts where "marshal_time zone (out_Timestamp m) = Some ts"
    "json_parse s = Some (JObj (map (\<lambda>(k, v, j). (sanitize k, j)) (outbound_members ts m)))"
proof -
  obtain ts where ts: "marshal_time zone (out_Timestamp m) = Some ts"
    using assms by (auto simp: marshal_outbound_def split: option.splits)
  have s: "s = json_object (map (\<lambda>(k, v, j). (k, v)) (outbound_members ts m))"
    using assms ts
    by (simp add: marshal_outbound_def outbound_members_def opt_member_fst str_member_def time_member_def)
  have "list_all (\<lambda>(k, v, j). text_of v j) (outbound_members ts m)"
    using str_member_text time_member_text [OF ts] opt_member_text by (simp add: outbound_members_def)
  then have "json_parse s = Some (JObj (map (\<lambda>(k, v, j). (sanitize k, j)) (outbound_members ts m)))"
    unfolding s by (intro json_decode_object(1)) (simp_all add: outbound_members_def)
  with ts show thesis by (rule that)
qed

text \<open>Storing an object whose members are appended.\<close>

lemma store_members_append:
  "store_members f (xs @ ys) x = (case store_members f xs x of None \<Rightarrow> None | Some y \<Rightarrow> store_members f ys y)"
  by (induction f xs x rule: store_members.induct) (auto split: option.split)

section \<open>Texts that were read are valid UTF-8\<close>

lemma inbound_valid:
  assumes "unmarshal_inbound raw = Ok m"
  shows "valid_utf8 (in_Type m) \<and> valid_utf8 (in_Content m)"
proof -
  let ?I = "\<lambda>m. valid_utf8 (in_Type m) \<and> valid_utf8 (in_Content m)"
  have step: "inbound_field k j x = Some y \<Longrightarrow> str_valid j \<Longrightarrow> ?I x \<Longrightarrow> ?I y" for k j x y
    by (auto simp: inbound_field_def store_string_def split: if_splits json.splits)
  obtain j where j: "json_parse raw = Some j" "store_struct inbound_field j zero_inbound = Some m"
    using assms by (auto simp: unmarshal_inbound_def split: option.splits)
  have z: "?I zero_inbound" by (simp add: zero_inbound_def)
  show ?thesis
  proof (cases j)
    case (JObj ms)
    then have "store_members inbound_field ms zero_inbound = Some m" using j(2) by (simp add: store_struct_def)
    from store_members_inv [where I = ?I, OF step this json_parse_valid [of raw] z] j(1) JObj
    show ?thesis by simp
  qed (use j(2) z in \<open>simp_all add: store_struct_def\<close>)
qed

text \<open>A message whose texts are valid is exchanged unchanged.\<close>

definition valid_broadcast :: "broadcast_message \<Rightarrow> bool" where
  "valid_broadcast m \<longleftrightarrow> valid_utf8 (bc_MessageID m) \<and> valid_utf8 (bc_RoomID m) \<and>
     valid_utf8 (bc_UserID m) \<and> valid_utf8 (bc_Content m) \<and> valid_utf8 (bc_NodeID m)"

lemma sanitize_valid_broadcast: "valid_broadcast m \<Longrightarrow> sanitize_broadcast m = m"
  by (simp add: valid_broadcast_def sanitize_broadcast_def valid_utf8_def)

end
