(* ===== verification/Broker.thy ===== *)
theory Broker
  imports Wire
begin

text \<open>
  internal/broker: the interface through which nodes exchange messages and its Redis Pub/Sub
  implementation. The Redis client library is a parameter; \<open>zone\<close> is the offset of the node's
  local time in minutes, which the JSON of a message shows. The closures
  the program returns and keeps (\<open>unsubscribe\<close>) are pointers to the variables they capture.
\<close>

section \<open>The interface\<close>

text \<open>
  \<open>'b\<close> is the state behind the interface, \<open>'h\<close> the handle that stands for the unsubscribe
  function a subscription returns. The handler passed to \<open>Subscribe\<close> is determined by the
  room in the program, so it is not an argument here.
\<close>

record ('b, 'h) broker_ops =
  Publish :: "broadcast_message \<Rightarrow> 'b \<Rightarrow> go_error option \<times> 'b"
  Subscribe :: "string \<Rightarrow> 'b \<Rightarrow> 'h result \<times> 'b"
  Unsubscribe :: "'h \<Rightarrow> 'b \<Rightarrow> go_error option \<times> 'b"
  Close_broker :: "'b \<Rightarrow> go_error option \<times> 'b"

text \<open>
  What a client relies on: \<open>live b\<close> maps the handles of the subscriptions that deliver to
  their rooms. Subscribing adds a handle that was not live, or changes nothing when it fails;
  unsubscribing ends one subscription whatever the library answers; publishing ends none and
  closing starts none.
\<close>

locale broker_iface =
  fixes B :: "('b, 'h) broker_ops"
    and live :: "'b \<Rightarrow> 'h \<rightharpoonup> string"
    and broker_ok :: "'b \<Rightarrow> bool"
  assumes subscribe_Ok: "broker_ok b \<Longrightarrow> Subscribe B r b = (Ok h, b') \<Longrightarrow>
      live b h = None \<and> live b' = (live b)(h \<mapsto> r) \<and> broker_ok b'"
    and subscribe_Err: "broker_ok b \<Longrightarrow> Subscribe B r b = (Err e, b') \<Longrightarrow>
      live b' = live b \<and> broker_ok b'"
    and unsubscribe_live: "broker_ok b \<Longrightarrow> Unsubscribe B h b = (err, b') \<Longrightarrow>
      live b' = (live b)(h := None) \<and> broker_ok b'"
    and publish_live: "broker_ok b \<Longrightarrow> Publish B msg b = (err, b') \<Longrightarrow>
      live b' = live b \<and> broker_ok b'"
    and close_live: "broker_ok b \<Longrightarrow> Close_broker B b = (err, b') \<Longrightarrow>
      live b' \<subseteq>\<^sub>m live b \<and> broker_ok b'"
begin

lemma subscribe_keeps:
  "broker_ok b \<Longrightarrow> Subscribe B r b = (res, b') \<Longrightarrow> broker_ok b'"
  using subscribe_Ok subscribe_Err by (cases res) blast+

text \<open>Unsubscribing a list of handles one after the other.\<close>

fun unsubscribe_all :: "'h list \<Rightarrow> 'b \<Rightarrow> 'b" where
  "unsubscribe_all [] b = b"
| "unsubscribe_all (h # hs) b = unsubscribe_all hs (snd (Unsubscribe B h b))"

lemma unsubscribe_all_live:
  "broker_ok b \<Longrightarrow> live (unsubscribe_all hs b) = (live b) |` (- set hs) \<and> broker_ok (unsubscribe_all hs b)"
proof (induction hs arbitrary: b)
  case Nil
  then show ?case by simp
next
  case (Cons h hs)
  obtain err b' where u: "Unsubscribe B h b = (err, b')" by fastforce
  note l = unsubscribe_live [OF Cons.prems u]
  with Cons.IH [of b'] u show ?case by (auto simp: restrict_map_def fun_eq_iff)
qed

end

section \<open>Redis Pub/Sub\<close>

text \<open>
  The Redis client: \<open>'c\<close> is its state, \<open>'p\<close> a \<open>*redis.PubSub\<close>. \<open>ps_Receive\<close> waits for the
  subscription's acknowledgement.
\<close>

record ('c, 'p) pubsub_client =
  ps_Publish :: "string \<Rightarrow> string \<Rightarrow> 'c \<Rightarrow> go_error option \<times> 'c"
  ps_Subscribe :: "string \<Rightarrow> 'c \<Rightarrow> 'p \<times> 'c"
  ps_Receive :: "'p \<Rightarrow> 'c \<Rightarrow> go_error option \<times> 'c"
  ps_Close :: "'p \<Rightarrow> 'c \<Rightarrow> go_error option \<times> 'c"

text \<open>
  The variables the closures of one subscription capture: its PubSub, its room, the id it is
  registered under, and whether its \<open>sync.Once\<close> has run, which is when the \<open>stop\<close> channel
  is closed.
\<close>

record 'p subscription =
  sub_pubsub :: 'p
  sub_room :: string
  sub_key :: string
  sub_stopped :: bool

record ('c, 'p) redis_broker =
  rb_client :: 'c
  rb_closers :: "string \<rightharpoonup> ptr"
  rb_subIndex :: uint64
  rb_subs :: "ptr \<rightharpoonup> 'p subscription"
  rb_next :: nat

definition NewRedisPubSubBroker :: "'c \<Rightarrow> ('c, 'p) redis_broker" where
  "NewRedisPubSubBroker c =
     \<lparr>rb_client = c, rb_closers = Map.empty, rb_subIndex = 0, rb_subs = Map.empty, rb_next = 0\<rparr>"

definition channelName :: "string \<Rightarrow> string" where
  "channelName roomID = ''dm:room:'' @ roomID"

definition redis_Publish ::
    "('c, 'p) pubsub_client \<Rightarrow> int \<Rightarrow> broadcast_message \<Rightarrow> ('c, 'p) redis_broker \<Rightarrow>
     go_error option \<times> ('c, 'p) redis_broker" where
  "redis_Publish P zone msg b =
     (case marshal_broadcast zone msg of
        Inl e \<Rightarrow> (Some e, b)
      | Inr payload \<Rightarrow>
          (case ps_Publish P (channelName (bc_RoomID msg)) payload (rb_client b) of
             (err, c') \<Rightarrow> (err, b\<lparr>rb_client := c'\<rparr>)))"

definition sub_id :: "uint64 \<Rightarrow> string" where
  "sub_id n = ''sub-'' @ nat_dec (unat n)"

text \<open>\<open>Subscribe\<close> returns a closure: the pointer to the variables it captures.\<close>

definition redis_Subscribe ::
    "('c, 'p) pubsub_client \<Rightarrow> string \<Rightarrow> ('c, 'p) redis_broker \<Rightarrow>
     ptr result \<times> ('c, 'p) redis_broker" where
  "redis_Subscribe P roomID b =
     (case ps_Subscribe P (channelName roomID) (rb_client b) of
        (pubsub, c1) \<Rightarrow>
          (case ps_Receive P pubsub c1 of
             (Some err, c2) \<Rightarrow> (Err err, b\<lparr>rb_client := snd (ps_Close P pubsub c2)\<rparr>)
           | (None, c2) \<Rightarrow>
               let n = rb_subIndex b + 1;
                   p = Ptr (rb_next b)
               in (Ok p,
                   b\<lparr>rb_client := c2, rb_subIndex := n,
                     rb_subs := (rb_subs b)(p \<mapsto> \<lparr>sub_pubsub = pubsub, sub_room = roomID, sub_key = sub_id n, sub_stopped = False\<rparr>),
                     rb_next := rb_next b + 1,
                     rb_closers := (rb_closers b)(sub_id n \<mapsto> p)\<rparr>)))"

text \<open>The inner \<open>unsubscribe\<close>: once, close \<open>stop\<close> and the PubSub.\<close>

definition unsubscribe_once ::
    "('c, 'p) pubsub_client \<Rightarrow> ptr \<Rightarrow> ('c, 'p) redis_broker \<Rightarrow>
     go_error option \<times> ('c, 'p) redis_broker" where
  "unsubscribe_once P p b =
     (case rb_subs b p of
        None \<Rightarrow> (None, b)
      | Some s \<Rightarrow>
          if sub_stopped s then (None, b)
          else (case ps_Close P (sub_pubsub s) (rb_client b) of
                  (err, c') \<Rightarrow>
                    (err, b\<lparr>rb_client := c', rb_subs := (rb_subs b)(p \<mapsto> s\<lparr>sub_stopped := True\<rparr>)\<rparr>)))"

text \<open>The closure returned to the caller: forget the closer, then unsubscribe.\<close>

definition redis_Unsubscribe ::
    "('c, 'p) pubsub_client \<Rightarrow> ptr \<Rightarrow> ('c, 'p) redis_broker \<Rightarrow>
     go_error option \<times> ('c, 'p) redis_broker" where
  "redis_Unsubscribe P p b =
     (case rb_subs b p of
        None \<Rightarrow> (None, b)
      | Some s \<Rightarrow> unsubscribe_once P p (b\<lparr>rb_closers := (rb_closers b)(sub_key s := None)\<rparr>))"

fun close_each ::
    "('c, 'p) pubsub_client \<Rightarrow> string list \<Rightarrow> go_error option \<Rightarrow> ('c, 'p) redis_broker \<Rightarrow>
     go_error option \<times> ('c, 'p) redis_broker" where
  "close_each P [] firstErr b = (firstErr, b)"
| "close_each P (i # ids) firstErr b =
     (case rb_closers b i of
        None \<Rightarrow> close_each P ids firstErr b
      | Some p \<Rightarrow>
          (case unsubscribe_once P p b of
             (err, b') \<Rightarrow>
               close_each P ids (first_err firstErr (map_option (ErrWrap i) err))
                 (b'\<lparr>rb_closers := (rb_closers b')(i := None)\<rparr>)))"

definition redis_Close ::
    "('c, 'p) pubsub_client \<Rightarrow> (string set \<Rightarrow> string list) \<Rightarrow> ('c, 'p) redis_broker \<Rightarrow>
     go_error option \<times> ('c, 'p) redis_broker" where
  "redis_Close P order b = close_each P (order (dom (rb_closers b))) None b"

definition redis_broker_ops ::
    "('c, 'p) pubsub_client \<Rightarrow> int \<Rightarrow> (string set \<Rightarrow> string list) \<Rightarrow>
     (('c, 'p) redis_broker, ptr) broker_ops" where
  "redis_broker_ops P zone order =
     \<lparr>Publish = redis_Publish P zone, Subscribe = redis_Subscribe P,
      Unsubscribe = redis_Unsubscribe P, Close_broker = redis_Close P order\<rparr>"

subsection \<open>The interface laws\<close>

text \<open>
  A subscription is live while its once has not run: until then its goroutine delivers.
\<close>

definition sub_live :: "('c, 'p) redis_broker \<Rightarrow> ptr \<Rightarrow> string option" where
  "sub_live b p =
     (case rb_subs b p of
        None \<Rightarrow> None
      | Some s \<Rightarrow> if sub_stopped s then None else Some (sub_room s))"

definition fresh_ptrs :: "('c, 'p) redis_broker \<Rightarrow> bool" where
  "fresh_ptrs b \<longleftrightarrow> (\<forall>p s. rb_subs b p = Some s \<longrightarrow> addr p < rb_next b)"

lemma fresh_next: "fresh_ptrs b \<Longrightarrow> rb_subs b (Ptr (rb_next b)) = None"
  by (cases "rb_subs b (Ptr (rb_next b))") (auto simp: fresh_ptrs_def)

lemma channelName_inj: "channelName r = channelName r' \<longleftrightarrow> r = r'"
  by (simp add: channelName_def)

lemma sub_id_inj: "sub_id m = sub_id n \<longleftrightarrow> m = n"
  by (simp add: sub_id_def nat_dec_inj word_unat_eq_iff)

lemma redis_Subscribe_Ok:
  assumes "redis_Subscribe P r b = (Ok h, b')" "fresh_ptrs b"
  shows "sub_live b h = None" "sub_live b' = (sub_live b)(h \<mapsto> r)" "fresh_ptrs b'"
    "\<exists>ps. rb_subs b' = (rb_subs b)(h \<mapsto> \<lparr>sub_pubsub = ps, sub_room = r,
        sub_key = sub_id (rb_subIndex b + 1), sub_stopped = False\<rparr>)"
    "rb_closers b' = (rb_closers b)(sub_id (rb_subIndex b + 1) \<mapsto> h)" "h = Ptr (rb_next b)"
    "rb_subIndex b' = rb_subIndex b + 1"
proof -
  obtain ps c1 c2 where c: "ps_Subscribe P (channelName r) (rb_client b) = (ps, c1)"
    "ps_Receive P ps c1 = (None, c2)"
    using assms(1) by (auto simp: redis_Subscribe_def split: prod.splits option.splits)
  have h: "h = Ptr (rb_next b)"
    and b': "b' = b\<lparr>rb_client := c2, rb_subIndex := rb_subIndex b + 1,
        rb_subs := (rb_subs b)(h \<mapsto> \<lparr>sub_pubsub = ps, sub_room = r,
          sub_key = sub_id (rb_subIndex b + 1), sub_stopped = False\<rparr>),
        rb_next := rb_next b + 1,
        rb_closers := (rb_closers b)(sub_id (rb_subIndex b + 1) \<mapsto> h)\<rparr>"
    using assms(1) c by (auto simp: redis_Subscribe_def Let_def)
  show "h = Ptr (rb_next b)" by (rule h)
  show "sub_live b h = None" using fresh_next [OF assms(2)] h by (simp add: sub_live_def)
  show "sub_live b' = (sub_live b)(h \<mapsto> r)" unfolding b' by (simp add: sub_live_def fun_eq_iff)
  show "fresh_ptrs b'" using assms(2) h unfolding b' by (auto simp: fresh_ptrs_def less_Suc_eq)
  show "\<exists>ps. rb_subs b' = (rb_subs b)(h \<mapsto> \<lparr>sub_pubsub = ps, sub_room = r,
      sub_key = sub_id (rb_subIndex b + 1), sub_stopped = False\<rparr>)" unfolding b' by auto
  show "rb_closers b' = (rb_closers b)(sub_id (rb_subIndex b + 1) \<mapsto> h)"
    "rb_subIndex b' = rb_subIndex b + 1" unfolding b' by simp_all
qed

lemma redis_Subscribe_Err:
  assumes "redis_Subscribe P r b = (Err e, b')"
  shows "sub_live b' = sub_live b" "fresh_ptrs b' \<longleftrightarrow> fresh_ptrs b" "rb_closers b' = rb_closers b"
    "rb_subIndex b' = rb_subIndex b" "rb_subs b' = rb_subs b"
  using assms
  by (auto simp: redis_Subscribe_def Let_def sub_live_def fun_eq_iff fresh_ptrs_def
      split: prod.splits option.splits)

text \<open>Running the once of a subscription marks it as stopped and changes no other.\<close>

definition stop_sub :: "ptr \<Rightarrow> (ptr \<rightharpoonup> 'p subscription) \<Rightarrow> (ptr \<rightharpoonup> 'p subscription)" where
  "stop_sub p subs = subs(p := map_option (\<lambda>s. s\<lparr>sub_stopped := True\<rparr>) (subs p))"

lemma unsubscribe_once_subs:
  assumes "unsubscribe_once P p b = (err, b')"
  shows "rb_subs b' = stop_sub p (rb_subs b)" "rb_closers b' = rb_closers b"
    "rb_subIndex b' = rb_subIndex b" "rb_next b' = rb_next b"
proof -
  have "rb_subs b' = stop_sub p (rb_subs b) \<and> rb_closers b' = rb_closers b \<and>
    rb_subIndex b' = rb_subIndex b \<and> rb_next b' = rb_next b"
  proof (cases "rb_subs b p")
    case None
    with assms show ?thesis by (auto simp: unsubscribe_once_def stop_sub_def)
  next
    case (Some s)
    with assms show ?thesis
      by (cases s) (auto simp: unsubscribe_once_def stop_sub_def split: if_splits prod.splits)
  qed
  then show "rb_subs b' = stop_sub p (rb_subs b)" "rb_closers b' = rb_closers b"
    "rb_subIndex b' = rb_subIndex b" "rb_next b' = rb_next b" by simp_all
qed

lemma sub_live_stop: "rb_subs b' = stop_sub p (rb_subs b) \<Longrightarrow> sub_live b' = (sub_live b)(p := None)"
  by (auto simp: sub_live_def stop_sub_def fun_eq_iff split: option.splits)

lemma fresh_stop:
  "rb_subs b' = stop_sub p (rb_subs b) \<Longrightarrow> rb_next b' = rb_next b \<Longrightarrow> fresh_ptrs b \<Longrightarrow> fresh_ptrs b'"
  by (auto simp: fresh_ptrs_def stop_sub_def split: if_splits)

lemma redis_Unsubscribe_effect:
  assumes "redis_Unsubscribe P p b = (err, b')"
  shows "rb_subs b' = stop_sub p (rb_subs b)" "rb_next b' = rb_next b"
    "rb_subIndex b' = rb_subIndex b"
    "rb_closers b' =
      (case rb_subs b p of None \<Rightarrow> rb_closers b | Some s \<Rightarrow> (rb_closers b)(sub_key s := None))"
  using assms unsubscribe_once_subs [of P p]
  by (auto simp: redis_Unsubscribe_def stop_sub_def split: option.splits)

lemma close_each_effect:
  assumes "close_each P ids firstErr b = (err, b')"
  shows "sub_live b' \<subseteq>\<^sub>m sub_live b \<and> (fresh_ptrs b \<longrightarrow> fresh_ptrs b') \<and>
    rb_closers b' = (rb_closers b) |` (- set ids) \<and>
    (\<forall>i \<in> set ids. \<forall>p. rb_closers b i = Some p \<longrightarrow> sub_live b' p = None)"
  using assms
proof (induction ids arbitrary: firstErr b)
  case Nil
  then show ?case by simp
next
  case (Cons i ids)
  show ?case
  proof (cases "rb_closers b i")
    case None
    with Cons.prems Cons.IH have "sub_live b' \<subseteq>\<^sub>m sub_live b \<and> (fresh_ptrs b \<longrightarrow> fresh_ptrs b') \<and>
      rb_closers b' = (rb_closers b) |` (- set ids) \<and>
      (\<forall>i \<in> set ids. \<forall>p. rb_closers b i = Some p \<longrightarrow> sub_live b' p = None)" by simp
    with None show ?thesis by (auto simp: restrict_map_def fun_eq_iff)
  next
    case (Some p)
    obtain e b1 where u: "unsubscribe_once P p b = (e, b1)" by fastforce
    note us = unsubscribe_once_subs [OF u]
    note ue = sub_live_stop [OF us(1)] fresh_stop [OF us(1,4)] us(2)
    define b2 where "b2 = b1\<lparr>rb_closers := (rb_closers b1)(i := None)\<rparr>"
    have b2: "sub_live b2 = sub_live b1" "fresh_ptrs b2 \<longleftrightarrow> fresh_ptrs b1"
      "rb_closers b2 = (rb_closers b1)(i := None)"
      by (simp_all add: b2_def sub_live_def fresh_ptrs_def fun_eq_iff)
    from Cons.prems Some u obtain f where "close_each P ids f b2 = (err, b')"
      by (simp add: b2_def)
    note ih = Cons.IH [OF this]
    have dead: "sub_live b' q = None" if "sub_live b q = None \<or> q = p" for q
    proof -
      have "sub_live b2 q = None" using that b2(1) ue(1) by auto
      then show ?thesis using ih by (metis domIff map_le_def)
    qed
    have "sub_live b' \<subseteq>\<^sub>m sub_live b"
    proof (rule map_le_trans)
      show "sub_live b' \<subseteq>\<^sub>m sub_live b2" using ih by blast
      show "sub_live b2 \<subseteq>\<^sub>m sub_live b" using b2(1) ue(1) by (simp add: map_le_def)
    qed
    moreover have "rb_closers b' = (rb_closers b) |` (- set (i # ids))"
      using ih b2(3) ue(3) by (auto simp: restrict_map_def fun_eq_iff)
    moreover have "\<forall>j \<in> set (i # ids). \<forall>q. rb_closers b j = Some q \<longrightarrow> sub_live b' q = None"
    proof (intro ballI allI impI)
      fix j q assume j: "j \<in> set (i # ids)" "rb_closers b j = Some q"
      show "sub_live b' q = None"
      proof (cases "j = i")
        case True
        with j Some show ?thesis using dead by simp
      next
        case False
        with j ih b2(3) ue(3) show ?thesis by auto
      qed
    qed
    ultimately show ?thesis using ih b2(2) ue(2) by blast
  qed
qed

interpretation redis_broker: broker_iface "redis_broker_ops P zone order" sub_live fresh_ptrs
  for P :: "('c, 'p) pubsub_client" and zone :: int and order :: "string set \<Rightarrow> string list"
proof
  fix b b' :: "('c, 'p) redis_broker" and r h
  assume "fresh_ptrs b" "Subscribe (redis_broker_ops P zone order) r b = (Ok h, b')"
  with redis_Subscribe_Ok [of P r b h b']
  show "sub_live b h = None \<and> sub_live b' = (sub_live b)(h \<mapsto> r) \<and> fresh_ptrs b'"
    by (simp add: redis_broker_ops_def)
next
  fix b b' :: "('c, 'p) redis_broker" and r e
  assume "fresh_ptrs b" "Subscribe (redis_broker_ops P zone order) r b = (Err e, b')"
  with redis_Subscribe_Err [of P r b e b'] show "sub_live b' = sub_live b \<and> fresh_ptrs b'"
    by (simp add: redis_broker_ops_def)
next
  fix b b' :: "('c, 'p) redis_broker" and h err
  assume f: "fresh_ptrs b" and "Unsubscribe (redis_broker_ops P zone order) h b = (err, b')"
  then have u: "redis_Unsubscribe P h b = (err, b')" by (simp add: redis_broker_ops_def)
  show "sub_live b' = (sub_live b)(h := None) \<and> fresh_ptrs b'"
    using sub_live_stop [OF redis_Unsubscribe_effect(1) [OF u]]
      fresh_stop [OF redis_Unsubscribe_effect(1,2) [OF u] f] by simp
next
  fix b b' :: "('c, 'p) redis_broker" and msg err
  assume "fresh_ptrs b" "Publish (redis_broker_ops P zone order) msg b = (err, b')"
  then show "sub_live b' = sub_live b \<and> fresh_ptrs b'"
    by (auto simp: redis_broker_ops_def redis_Publish_def sub_live_def fresh_ptrs_def fun_eq_iff
        split: sum.splits prod.splits)
next
  fix b b' :: "('c, 'p) redis_broker" and err
  assume "fresh_ptrs b" "Close_broker (redis_broker_ops P zone order) b = (err, b')"
  with close_each_effect show "sub_live b' \<subseteq>\<^sub>m sub_live b \<and> fresh_ptrs b'"
    by (fastforce simp: redis_broker_ops_def redis_Close_def)
qed

subsection \<open>Closing the broker\<close>

text \<open>
  The broker keeps a closer for every subscription that is still live, under an id of its own.
  The ids are numbered by a 64-bit counter, so they stay distinct until it wraps around.
\<close>

definition tracked :: "('c, 'p) redis_broker \<Rightarrow> bool" where
  "tracked b \<longleftrightarrow>
     (\<forall>p s. rb_subs b p = Some s \<longrightarrow>
        (\<exists>n. sub_key s = sub_id n \<and> unat n \<le> unat (rb_subIndex b)) \<and>
        (\<not> sub_stopped s \<longrightarrow> rb_closers b (sub_key s) = Some p)) \<and>
     (\<forall>p q s t. rb_subs b p = Some s \<longrightarrow> rb_subs b q = Some t \<longrightarrow> sub_key s = sub_key t \<longrightarrow> p = q)"

lemma tracked_new: "tracked (NewRedisPubSubBroker c)" "fresh_ptrs (NewRedisPubSubBroker c)"
  by (simp_all add: tracked_def fresh_ptrs_def NewRedisPubSubBroker_def)

lemma unat_Suc_64: "unat (n :: uint64) < 2 ^ 64 - 1 \<Longrightarrow> unat (n + 1) = Suc (unat n)"
  by (simp add: unat_word_ariths unat_of_nat)

lemma tracked_Subscribe:
  assumes tr: "tracked b" and fr: "fresh_ptrs b" and room: "unat (rb_subIndex b) < 2 ^ 64 - 1"
    and sub: "redis_Subscribe P r b = (res, b')"
  shows "tracked b'"
proof (cases res)
  case (Inl e)
  with sub redis_Subscribe_Err [of P r b e b'] tr show ?thesis by (simp add: tracked_def)
next
  case (Inr h)
  with sub have s: "redis_Subscribe P r b = (Ok h, b')" by simp
  note e = redis_Subscribe_Ok [OF s fr]
  note su = unat_Suc_64 [OF room]
  have new_key: "sub_key t \<noteq> sub_id (rb_subIndex b + 1)" if qt: "rb_subs b q = Some t" for q t
  proof -
    obtain n where "sub_key t = sub_id n" "unat n \<le> unat (rb_subIndex b)"
      using tr qt unfolding tracked_def by blast
    with su show ?thesis by (auto simp: sub_id_inj)
  qed
  obtain ps where subs: "rb_subs b' = (rb_subs b)(h \<mapsto> \<lparr>sub_pubsub = ps, sub_room = r,
      sub_key = sub_id (rb_subIndex b + 1), sub_stopped = False\<rparr>)" using e(4) by blast
  have old: "(\<exists>n. sub_key t = sub_id n \<and> unat n \<le> unat (rb_subIndex b + 1)) \<and>
      (\<not> sub_stopped t \<longrightarrow> rb_closers b' (sub_key t) = Some q)" if "rb_subs b q = Some t" for q t
  proof -
    have "\<exists>n. sub_key t = sub_id n \<and> unat n \<le> unat (rb_subIndex b)"
      "\<not> sub_stopped t \<longrightarrow> rb_closers b (sub_key t) = Some q"
      using tr that unfolding tracked_def by blast+
    with new_key [OF that] e(5) su show ?thesis by fastforce
  qed
  have "rb_closers b' (sub_id (rb_subIndex b + 1)) = Some h" using e(5) by simp
  moreover have "unat (rb_subIndex b + 1) \<le> unat (rb_subIndex b')" using e(7) by simp
  ultimately show ?thesis
    using tr old new_key e(7) unfolding tracked_def subs
    by (auto split: if_splits) metis+
qed

lemma tracked_stop:
  assumes tr: "tracked b" and subs: "rb_subs b' = stop_sub p (rb_subs b)"
    and idx: "rb_subIndex b' = rb_subIndex b"
    and cl: "\<And>q s. q \<noteq> p \<Longrightarrow> rb_subs b q = Some s \<Longrightarrow> \<not> sub_stopped s \<Longrightarrow>
      rb_closers b' (sub_key s) = Some q"
  shows "tracked b'"
proof -
  have new: "\<exists>s. rb_subs b q = Some s \<and> sub_key s = sub_key t \<and> (\<not> sub_stopped t \<longrightarrow> q \<noteq> p \<and> s = t)"
    if "rb_subs b' q = Some t" for q t
    using that subs by (auto simp: stop_sub_def split: if_splits)
  show ?thesis
    unfolding tracked_def
  proof (intro conjI allI impI)
    fix q t assume t: "rb_subs b' q = Some t"
    then obtain s where s: "rb_subs b q = Some s" "sub_key s = sub_key t"
      "\<not> sub_stopped t \<longrightarrow> q \<noteq> p \<and> s = t" using new by blast
    show "\<exists>n. sub_key t = sub_id n \<and> unat n \<le> unat (rb_subIndex b')"
      using tr s idx unfolding tracked_def by metis
    assume "\<not> sub_stopped t"
    with s cl [of q s] show "rb_closers b' (sub_key t) = Some q" by auto
  next
    fix q q' t t'
    assume t: "rb_subs b' q = Some t" "rb_subs b' q' = Some t'" "sub_key t = sub_key t'"
    with new [OF t(1)] new [OF t(2)] tr show "q = q'" unfolding tracked_def by metis
  qed
qed

lemma tracked_Unsubscribe:
  assumes tr: "tracked b" and u: "redis_Unsubscribe P p b = (err, b')"
  shows "tracked b'"
proof (rule tracked_stop [OF tr redis_Unsubscribe_effect(1) [OF u] redis_Unsubscribe_effect(3) [OF u]])
  fix q s assume q: "q \<noteq> p" "rb_subs b q = Some s" "\<not> sub_stopped s"
  have "rb_closers b (sub_key s) = Some q" using tr q unfolding tracked_def by blast
  moreover have "sub_key t \<noteq> sub_key s" if "rb_subs b p = Some t" for t
    using tr q that unfolding tracked_def by metis
  ultimately show "rb_closers b' (sub_key s) = Some q"
    unfolding redis_Unsubscribe_effect(4) [OF u] by (auto split: option.splits)
qed

lemma tracked_Publish:
  "tracked b \<Longrightarrow> redis_Publish P zone msg b = (err, b') \<Longrightarrow> tracked b'"
  by (auto simp: redis_Publish_def tracked_def split: sum.splits prod.splits)

lemma redis_Close_closers:
  assumes "map_range order" "finite (dom (rb_closers b))" "redis_Close P order b = (err, b')"
  shows "rb_closers b' = Map.empty"
proof -
  have c: "close_each P (order (dom (rb_closers b))) None b = (err, b')"
    using assms(3) by (simp add: redis_Close_def)
  from close_each_effect [OF c, unfolded map_range.range_set [OF assms(1,2)]]
  show ?thesis by (auto simp: restrict_map_def fun_eq_iff)
qed

lemma redis_Close_live:
  assumes "map_range order" "tracked b" "finite (dom (rb_closers b))"
    and "redis_Close P order b = (err, b')"
  shows "sub_live b' = Map.empty"
proof
  fix p
  have c: "close_each P (order (dom (rb_closers b))) None b = (err, b')"
    using assms(4) by (simp add: redis_Close_def)
  note e = close_each_effect [OF c, unfolded map_range.range_set [OF assms(1,3)]]
  show "sub_live b' p = None"
  proof (cases "sub_live b p")
    case None
    with e show ?thesis by (metis domIff map_le_def)
  next
    case (Some r)
    then obtain s where "rb_subs b p = Some s" "\<not> sub_stopped s"
      by (auto simp: sub_live_def split: option.splits if_splits)
    with assms(2) have "rb_closers b (sub_key s) = Some p" unfolding tracked_def by blast
    with e show ?thesis by blast
  qed
qed

text \<open>
  Closing the broker ends every subscription that is still live and empties its table of
  closers, whatever order the runtime visits the table in and whatever errors the library
  reports on the way.
\<close>

lemma redis_Close_ends_all:
  assumes "map_range order" "tracked b" "finite (dom (rb_closers b))"
    and "redis_Close P order b = (err, b')"
  shows "sub_live b' = Map.empty \<and> rb_closers b' = Map.empty"
  using redis_Close_live [OF assms] redis_Close_closers [OF assms(1,3,4)] by simp

text \<open>A client library for the examples: it counts its calls and never fails.\<close>

definition demo_pubsub :: "(nat, nat) pubsub_client" where
  "demo_pubsub =
     \<lparr>ps_Publish = (\<lambda>ch payload c. (None, c + 1)), ps_Subscribe = (\<lambda>ch c. (c, c + 1)),
      ps_Receive = (\<lambda>p c. (None, c)), ps_Close = (\<lambda>p c. (None, c))\<rparr>"

definition demo_broker :: "(nat, nat) redis_broker" where
  "demo_broker = snd (redis_Subscribe demo_pubsub ''r1'' (NewRedisPubSubBroker 0))"

lemma demo_subscribe:
  "redis_Subscribe demo_pubsub ''r1'' (NewRedisPubSubBroker 0) = (Ok (Ptr 0), demo_broker)"
  by (simp add: demo_broker_def redis_Subscribe_def demo_pubsub_def NewRedisPubSubBroker_def Let_def)

lemma demo_broker_tracked: "tracked demo_broker" "fresh_ptrs demo_broker"
proof -
  have "unat (rb_subIndex (NewRedisPubSubBroker (0::nat) :: (nat, nat) redis_broker)) < 2 ^ 64 - 1"
    by (simp add: NewRedisPubSubBroker_def)
  from tracked_Subscribe [OF tracked_new this demo_subscribe] show "tracked demo_broker" .
  from redis_Subscribe_Ok(3) [OF demo_subscribe tracked_new(2)] show "fresh_ptrs demo_broker" .
qed

lemma ascending_string: "map_range (sorted_list_of_set :: string set \<Rightarrow> string list)"
  by unfold_locales simp_all

text \<open>
  The function a subscription returns may be called any number of times: the first call
  ends the subscription and forgets its closer, a later call closes nothing and reports no
  error.
\<close>

lemma redis_Unsubscribe_idempotent:
  assumes "redis_Unsubscribe P h b = (err, b')"
  shows "sub_live b' h = None \<and> fst (redis_Unsubscribe P h b') = None \<and>
    rb_client (snd (redis_Unsubscribe P h b')) = rb_client b'"
proof -
  have subs: "rb_subs b' = stop_sub h (rb_subs b)" by (rule redis_Unsubscribe_effect(1) [OF assms])
  have "fst (redis_Unsubscribe P h b') = None \<and>
    rb_client (snd (redis_Unsubscribe P h b')) = rb_client b'"
  proof (cases "rb_subs b h")
    case None
    with subs show ?thesis by (simp add: redis_Unsubscribe_def stop_sub_def)
  next
    case (Some s)
    with subs have "rb_subs b' h = Some (s\<lparr>sub_stopped := True\<rparr>)" by (simp add: stop_sub_def)
    then show ?thesis by (simp add: redis_Unsubscribe_def unsubscribe_once_def)
  qed
  with sub_live_stop [OF subs] show ?thesis by simp
qed

lemma redis_Unsubscribe_idempotent_example:
  "\<exists>err b'. redis_Unsubscribe demo_pubsub (Ptr 0) demo_broker = (err, b') \<and>
     sub_live b' (Ptr 0) = None \<and> fst (redis_Unsubscribe demo_pubsub (Ptr 0) b') = None"
proof -
  obtain err b' where u: "redis_Unsubscribe demo_pubsub (Ptr 0) demo_broker = (err, b')" by fastforce
  with redis_Unsubscribe_idempotent [OF u] show ?thesis by blast
qed

section \<open>The goroutine of a subscription\<close>

text \<open>
  The goroutine selects between the closed \<open>stop\<close> channel, the end of its context, and the
  channel of incoming messages; when several are ready the runtime picks any of them. Its
  behaviour is a function of the sequence of branches taken.
\<close>

datatype sub_event = StopSeen | CtxDone | Incoming string | ChannelClosed

definition sub_branch :: "sub_event \<Rightarrow> bool \<times> broadcast_message list \<Rightarrow> bool \<times> broadcast_message list" where
  "sub_branch e st =
     (case st of
        (running, handled) \<Rightarrow>
          if \<not> running then st
          else (case e of
                  StopSeen \<Rightarrow> (False, handled)
                | CtxDone \<Rightarrow> (False, handled)
                | ChannelClosed \<Rightarrow> (False, handled)
                | Incoming payload \<Rightarrow>
                    (case unmarshal_broadcast payload of
                       Inl _ \<Rightarrow> (True, handled)
                     | Inr m \<Rightarrow> (True, handled @ [m]))))"

definition sub_loop :: "sub_event list \<Rightarrow> bool \<times> broadcast_message list" where
  "sub_loop es = foldl (\<lambda>st e. sub_branch e st) (True, []) es"

definition is_incoming :: "sub_event \<Rightarrow> bool" where
  "is_incoming e \<longleftrightarrow> (case e of Incoming _ \<Rightarrow> True | _ \<Rightarrow> False)"

definition decoded :: "sub_event \<Rightarrow> broadcast_message option" where
  "decoded e =
     (case e of
        Incoming payload \<Rightarrow> (case unmarshal_broadcast payload of Inl _ \<Rightarrow> None | Inr m \<Rightarrow> Some m)
      | _ \<Rightarrow> None)"

lemma sub_branch_simps:
  "sub_branch e (False, ms) = (False, ms)"
  "\<not> is_incoming e \<Longrightarrow> sub_branch e (True, ms) = (False, ms)"
  "sub_branch (Incoming p) (True, ms) =
     (True, ms @ (case decoded (Incoming p) of None \<Rightarrow> [] | Some m \<Rightarrow> [m]))"
  by (auto simp: sub_branch_def is_incoming_def decoded_def split: sub_event.splits sum.splits)

lemma sub_branch_stopped: "foldl (\<lambda>st e. sub_branch e st) (False, ms) es = (False, ms)"
  by (induction es) (simp_all add: sub_branch_simps)

lemma sub_loop_from:
  "foldl (\<lambda>st e. sub_branch e st) (True, ms) es =
     (list_all is_incoming es, ms @ List.map_filter (decoded) (takeWhile is_incoming es))"
proof (induction es arbitrary: ms)
  case Nil
  then show ?case by (simp add: List.map_filter_simps)
next
  case (Cons e es)
  show ?case
  proof (cases "is_incoming e")
    case True
    then obtain p where "e = Incoming p" by (auto simp: is_incoming_def split: sub_event.splits)
    with Cons True show ?thesis
      by (simp add: sub_branch_simps List.map_filter_simps split: option.split)
  next
    case False
    then show ?thesis by (simp add: sub_branch_simps sub_branch_stopped List.map_filter_simps)
  qed
qed

text \<open>
  A subscription hands its handler, once and in order of arrival, every message that
  decodes among those it receives before it stops; a message that does not decode is skipped
  and does not end the subscription, and it stops only when asked to or when its channel ends.
\<close>

lemma sub_loop_handles:
  "sub_loop es =
     (list_all is_incoming es, List.map_filter (decoded) (takeWhile is_incoming es))"
  by (simp add: sub_loop_def sub_loop_from)

end
