(* ===== verification/Config.thy ===== *)
theory Config
  imports Go_Duration
begin

text \<open>
  internal/config/config.go: the configuration read from the environment. \<open>os.Getenv\<close> is an
  environment function that gives the empty string for an unset variable.
\<close>

type_synonym environment = "string \<Rightarrow> string"

record server_config =
  cfg_HTTPAddr :: string
  cfg_NodeID :: string
  cfg_ReadBufferSize :: int64
  cfg_WriteBufferSize :: int64
  cfg_WriteWait :: duration
  cfg_PongWait :: duration
  cfg_PingPeriod :: duration
  cfg_MaxMessageSizeByte :: int64

record mysql_config =
  cfg_DSN :: string
  cfg_MaxOpenConns :: int64
  cfg_MaxIdleConns :: int64
  cfg_MaxLifeTime :: duration

record redis_config =
  cfg_Addr :: string
  cfg_Password :: string
  cfg_DB :: int64

record auth_config =
  cfg_JWTSecret :: string
  cfg_TokenTTL :: duration

record limit_config =
  cfg_UserCount :: int64
  cfg_UserWindow :: duration
  cfg_IPCount :: int64
  cfg_IPWindow :: duration
  cfg_RoomCount :: int64
  cfg_RoomWindow :: duration

record config =
  cfg_Server :: server_config
  cfg_MySQL :: mysql_config
  cfg_Redis :: redis_config
  cfg_Auth :: auth_config
  cfg_Limit :: limit_config

definition getEnv :: "environment \<Rightarrow> string \<Rightarrow> string \<Rightarrow> string" where
  "getEnv env key fallback = (let v = env key in if v = [] then fallback else v)"

definition getEnvInt :: "environment \<Rightarrow> string \<Rightarrow> int64 \<Rightarrow> int64" where
  "getEnvInt env key fallback =
     (let v = env key in
      if v = [] then fallback
      else case strconv_Atoi v of None \<Rightarrow> fallback | Some n \<Rightarrow> n)"

definition getEnvInt64 :: "environment \<Rightarrow> string \<Rightarrow> int64 \<Rightarrow> int64" where
  "getEnvInt64 env key fallback =
     (let v = env key in
      if v = [] then fallback
      else case strconv_ParseInt64 v of None \<Rightarrow> fallback | Some n \<Rightarrow> n)"

definition getEnvDuration :: "environment \<Rightarrow> string \<Rightarrow> duration \<Rightarrow> duration" where
  "getEnvDuration env key fallback =
     (let v = env key in
      if v = [] then fallback
      else case ParseDuration v of None \<Rightarrow> fallback | Some d \<Rightarrow> d)"

definition Load :: "environment \<Rightarrow> config result" where
  "Load env =
     (let dur = getEnvDuration env;
          cfg =
            \<lparr>cfg_Server =
               \<lparr>cfg_HTTPAddr = getEnv env ''HTTP_ADDR'' '':8080'',
                cfg_NodeID = getEnv env ''NODE_ID'' ''node-1'',
                cfg_ReadBufferSize = getEnvInt env ''WS_READ_BUFFER_SIZE'' 1024,
                cfg_WriteBufferSize = getEnvInt env ''WS_WRITE_BUFFER_SIZE'' 1024,
                cfg_WriteWait = dur ''WS_WRITE_WAIT'' (seconds 10),
                cfg_PongWait = dur ''WS_PONG_WAIT'' (seconds 60),
                cfg_PingPeriod = dur ''WS_PING_PERIOD'' (seconds 50),
                cfg_MaxMessageSizeByte = getEnvInt64 env ''WS_MAX_MESSAGE_SIZE'' 4096\<rparr>,
             cfg_MySQL =
               \<lparr>cfg_DSN = env ''MYSQL_DSN'',
                cfg_MaxOpenConns = getEnvInt env ''MYSQL_MAX_OPEN_CONNS'' 20,
                cfg_MaxIdleConns = getEnvInt env ''MYSQL_MAX_IDLE_CONNS'' 10,
                cfg_MaxLifeTime = dur ''MYSQL_CONN_MAX_LIFETIME'' (seconds (30 * 60))\<rparr>,
             cfg_Redis =
               \<lparr>cfg_Addr = getEnv env ''REDIS_ADDR'' ''127.0.0.1:6379'',
                cfg_Password = env ''REDIS_PASSWORD'',
                cfg_DB = getEnvInt env ''REDIS_DB'' 0\<rparr>,
             cfg_Auth =
               \<lparr>cfg_JWTSecret = getEnv env ''JWT_SECRET'' ''change-me-in-production'',
                cfg_TokenTTL = dur ''JWT_TOKEN_TTL'' (hours 24)\<rparr>,
             cfg_Limit =
               \<lparr>cfg_UserCount = getEnvInt env ''LIMIT_USER_COUNT'' 5,
                cfg_UserWindow = dur ''LIMIT_USER_WINDOW'' (seconds 3),
                cfg_IPCount = getEnvInt env ''LIMIT_IP_COUNT'' 20,
                cfg_IPWindow = dur ''LIMIT_IP_WINDOW'' (seconds 3),
                cfg_RoomCount = getEnvInt env ''LIMIT_ROOM_COUNT'' 200,
                cfg_RoomWindow = dur ''LIMIT_ROOM_WINDOW'' (seconds 1)\<rparr>\<rparr>
      in if cfg_DSN (cfg_MySQL cfg) = [] then Err (ErrMsg ''MYSQL_DSN is required'') else Ok cfg)"

lemma Load_limits:
  assumes "Load env = Ok cfg"
  shows "cfg_Limit cfg =
    \<lparr>cfg_UserCount = getEnvInt env ''LIMIT_USER_COUNT'' 5,
     cfg_UserWindow = getEnvDuration env ''LIMIT_USER_WINDOW'' (seconds 3),
     cfg_IPCount = getEnvInt env ''LIMIT_IP_COUNT'' 20,
     cfg_IPWindow = getEnvDuration env ''LIMIT_IP_WINDOW'' (seconds 3),
     cfg_RoomCount = getEnvInt env ''LIMIT_ROOM_COUNT'' 200,
     cfg_RoomWindow = getEnvDuration env ''LIMIT_ROOM_WINDOW'' (seconds 1)\<rparr>"
proof (cases "env ''MYSQL_DSN'' = []")
  case True
  with assms show ?thesis by (simp add: Load_def Let_def)
next
  case False
  with assms show ?thesis by (simp add: Load_def Let_def) (drule sym, simp)
qed

lemma Load_Ok: "env ''MYSQL_DSN'' \<noteq> [] \<Longrightarrow> \<exists>cfg. Load env = Ok cfg"
  by (simp add: Load_def Let_def)

lemma Load_times:
  assumes "Load env = Ok cfg"
  shows "cfg_PingPeriod (cfg_Server cfg) = getEnvDuration env ''WS_PING_PERIOD'' (seconds 50)"
    "cfg_PongWait (cfg_Server cfg) = getEnvDuration env ''WS_PONG_WAIT'' (seconds 60)"
  using assms by (auto simp: Load_def Let_def split: if_splits)

text \<open>The defaults of the limits are valid for the limiter.\<close>

definition limit_ok :: "limit_config \<Rightarrow> bool" where
  "limit_ok c \<longleftrightarrow>
     (\<forall>n \<in> {cfg_UserCount c, cfg_IPCount c, cfg_RoomCount c}. 0 < sint n \<and> sint n \<le> 2 ^ 53) \<and>
     (\<forall>w \<in> {cfg_UserWindow c, cfg_IPWindow c, cfg_RoomWindow c}. 0 < sint (duration_Milliseconds w))"

lemma sint_seconds:
  "0 \<le> n \<Longrightarrow> n \<le> 9223372036 \<Longrightarrow> sint (seconds n) = n * ns_per_s"
  unfolding seconds_def
  by (rule sint_of_int64) (simp_all add: ns_per_s_def min_int64_def max_int64_def)

lemma seconds_ms: "0 < n \<Longrightarrow> n \<le> 9223372036 \<Longrightarrow> 0 < sint (duration_Milliseconds (seconds n))"
  by (simp add: Milliseconds_pos sint_seconds ns_per_ms_def ns_per_s_def)

text \<open>
  Loading fails exactly when no MySQL data source is set. When it succeeds and none of the
  limit variables is set, the limits are the documented defaults, and the limiter accepts them.
\<close>

lemma Load_defaults:
  "((\<exists>e. Load env = Err e) = (env ''MYSQL_DSN'' = [])) \<and>
   (Load env = Ok cfg \<longrightarrow> (\<forall>k. prefix ''LIMIT_'' k \<longrightarrow> env k = []) \<longrightarrow>
      cfg_Limit cfg = \<lparr>cfg_UserCount = 5, cfg_UserWindow = seconds 3, cfg_IPCount = 20,
        cfg_IPWindow = seconds 3, cfg_RoomCount = 200, cfg_RoomWindow = seconds 1\<rparr> \<and>
      limit_ok (cfg_Limit cfg))"
proof (intro conjI impI)
  show "(\<exists>e. Load env = Err e) = (env ''MYSQL_DSN'' = [])" by (simp add: Load_def Let_def)
next
  assume a: "Load env = Ok cfg" "\<forall>k. prefix ''LIMIT_'' k \<longrightarrow> env k = []"
  have "env ''LIMIT_USER_COUNT'' = []" "env ''LIMIT_USER_WINDOW'' = []" "env ''LIMIT_IP_COUNT'' = []"
    "env ''LIMIT_IP_WINDOW'' = []" "env ''LIMIT_ROOM_COUNT'' = []" "env ''LIMIT_ROOM_WINDOW'' = []"
    by (rule a(2) [rule_format], simp)+
  then show l: "cfg_Limit cfg = \<lparr>cfg_UserCount = 5, cfg_UserWindow = seconds 3, cfg_IPCount = 20,
      cfg_IPWindow = seconds 3, cfg_RoomCount = 200, cfg_RoomWindow = seconds 1\<rparr>"
    by (simp add: Load_limits [OF a(1)] getEnvInt_def getEnvDuration_def)
  show "limit_ok (cfg_Limit cfg)" by (simp add: l limit_ok_def seconds_ms)
qed

lemma Load_defaults_example:
  "(\<exists>e. Load (\<lambda>_. []) = Err e) \<and>
   (\<exists>cfg. Load (\<lambda>k. if k = ''MYSQL_DSN'' then ''dsn'' else []) = Ok cfg \<and>
      cfg_UserCount (cfg_Limit cfg) = 5 \<and> limit_ok (cfg_Limit cfg))"
proof -
  let ?env = "\<lambda>k. if k = ''MYSQL_DSN'' then ''dsn'' else []"
  obtain cfg where c: "Load ?env = Ok cfg" using Load_defaults [of ?env] by (cases "Load ?env") auto
  moreover have "\<forall>k. prefix ''LIMIT_'' k \<longrightarrow> ?env k = []" by (auto simp: prefix_def)
  ultimately show ?thesis using Load_defaults [of "\<lambda>_. []"] Load_defaults [of ?env cfg] by auto
qed

text \<open>
  The environment that spells out a configuration: numbers in decimal, durations as
  \<open>Duration.String\<close> prints them.
\<close>

definition config_env :: "config \<Rightarrow> environment" where
  "config_env cfg k =
     (case map_of
        [(''HTTP_ADDR'', cfg_HTTPAddr (cfg_Server cfg)),
         (''NODE_ID'', cfg_NodeID (cfg_Server cfg)),
         (''WS_READ_BUFFER_SIZE'', int_dec (sint (cfg_ReadBufferSize (cfg_Server cfg)))),
         (''WS_WRITE_BUFFER_SIZE'', int_dec (sint (cfg_WriteBufferSize (cfg_Server cfg)))),
         (''WS_WRITE_WAIT'', duration_String (cfg_WriteWait (cfg_Server cfg))),
         (''WS_PONG_WAIT'', duration_String (cfg_PongWait (cfg_Server cfg))),
         (''WS_PING_PERIOD'', duration_String (cfg_PingPeriod (cfg_Server cfg))),
         (''WS_MAX_MESSAGE_SIZE'', int_dec (sint (cfg_MaxMessageSizeByte (cfg_Server cfg)))),
         (''MYSQL_DSN'', cfg_DSN (cfg_MySQL cfg)),
         (''MYSQL_MAX_OPEN_CONNS'', int_dec (sint (cfg_MaxOpenConns (cfg_MySQL cfg)))),
         (''MYSQL_MAX_IDLE_CONNS'', int_dec (sint (cfg_MaxIdleConns (cfg_MySQL cfg)))),
         (''MYSQL_CONN_MAX_LIFETIME'', duration_String (cfg_MaxLifeTime (cfg_MySQL cfg))),
         (''REDIS_ADDR'', cfg_Addr (cfg_Redis cfg)),
         (''REDIS_PASSWORD'', cfg_Password (cfg_Redis cfg)),
         (''REDIS_DB'', int_dec (sint (cfg_DB (cfg_Redis cfg)))),
         (''JWT_SECRET'', cfg_JWTSecret (cfg_Auth cfg)),
         (''JWT_TOKEN_TTL'', duration_String (cfg_TokenTTL (cfg_Auth cfg))),
         (''LIMIT_USER_COUNT'', int_dec (sint (cfg_UserCount (cfg_Limit cfg)))),
         (''LIMIT_USER_WINDOW'', duration_String (cfg_UserWindow (cfg_Limit cfg))),
         (''LIMIT_IP_COUNT'', int_dec (sint (cfg_IPCount (cfg_Limit cfg)))),
         (''LIMIT_IP_WINDOW'', duration_String (cfg_IPWindow (cfg_Limit cfg))),
         (''LIMIT_ROOM_COUNT'', int_dec (sint (cfg_RoomCount (cfg_Limit cfg)))),
         (''LIMIT_ROOM_WINDOW'', duration_String (cfg_RoomWindow (cfg_Limit cfg)))] k
      of None \<Rightarrow> [] | Some v \<Rightarrow> v)"

text \<open>What each variable holds.\<close>

lemma config_env_values:
  "config_env cfg ''HTTP_ADDR'' = cfg_HTTPAddr (cfg_Server cfg)"
  "config_env cfg ''NODE_ID'' = cfg_NodeID (cfg_Server cfg)"
  "config_env cfg ''WS_READ_BUFFER_SIZE'' = int_dec (sint (cfg_ReadBufferSize (cfg_Server cfg)))"
  "config_env cfg ''WS_WRITE_BUFFER_SIZE'' = int_dec (sint (cfg_WriteBufferSize (cfg_Server cfg)))"
  "config_env cfg ''WS_WRITE_WAIT'' = duration_String (cfg_WriteWait (cfg_Server cfg))"
  "config_env cfg ''WS_PONG_WAIT'' = duration_String (cfg_PongWait (cfg_Server cfg))"
  "config_env cfg ''WS_PING_PERIOD'' = duration_String (cfg_PingPeriod (cfg_Server cfg))"
  "config_env cfg ''WS_MAX_MESSAGE_SIZE'' = int_dec (sint (cfg_MaxMessageSizeByte (cfg_Server cfg)))"
  "config_env cfg ''MYSQL_DSN'' = cfg_DSN (cfg_MySQL cfg)"
  "config_env cfg ''MYSQL_MAX_OPEN_CONNS'' = int_dec (sint (cfg_MaxOpenConns (cfg_MySQL cfg)))"
  "config_env cfg ''MYSQL_MAX_IDLE_CONNS'' = int_dec (sint (cfg_MaxIdleConns (cfg_MySQL cfg)))"
  "config_env cfg ''MYSQL_CONN_MAX_LIFETIME'' = duration_String (cfg_MaxLifeTime (cfg_MySQL cfg))"
  "config_env cfg ''REDIS_ADDR'' = cfg_Addr (cfg_Redis cfg)"
  "config_env cfg ''REDIS_PASSWORD'' = cfg_Password (cfg_Redis cfg)"
  "config_env cfg ''REDIS_DB'' = int_dec (sint (cfg_DB (cfg_Redis cfg)))"
  "config_env cfg ''JWT_SECRET'' = cfg_JWTSecret (cfg_Auth cfg)"
  "config_env cfg ''JWT_TOKEN_TTL'' = duration_String (cfg_TokenTTL (cfg_Auth cfg))"
  "config_env cfg ''LIMIT_USER_COUNT'' = int_dec (sint (cfg_UserCount (cfg_Limit cfg)))"
  "config_env cfg ''LIMIT_USER_WINDOW'' = duration_String (cfg_UserWindow (cfg_Limit cfg))"
  "config_env cfg ''LIMIT_IP_COUNT'' = int_dec (sint (cfg_IPCount (cfg_Limit cfg)))"
  "config_env cfg ''LIMIT_IP_WINDOW'' = duration_String (cfg_IPWindow (cfg_Limit cfg))"
  "config_env cfg ''LIMIT_ROOM_COUNT'' = int_dec (sint (cfg_RoomCount (cfg_Limit cfg)))"
  "config_env cfg ''LIMIT_ROOM_WINDOW'' = duration_String (cfg_RoomWindow (cfg_Limit cfg))"
  by (simp_all add: config_env_def)

definition texts_set :: "config \<Rightarrow> bool" where
  "texts_set cfg \<longleftrightarrow>
     cfg_HTTPAddr (cfg_Server cfg) \<noteq> [] \<and> cfg_NodeID (cfg_Server cfg) \<noteq> [] \<and>
     cfg_DSN (cfg_MySQL cfg) \<noteq> [] \<and> cfg_Addr (cfg_Redis cfg) \<noteq> [] \<and>
     cfg_JWTSecret (cfg_Auth cfg) \<noteq> []"

text \<open>
  C36. Every configuration can be written to the environment and is then loaded unchanged:
  each of the 23 variables reaches its own field, every 64-bit number and every duration
  survives printing and parsing. Only the five texts with a fallback or a check have to be
  non-empty; the Redis password may be empty.
\<close>

theorem Load_reads_back:
  assumes "texts_set cfg"
  shows "Load (config_env cfg) = Ok cfg"
proof -
  note env = config_env_values [of cfg]
  have e: "getEnv (config_env cfg) ''HTTP_ADDR'' v = cfg_HTTPAddr (cfg_Server cfg)"
    "getEnv (config_env cfg) ''NODE_ID'' v = cfg_NodeID (cfg_Server cfg)"
    "getEnv (config_env cfg) ''REDIS_ADDR'' v = cfg_Addr (cfg_Redis cfg)"
    "getEnv (config_env cfg) ''JWT_SECRET'' v = cfg_JWTSecret (cfg_Auth cfg)"
    "cfg_DSN (cfg_MySQL cfg) \<noteq> []" for v
    using assms by (simp_all add: texts_set_def getEnv_def env)
  show ?thesis
    by (simp add: Load_def Let_def e env getEnvInt_def getEnvInt64_def getEnvDuration_def
        Atoi_int_dec ParseInt64_int_dec ParseDuration_String)
qed

definition demo_config :: config where
  "demo_config =
     \<lparr>cfg_Server = \<lparr>cfg_HTTPAddr = '':80'', cfg_NodeID = ''n'', cfg_ReadBufferSize = 1,
        cfg_WriteBufferSize = - 2, cfg_WriteWait = 0, cfg_PongWait = - 1500000000,
        cfg_PingPeriod = 250, cfg_MaxMessageSizeByte = 512\<rparr>,
      cfg_MySQL = \<lparr>cfg_DSN = ''dsn'', cfg_MaxOpenConns = 1, cfg_MaxIdleConns = 1, cfg_MaxLifeTime = 1\<rparr>,
      cfg_Redis = \<lparr>cfg_Addr = ''r:1'', cfg_Password = [], cfg_DB = 3\<rparr>,
      cfg_Auth = \<lparr>cfg_JWTSecret = ''s'', cfg_TokenTTL = hours 1\<rparr>,
      cfg_Limit = \<lparr>cfg_UserCount = 1, cfg_UserWindow = 1, cfg_IPCount = 1, cfg_IPWindow = 1,
        cfg_RoomCount = 1, cfg_RoomWindow = 1\<rparr>\<rparr>"

theorem Load_reads_back_witness: "Load (config_env demo_config) = Ok demo_config"
  by (rule Load_reads_back) (simp add: texts_set_def demo_config_def)

end
