(* ===== verification/Repository.thy ===== *)
theory Repository
  imports Protocol "HOL-Library.Multiset"
begin

text \<open>
  internal/repository/danmaku.go: batched inserts and the history query. GORM and MySQL are a
  parameter (\<open>db\<close>); what a query and an insert do is stated over the rows of the table.
\<close>

section \<open>Queries\<close>

text \<open>
  The query \<open>ListByRoom\<close> builds: \<open>room_id = ? AND created_at < ?\<close>, newest first, limited.
\<close>

record history_query =
  hq_room :: string
  hq_before :: time
  hq_limit :: int64

record 'd db =
  db_Create :: "danmaku list \<Rightarrow> 'd \<Rightarrow> go_error option \<times> 'd"
  db_Find :: "history_query \<Rightarrow> 'd \<Rightarrow> danmaku list \<times> go_error option"

definition SaveBatch :: "'d db \<Rightarrow> danmaku list \<Rightarrow> 'd \<Rightarrow> go_error option \<times> 'd" where
  "SaveBatch D messages d = (if length messages = 0 then (None, d) else db_Create D messages d)"

text \<open>\<open>now\<close> is the value \<open>time.Now()\<close> returns.\<close>

definition history_limit :: "int64 \<Rightarrow> int64" where
  "history_limit limit = (if sint limit \<le> 0 \<or> 100 < sint limit then 50 else limit)"

definition ListByRoom ::
    "'d db \<Rightarrow> time \<Rightarrow> string \<Rightarrow> int64 \<Rightarrow> time \<Rightarrow> 'd \<Rightarrow> danmaku list \<times> go_error option" where
  "ListByRoom D now roomID limit before d =
     (let limit' = history_limit limit;
          before' = (if time_IsZero before then time_Add now (hours 24) else before)
      in db_Find D \<lparr>hq_room = roomID, hq_before = before', hq_limit = limit'\<rparr> d)"

lemma history_limit_range: "1 \<le> sint (history_limit l)" "sint (history_limit l) \<le> 100"
  by (auto simp: history_limit_def)

text \<open>Messages are asked for up to the cursor, or a day ahead of now without one.\<close>

definition history_cutoff :: "time \<Rightarrow> time \<Rightarrow> time" where
  "history_cutoff now before = (if time_IsZero before then time_Add now (hours 24) else before)"

section \<open>The table\<close>

definition matches :: "history_query \<Rightarrow> danmaku \<Rightarrow> bool" where
  "matches q m \<longleftrightarrow> dm_RoomID m = hq_room q \<and> dm_CreatedAt m < hq_before q"

definition newest_first :: "danmaku list \<Rightarrow> bool" where
  "newest_first ms \<longleftrightarrow> sorted_wrt (\<lambda>x y. dm_CreatedAt y \<le> dm_CreatedAt x) ms"

text \<open>
  A successful query answers the first \<open>limit\<close> rows of some arrangement of the matching rows
  with the newest first; rows of the same instant may come in any order. An insert adds all
  rows of its batch or none.
\<close>

locale message_table =
  fixes D :: "'d db"
    and rows :: "'d \<Rightarrow> danmaku multiset"
  assumes find_rows: "db_Find D q d = (out, None) \<Longrightarrow>
      \<exists>full. mset full = filter_mset (matches q) (rows d) \<and> newest_first full \<and>
        out = take (nat (sint (hq_limit q))) full"
    and create_rows: "db_Create D ms d = (None, d') \<Longrightarrow> rows d' = rows d + mset ms"
    and create_fails: "db_Create D ms d = (Some e, d') \<Longrightarrow> rows d' = rows d"
begin

lemma SaveBatch_rows:
  "SaveBatch D ms d = (err, d') \<Longrightarrow> rows d' = (if err = None then rows d + mset ms else rows d)"
  using create_rows create_fails by (cases err) (auto simp: SaveBatch_def split: if_splits)

lemma ListByRoom_length:
  assumes "ListByRoom D now room l before d = (page, None)"
  shows "length page \<le> 100"
proof -
  obtain q where q: "db_Find D q d = (page, None)" "hq_limit q = history_limit l"
    using assms by (auto simp: ListByRoom_def Let_def)
  from find_rows [OF q(1)] q(2) have "length page \<le> nat (sint (history_limit l))" by auto
  with history_limit_range(2) [of l] show ?thesis by linarith
qed

text \<open>A page holds the newest matching rows: nothing it leaves out is newer than what it shows.\<close>

lemma ListByRoom_page_cutoff:
  assumes "ListByRoom D now room l before d = (page, None)"
  shows "\<exists>rest. mset (page @ rest) =
      filter_mset (\<lambda>m. dm_RoomID m = room \<and> dm_CreatedAt m < history_cutoff now before) (rows d) \<and>
    newest_first (page @ rest) \<and>
    (rest \<noteq> [] \<longrightarrow> length page = nat (sint (history_limit l)))"
proof -
  let ?q = "\<lparr>hq_room = room, hq_before = history_cutoff now before, hq_limit = history_limit l\<rparr>"
  from assms have "db_Find D ?q d = (page, None)" by (simp add: ListByRoom_def history_cutoff_def Let_def)
  from find_rows [OF this] obtain full where
    full: "mset full = filter_mset (matches ?q) (rows d)" "newest_first full"
      "page = take (nat (sint (history_limit l))) full" by auto
  let ?rest = "drop (nat (sint (history_limit l))) full"
  have "page @ ?rest = full" using full(3) by simp
  moreover have "filter_mset (matches ?q) (rows d) =
    filter_mset (\<lambda>m. dm_RoomID m = room \<and> dm_CreatedAt m < history_cutoff now before) (rows d)"
    by (rule filter_mset_cong) (simp_all add: matches_def)
  moreover have "?rest \<noteq> [] \<longrightarrow> length page = nat (sint (history_limit l))" using full(3) by auto
  ultimately show ?thesis using full by metis
qed

lemma ListByRoom_page:
  assumes "ListByRoom D now room l before d = (page, None)" "\<not> time_IsZero before"
  shows "\<exists>rest. mset (page @ rest) =
      filter_mset (\<lambda>m. dm_RoomID m = room \<and> dm_CreatedAt m < before) (rows d) \<and>
    newest_first (page @ rest) \<and>
    (rest \<noteq> [] \<longrightarrow> length page = nat (sint (history_limit l)))"
  using ListByRoom_page_cutoff [OF assms(1)] assms(2) by (simp add: history_cutoff_def)

end

section \<open>A table held as a list\<close>

definition list_db :: "danmaku list db" where
  "list_db =
     \<lparr>db_Create = (\<lambda>ms d. (None, d @ ms)),
      db_Find = (\<lambda>q d. (take (nat (sint (hq_limit q)))
                          (rev (sort_key dm_CreatedAt (filter (matches q) d))), None))\<rparr>"

lemma newest_first_rev_sort: "newest_first (rev (sort_key dm_CreatedAt ms))"
  using sorted_sort_key [of dm_CreatedAt ms]
  by (simp add: newest_first_def sorted_wrt_rev sorted_map)

lemma list_db_table: "message_table list_db mset"
proof
  fix q d out
  assume "db_Find list_db q d = (out, None)"
  then have "out = take (nat (sint (hq_limit q))) (rev (sort_key dm_CreatedAt (filter (matches q) d)))"
    by (simp add: list_db_def)
  moreover have "mset (rev (sort_key dm_CreatedAt (filter (matches q) d))) = filter_mset (matches q) (mset d)"
    by simp
  ultimately show "\<exists>full. mset full = filter_mset (matches q) (mset d) \<and> newest_first full \<and>
      out = take (nat (sint (hq_limit q))) full"
    using newest_first_rev_sort by blast
qed (auto simp: list_db_def)

interpretation list_table: message_table list_db mset
  by (rule list_db_table)

section \<open>History pages\<close>

text \<open>
  A page of history holds at most 100 messages, all of the room asked for
  and older than the cursor, newest first, and it leaves out no message that is newer than one
  it shows; when it is not full it holds all of them.
\<close>

lemma history_page:
  assumes "message_table D rows" "\<not> time_IsZero before"
    and "ListByRoom D now room l before d = (page, None)"
  shows "\<exists>rest. mset page + mset rest =
      filter_mset (\<lambda>m. dm_RoomID m = room \<and> dm_CreatedAt m < before) (rows d) \<and>
    newest_first (page @ rest) \<and> length page \<le> 100 \<and>
    (rest \<noteq> [] \<longrightarrow> length page = nat (sint (history_limit l)) \<and> page \<noteq> [])"
proof -
  obtain rest where r: "mset (page @ rest) =
      filter_mset (\<lambda>m. dm_RoomID m = room \<and> dm_CreatedAt m < before) (rows d)"
    "newest_first (page @ rest)" "rest \<noteq> [] \<longrightarrow> length page = nat (sint (history_limit l))"
    using message_table.ListByRoom_page [OF assms(1,3,2)] by blast
  have "length page \<le> 100" by (rule message_table.ListByRoom_length [OF assms(1,3)])
  with r history_limit_range(1) [of l] show ?thesis by (intro exI [of _ rest]) auto
qed

definition demo_row :: "nat \<Rightarrow> time \<Rightarrow> danmaku" where
  "demo_row n t = \<lparr>dm_ID = nat_dec n, dm_RoomID = ''r1'', dm_UserID = ''u1'', dm_Content = ''hi'',
                   dm_CreatedAt = t\<rparr>"

lemma history_page_example:
  "\<exists>page rest. ListByRoom list_db 0 ''r1'' 1 100 [demo_row 1 10, demo_row 2 20] = (page, None) \<and>
    mset page + mset rest = {#demo_row 1 10, demo_row 2 20#} \<and> newest_first (page @ rest)"
proof -
  obtain page where p: "ListByRoom list_db 0 ''r1'' 1 100 [demo_row 1 10, demo_row 2 20] = (page, None)"
    by (simp add: ListByRoom_def list_db_def Let_def)
  have "\<not> time_IsZero 100" by (simp add: time_IsZero_def zero_time_def ns_per_s_def)
  from history_page [OF list_db_table this p] obtain rest where
    "mset page + mset rest = filter_mset (\<lambda>m. dm_RoomID m = ''r1'' \<and> dm_CreatedAt m < 100)
      (mset [demo_row 1 10, demo_row 2 20])" "newest_first (page @ rest)" by blast
  with p show ?thesis by (auto simp: demo_row_def)
qed

text \<open>
  A reader that fetches page after page, passing the time of the oldest message it has as the
  next cursor, until a page comes back empty.
\<close>

fun read_history :: "'d db \<Rightarrow> time \<Rightarrow> string \<Rightarrow> int64 \<Rightarrow> 'd \<Rightarrow> nat \<Rightarrow> time \<Rightarrow> danmaku list" where
  "read_history D now room l d 0 before = []"
| "read_history D now room l d (Suc fuel) before =
     (case ListByRoom D now room l before d of
        (page, Some _) \<Rightarrow> []
      | (page, None) \<Rightarrow>
          if page = [] then []
          else page @ read_history D now room l d fuel (dm_CreatedAt (last page)))"

definition strictly_newest_first :: "danmaku list \<Rightarrow> bool" where
  "strictly_newest_first ms \<longleftrightarrow> sorted_wrt (\<lambda>x y. dm_CreatedAt y < dm_CreatedAt x) ms"

lemma strict_distinct: "strictly_newest_first ms \<Longrightarrow> distinct (map dm_CreatedAt ms)"
  by (induction ms) (auto simp: strictly_newest_first_def)

lemma newest_first_sorted: "newest_first ms \<longleftrightarrow> sorted (map dm_CreatedAt (rev ms))"
  by (simp add: newest_first_def sorted_map sorted_wrt_rev)

lemma strict_newest: "strictly_newest_first ms \<Longrightarrow> newest_first ms"
  unfolding strictly_newest_first_def newest_first_def
  by (erule sorted_wrt_mono_rel [rotated]) simp

text \<open>Messages with distinct times have one arrangement.\<close>

lemma arrangement_unique:
  assumes "strictly_newest_first xs" "newest_first ys" "mset ys = mset xs"
  shows "ys = xs"
proof -
  have d: "distinct (map dm_CreatedAt (rev xs))"
    using strict_distinct [OF assms(1)] by (simp add: rev_map [symmetric])
  have "mset (map dm_CreatedAt (rev ys)) = mset (map dm_CreatedAt (rev xs))"
    using assms(3) by simp
  then have ds: "distinct (map dm_CreatedAt (rev ys))"
    "set (map dm_CreatedAt (rev ys)) = set (map dm_CreatedAt (rev xs))"
    using d by (metis mset_eq_imp_distinct_iff, metis mset_eq_setD)
  have "map dm_CreatedAt (rev ys) = map dm_CreatedAt (rev xs)"
    by (rule sorted_distinct_set_unique)
      (use d ds assms(2) strict_newest [OF assms(1)] in \<open>simp_all add: newest_first_sorted\<close>)
  moreover have "inj_on dm_CreatedAt (set (rev ys) \<union> set (rev xs))"
  proof -
    have "set (rev ys) = set (rev xs)" using assms(3) by (metis mset_eq_setD set_rev)
    then show ?thesis using d by (simp add: distinct_map)
  qed
  ultimately have "rev ys = rev xs" by (rule map_inj_on)
  then show ?thesis by simp
qed

lemma cursor_filter:
  assumes "strictly_newest_first (p @ r)" "p \<noteq> []"
  shows "filter (\<lambda>m. dm_CreatedAt m < dm_CreatedAt (last p)) (p @ r) = r"
proof -
  have "last p \<in> set p" using assms(2) by simp
  then have "\<forall>m \<in> set r. dm_CreatedAt m < dm_CreatedAt (last p)"
    using assms(1) by (auto simp: strictly_newest_first_def sorted_wrt_append)
  moreover have "\<forall>m \<in> set p. \<not> dm_CreatedAt m < dm_CreatedAt (last p)"
  proof
    fix m assume "m \<in> set p"
    have "p = butlast p @ [last p]" using assms(2) by simp
    with assms(1) have "\<forall>x \<in> set (butlast p). dm_CreatedAt (last p) < dm_CreatedAt x"
      unfolding strictly_newest_first_def by (metis list.set_intros(1) sorted_wrt_append)
    with \<open>m \<in> set p\<close> \<open>p = butlast p @ [last p]\<close> show "\<not> dm_CreatedAt m < dm_CreatedAt (last p)"
      by (metis UnE empty_iff insert_iff less_asym list.set(1) list.set(2) order_less_irrefl set_append)
  qed
  ultimately show ?thesis by (simp add: filter_empty_conv)
qed

text \<open>
  When the messages of a room carry distinct times, paging with the time of the last
  message as the cursor reads the whole history older than the first cursor, newest first,
  every message exactly once.
\<close>

lemma read_history_complete:
  assumes "message_table D rows" "\<forall>q. snd (db_Find D q d) = None"
    and "strictly_newest_first full" "\<forall>m \<in> set full. \<not> time_IsZero (dm_CreatedAt m)"
    and "mset full = filter_mset (\<lambda>m. dm_RoomID m = room \<and> dm_CreatedAt m < before) (rows d)"
    and "\<not> time_IsZero before" "length full < fuel"
  shows "read_history D now room l d fuel before = full"
  using assms(3-7)
proof (induction fuel arbitrary: full before)
  case 0
  then show ?case by simp
next
  case (Suc fuel)
  obtain page where p: "ListByRoom D now room l before d = (page, None)"
    using assms(2) by (auto simp: ListByRoom_def Let_def) (metis prod.collapse)
  from message_table.ListByRoom_page [OF assms(1) p Suc.prems(4)] obtain rest where
    r: "mset (page @ rest) = mset full" "newest_first (page @ rest)"
      "rest \<noteq> [] \<longrightarrow> length page = nat (sint (history_limit l))"
    unfolding Suc.prems(3) by blast
  then have nonempty: "rest \<noteq> [] \<longrightarrow> page \<noteq> []" using history_limit_range(1) [of l] by auto
  from r have full: "page @ rest = full" using arrangement_unique [OF Suc.prems(1)] by blast
  show ?case
  proof (cases "page = []")
    case True
    with nonempty full p show ?thesis by auto
  next
    case False
    note strict = Suc.prems(1) [folded full]
    have "mset rest = filter_mset (\<lambda>m. dm_CreatedAt m < dm_CreatedAt (last page)) (mset full)"
      using cursor_filter [OF strict False] full by (metis mset_filter)
    also have "\<dots> = filter_mset (\<lambda>m. dm_RoomID m = room \<and> dm_CreatedAt m < dm_CreatedAt (last page)) (rows d)"
    proof -
      have "last page \<in> set full" using False full by auto
      then have "last page \<in># filter_mset (\<lambda>m. dm_RoomID m = room \<and> dm_CreatedAt m < before) (rows d)"
        using Suc.prems(3) by (metis set_mset_mset)
      then have "dm_CreatedAt (last page) < before" by simp
      then show ?thesis unfolding Suc.prems(3) filter_filter_mset
        by (intro filter_mset_cong) auto
    qed
    finally have m: "mset rest = \<dots>" .
    have "read_history D now room l d fuel (dm_CreatedAt (last page)) = rest"
    proof (rule Suc.IH [OF _ _ m])
      show "strictly_newest_first rest" using strict by (simp add: strictly_newest_first_def sorted_wrt_append)
      show "\<forall>m \<in> set rest. \<not> time_IsZero (dm_CreatedAt m)" using Suc.prems(2) full by auto
      show "\<not> time_IsZero (dm_CreatedAt (last page))" using Suc.prems(2) full False by auto
      show "length rest < fuel" using Suc.prems(5) full False by (cases page) auto
    qed
    with p False full show ?thesis by simp
  qed
qed

lemma read_history_complete_example:
  "read_history list_db 0 ''r1'' 1 [demo_row 1 10, demo_row 2 20] 3 100 = [demo_row 2 20, demo_row 1 10]"
proof (rule read_history_complete [OF list_db_table])
  show "\<forall>q. snd (db_Find list_db q [demo_row 1 10, demo_row 2 20]) = None" by (simp add: list_db_def)
  show "strictly_newest_first [demo_row 2 20, demo_row 1 10]"
    by (simp add: strictly_newest_first_def demo_row_def)
qed (auto simp: time_IsZero_def zero_time_def ns_per_s_def demo_row_def)


end
