(* ===== verification/Service_State.thy ===== *)
theory Service_State
  imports Config Metrics Limiter Broker Repository Room
begin

text \<open>
  The state of the message service (internal/service/message_service.go) and the interfaces it
  is built on. The service's fields, the hub and the clients it broadcasts to, and the states
  behind its interfaces make up one record; each operation of the service is a function on it.
\<close>

record send_request =
  req_UserID :: string
  req_RoomID :: string
  req_IP :: string
  req_Content :: string

record 'h room_subscription =
  rs_refs :: int
  rs_unsubscribe :: 'h

text \<open>
  The persistence worker: not started, running with its batch size, flush interval and current
  batch, or returned.
\<close>

datatype worker = NotStarted | Running nat duration "danmaku list" | Finished

record ('b, 'h, 'l, 'r) service =
  sv_nodeID :: string
  sv_cfg :: limit_config
  sv_hub :: hub
  sv_heap :: client_heap
  sv_broker :: 'b
  sv_repo :: 'r
  sv_limiter :: 'l
  sv_metrics :: "metrics option"
  sv_persistCh :: "danmaku chan"
  sv_persistClosed :: bool
  sv_worker :: worker
  sv_subscriptions :: "string \<rightharpoonup> 'h room_subscription"
  sv_closeOnce :: bool

text \<open>The implementations behind the interfaces \<open>Broker\<close>, \<open>Limiter\<close> and \<open>DanmakuRepository\<close>.\<close>

record ('b, 'h, 'l, 'r) deps =
  dep_broker :: "('b, 'h) broker_ops"
  dep_Allow :: "rule list \<Rightarrow> ('l, decision) op"
  dep_SaveBatch :: "danmaku list \<Rightarrow> 'r \<Rightarrow> go_error option \<times> 'r"
  dep_ListByRoom :: "time \<Rightarrow> string \<Rightarrow> int64 \<Rightarrow> time \<Rightarrow> 'r \<Rightarrow> danmaku list \<times> go_error option"

definition NewMessageService ::
    "string \<Rightarrow> limit_config \<Rightarrow> hub \<Rightarrow> client_heap \<Rightarrow> 'b \<Rightarrow> 'r \<Rightarrow> 'l \<Rightarrow> metrics option \<Rightarrow>
     ('b, 'h, 'l, 'r) service" where
  "NewMessageService nodeID cfg hub heap br repo limit_st metricsCollector =
     \<lparr>sv_nodeID = nodeID, sv_cfg = cfg, sv_hub = hub, sv_heap = heap, sv_broker = br,
      sv_repo = repo, sv_limiter = limit_st, sv_metrics = metricsCollector,
      sv_persistCh = make_chan 4096, sv_persistClosed = False, sv_worker = NotStarted,
      sv_subscriptions = Map.empty, sv_closeOnce = False\<rparr>"

text \<open>\<open>if s.metrics != nil { s.metrics.f() }\<close>\<close>

definition with_metrics ::
    "(metrics \<Rightarrow> metrics) \<Rightarrow> ('b, 'h, 'l, 'r) service \<Rightarrow> ('b, 'h, 'l, 'r) service" where
  "with_metrics f s = s\<lparr>sv_metrics := map_option f (sv_metrics s)\<rparr>"

lemma with_metrics_sel [simp]:
  "sv_nodeID (with_metrics f s) = sv_nodeID s" "sv_cfg (with_metrics f s) = sv_cfg s"
  "sv_hub (with_metrics f s) = sv_hub s" "sv_heap (with_metrics f s) = sv_heap s"
  "sv_broker (with_metrics f s) = sv_broker s" "sv_repo (with_metrics f s) = sv_repo s"
  "sv_limiter (with_metrics f s) = sv_limiter s" "sv_persistCh (with_metrics f s) = sv_persistCh s"
  "sv_persistClosed (with_metrics f s) = sv_persistClosed s" "sv_worker (with_metrics f s) = sv_worker s"
  "sv_subscriptions (with_metrics f s) = sv_subscriptions s"
  "sv_closeOnce (with_metrics f s) = sv_closeOnce s"
  "sv_metrics (with_metrics f s) = map_option f (sv_metrics s)"
  by (simp_all add: with_metrics_def)

end
