(* ===== verification/Persistence.thy ===== *)
theory Persistence
  imports Service_State
begin

text \<open>
  The asynchronous persistence of the message service: the bounded queue \<open>persistCh\<close> that
  \<open>Send\<close> offers messages to, the worker that collects them into batches, and the part of
  \<open>Close\<close> that stops it.
\<close>

section \<open>Operations\<close>

text \<open>\<open>None\<close> is the panic of a send on a closed channel.\<close>

definition enqueuePersistence ::
    "danmaku \<Rightarrow> ('b, 'h, 'l, 'r) service \<Rightarrow> ('b, 'h, 'l, 'r) service option" where
  "enqueuePersistence message s =
     (if sv_persistClosed s then Some (with_metrics IncPersistDropped s)
      else case chan_try_send message (sv_persistCh s) of
             (Sent, ch) \<Rightarrow> Some (with_metrics IncPersistQueued (s\<lparr>sv_persistCh := ch\<rparr>))
           | (WouldBlock, ch) \<Rightarrow> Some (with_metrics IncPersistDropped s)
           | (SendPanics, ch) \<Rightarrow> None)"

text \<open>
  Starting the worker: a batch size or interval that is not positive is replaced by its
  default, and only the first call starts a worker.
\<close>

definition StartPersistenceWorker ::
    "int64 \<Rightarrow> duration \<Rightarrow> ('b, 'h, 'l, 'r) service \<Rightarrow> ('b, 'h, 'l, 'r) service" where
  "StartPersistenceWorker batchSize flushInterval s =
     (let bsize = (if sint batchSize \<le> 0 then 50 else batchSize);
          interval = (if sint flushInterval \<le> 0 then millis 500 else flushInterval)
      in case sv_worker s of
           NotStarted \<Rightarrow> s\<lparr>sv_worker := Running (nat (sint bsize)) interval []\<rparr>
         | _ \<Rightarrow> s)"

definition flush ::
    "('b, 'h, 'l, 'r) deps \<Rightarrow> ('b, 'h, 'l, 'r) service \<Rightarrow> ('b, 'h, 'l, 'r) service" where
  "flush D s =
     (case sv_worker s of
        Running bsize interval batch \<Rightarrow>
          if length batch = 0 then s
          else (case dep_SaveBatch D batch (sv_repo s) of
                  (err, r) \<Rightarrow>
                    let s1 = s\<lparr>sv_repo := r\<rparr>;
                        s2 = (if err \<noteq> None then with_metrics IncPersistFailed s1 else s1)
                    in s2\<lparr>sv_worker := Running bsize interval []\<rparr>)
      | _ \<Rightarrow> s)"

text \<open>The two branches of the worker's \<open>select\<close>; a receive from an empty open queue waits.\<close>

definition worker_tick ::
    "('b, 'h, 'l, 'r) deps \<Rightarrow> ('b, 'h, 'l, 'r) service \<Rightarrow> ('b, 'h, 'l, 'r) service" where
  "worker_tick D s = flush D s"

definition worker_receive ::
    "('b, 'h, 'l, 'r) deps \<Rightarrow> ('b, 'h, 'l, 'r) service \<Rightarrow> ('b, 'h, 'l, 'r) service" where
  "worker_receive D s =
     (case sv_worker s of
        Running bsize interval batch \<Rightarrow>
          (case chan_recv (sv_persistCh s) of
             (RecvBlocks, ch) \<Rightarrow> s
           | (RecvClosed, ch) \<Rightarrow> (flush D s)\<lparr>sv_worker := Finished\<rparr>
           | (Received item, ch) \<Rightarrow>
               let s1 = s\<lparr>sv_persistCh := ch, sv_worker := Running bsize interval (batch @ [item])\<rparr>
               in if bsize \<le> length (batch @ [item]) then flush D s1 else s1)
      | _ \<Rightarrow> s)"

text \<open>
  The first part of \<open>Close\<close>, inside \<open>closeOnce\<close>: mark the queue as closed and close the
  channel. \<open>None\<close> is the panic of closing a closed channel.
\<close>

definition close_persistence ::
    "('b, 'h, 'l, 'r) service \<Rightarrow> ('b, 'h, 'l, 'r) service option" where
  "close_persistence s =
     (if sv_closeOnce s then Some s
      else map_option
             (\<lambda>ch. s\<lparr>sv_closeOnce := True, sv_persistClosed := True, sv_persistCh := ch\<rparr>)
             (chan_close (sv_persistCh s)))"

section \<open>Runs of the queue and the worker\<close>

text \<open>
  What happens to the queue is a sequence of events: a message is offered, the ticker fires,
  the worker receives, the queue is closed. The run also keeps the messages that were accepted.
\<close>

datatype persist_event = Offer danmaku | Tick | Receive | ClosePersist

definition persist_step ::
    "('b, 'h, 'l, 'r) deps \<Rightarrow> persist_event \<Rightarrow> ('b, 'h, 'l, 'r) service \<Rightarrow>
     ('b, 'h, 'l, 'r) service option" where
  "persist_step D e s =
     (case e of
        Offer m \<Rightarrow> enqueuePersistence m s
      | Tick \<Rightarrow> Some (worker_tick D s)
      | Receive \<Rightarrow> Some (worker_receive D s)
      | ClosePersist \<Rightarrow> close_persistence s)"

definition accepts :: "('b, 'h, 'l, 'r) service \<Rightarrow> bool" where
  "accepts s \<longleftrightarrow> \<not> sv_persistClosed s \<and> length (chan_buf (sv_persistCh s)) < chan_cap (sv_persistCh s)"

fun persist_run ::
    "('b, 'h, 'l, 'r) deps \<Rightarrow> persist_event list \<Rightarrow> danmaku list \<Rightarrow> ('b, 'h, 'l, 'r) service \<Rightarrow>
     (('b, 'h, 'l, 'r) service \<times> danmaku list) option" where
  "persist_run D [] acc s = Some (s, acc)"
| "persist_run D (e # es) acc s =
     (case persist_step D e s of
        None \<Rightarrow> None
      | Some s' \<Rightarrow>
          persist_run D es
            (case e of Offer m \<Rightarrow> if accepts s then acc @ [m] else acc | _ \<Rightarrow> acc) s')"

text \<open>
  A repository that records the batches it is given before it stores them shows what was
  passed to \<open>SaveBatch\<close>, in which order, whether it succeeded or not.
\<close>

definition recording ::
    "(danmaku list \<Rightarrow> 'r \<Rightarrow> go_error option \<times> 'r) \<Rightarrow>
     danmaku list \<Rightarrow> danmaku list list \<times> 'r \<Rightarrow> go_error option \<times> (danmaku list list \<times> 'r)" where
  "recording save batch lr =
     (case lr of (calls, r) \<Rightarrow> (case save batch r of (err, r') \<Rightarrow> (err, (calls @ [batch], r'))))"

definition save_calls :: "('b, 'h, 'l, danmaku list list \<times> 'r) service \<Rightarrow> danmaku list list" where
  "save_calls s = fst (sv_repo s)"

definition pending_batch :: "('b, 'h, 'l, 'r) service \<Rightarrow> danmaku list" where
  "pending_batch s = (case sv_worker s of Running bsize interval batch \<Rightarrow> batch | _ \<Rightarrow> [])"

section \<open>The invariant\<close>

text \<open>
  The channel is closed exactly when the service says so, only \<open>Close\<close> closes it, it never
  holds more than its capacity; a running worker's batch is below its size; a worker that
  returned left nothing in the queue.
\<close>

definition persist_ok :: "('b, 'h, 'l, 'r) service \<Rightarrow> bool" where
  "persist_ok s \<longleftrightarrow>
     chan_closed (sv_persistCh s) = sv_persistClosed s \<and>
     sv_persistClosed s = sv_closeOnce s \<and>
     chan_ok (sv_persistCh s) \<and>
     (case sv_worker s of
        NotStarted \<Rightarrow> True
      | Running bsize interval batch \<Rightarrow> length batch < bsize
      | Finished \<Rightarrow> sv_persistClosed s \<and> chan_buf (sv_persistCh s) = [])"

lemma persist_ok_new:
  "persist_ok (NewMessageService nodeID cfg hub heap br repo limit_st m)"
  by (simp add: persist_ok_def NewMessageService_def make_chan_def chan_ok_def)

lemma persist_ok_start: "persist_ok s \<Longrightarrow> persist_ok (StartPersistenceWorker n d s)"
  by (cases "sv_worker s") (auto simp: persist_ok_def StartPersistenceWorker_def Let_def)

lemma enqueuePersistence_ok:
  assumes "persist_ok s"
  shows "\<exists>s'. enqueuePersistence m s = Some s' \<and> persist_ok s' \<and> sv_repo s' = sv_repo s \<and>
    pending_batch s' = pending_batch s \<and> sv_worker s' = sv_worker s \<and>
    chan_buf (sv_persistCh s') = chan_buf (sv_persistCh s) @ (if accepts s then [m] else [])"
  using assms
  by (auto simp: enqueuePersistence_def persist_ok_def chan_try_send_def accepts_def chan_ok_def
      pending_batch_def split: worker.splits)

lemma enqueuePersistence_frame:
  assumes "enqueuePersistence m s = Some s'"
  shows "sv_broker s' = sv_broker s" "sv_subscriptions s' = sv_subscriptions s"
    "sv_hub s' = sv_hub s" "sv_heap s' = sv_heap s" "sv_limiter s' = sv_limiter s"
    "sv_closeOnce s' = sv_closeOnce s" "sv_cfg s' = sv_cfg s"
  using assms
  by (auto simp: enqueuePersistence_def split: if_splits prod.splits send_outcome.splits)

lemma flush_frame [simp]:
  "sv_persistCh (flush D s) = sv_persistCh s" "sv_persistClosed (flush D s) = sv_persistClosed s"
  "sv_closeOnce (flush D s) = sv_closeOnce s" "sv_broker (flush D s) = sv_broker s"
  "sv_subscriptions (flush D s) = sv_subscriptions s" "sv_hub (flush D s) = sv_hub s"
  "sv_heap (flush D s) = sv_heap s" "sv_limiter (flush D s) = sv_limiter s"
  by (auto simp: flush_def Let_def split: worker.split prod.split)

lemma flush_worker:
  "sv_worker (flush D s) =
     (case sv_worker s of Running bsize interval batch \<Rightarrow> Running bsize interval [] | w \<Rightarrow> w)"
  by (auto simp: flush_def Let_def split: worker.split prod.split)

lemma flush_calls:
  assumes "dep_SaveBatch D = recording save"
  shows "save_calls (flush D s) =
    save_calls s @ (if pending_batch s = [] then [] else [pending_batch s])"
  using assms
  by (auto simp: flush_def Let_def save_calls_def pending_batch_def recording_def
      split: worker.split prod.split)

lemma worker_receive_frame [simp]:
  "sv_persistClosed (worker_receive D s) = sv_persistClosed s"
  "sv_closeOnce (worker_receive D s) = sv_closeOnce s"
  "sv_broker (worker_receive D s) = sv_broker s"
  "sv_subscriptions (worker_receive D s) = sv_subscriptions s"
  "sv_hub (worker_receive D s) = sv_hub s" "sv_heap (worker_receive D s) = sv_heap s"
  "sv_limiter (worker_receive D s) = sv_limiter s"
  by (auto simp: worker_receive_def Let_def split: worker.split prod.split recv_outcome.split)

text \<open>The three outcomes of a receive.\<close>

lemma worker_receive_cases:
  assumes "sv_worker s = Running bsize interval batch"
  shows "chan_buf (sv_persistCh s) = [] \<Longrightarrow> \<not> chan_closed (sv_persistCh s) \<Longrightarrow> worker_receive D s = s"
    "chan_buf (sv_persistCh s) = [] \<Longrightarrow> chan_closed (sv_persistCh s) \<Longrightarrow>
      worker_receive D s = (flush D s)\<lparr>sv_worker := Finished\<rparr>"
    "chan_buf (sv_persistCh s) = x # xs \<Longrightarrow>
      worker_receive D s =
        (let s1 = s\<lparr>sv_persistCh := (sv_persistCh s)\<lparr>chan_buf := xs\<rparr>,
                    sv_worker := Running bsize interval (batch @ [x])\<rparr>
         in if bsize \<le> Suc (length batch) then flush D s1 else s1)"
  using assms by (simp_all add: worker_receive_def chan_recv_def Let_def)

lemma persist_ok_flush: "persist_ok s \<Longrightarrow> persist_ok (flush D s)"
  by (auto simp: persist_ok_def flush_worker split: worker.splits)

lemma persist_ok_receive: "persist_ok s \<Longrightarrow> persist_ok (worker_receive D s)"
proof (cases "sv_worker s")
  case (Running bsize interval batch)
  assume ok: "persist_ok s"
  note c = worker_receive_cases [OF Running, where D = D]
  show ?thesis
  proof (cases "chan_buf (sv_persistCh s)")
    case Nil
    with ok Running c(1,2) show ?thesis
      by (cases "chan_closed (sv_persistCh s)")
        (auto simp: persist_ok_def flush_worker)
  next
    case (Cons x xs)
    from ok Running have "length batch < bsize" by (simp add: persist_ok_def)
    with ok Running Cons c(3) [OF Cons] show ?thesis
      by (auto simp: persist_ok_def flush_worker Let_def chan_ok_def)
  qed
qed (simp_all add: worker_receive_def)

lemma close_persistence_ok:
  assumes "persist_ok s"
  shows "\<exists>s'. close_persistence s = Some s' \<and> persist_ok s' \<and> sv_closeOnce s' \<and>
    chan_buf (sv_persistCh s') = chan_buf (sv_persistCh s) \<and> sv_worker s' = sv_worker s \<and>
    sv_repo s' = sv_repo s"
proof (cases "sv_closeOnce s")
  case True
  with assms show ?thesis by (simp add: close_persistence_def)
next
  case False
  with assms have "\<not> chan_closed (sv_persistCh s)" by (simp add: persist_ok_def)
  with assms False show ?thesis
    by (auto simp: close_persistence_def chan_close_def persist_ok_def chan_ok_def split: worker.splits)
qed

section \<open>Nothing accepted is lost, repeated or reordered\<close>

definition conserves :: "danmaku list \<Rightarrow> ('b, 'h, 'l, danmaku list list \<times> 'r) service \<Rightarrow> bool" where
  "conserves acc s \<longleftrightarrow> concat (save_calls s) @ pending_batch s @ chan_buf (sv_persistCh s) = acc"

lemma conserves_flush:
  assumes "dep_SaveBatch D = recording save" "conserves acc s"
  shows "conserves acc (flush D s)"
  using assms(2)
  by (auto simp: conserves_def flush_calls [OF assms(1)])
    (auto simp: pending_batch_def flush_worker split: worker.splits)

text \<open>Every batch that was saved is non-empty and at most as long as the batch size.\<close>

definition batches_ok :: "nat \<Rightarrow> ('b, 'h, 'l, danmaku list list \<times> 'r) service \<Rightarrow> bool" where
  "batches_ok n s \<longleftrightarrow>
     (\<forall>b \<in> set (save_calls s). b \<noteq> [] \<and> length b \<le> n) \<and>
     (case sv_worker s of Running bsize interval batch \<Rightarrow> bsize = n \<and> length batch \<le> n | _ \<Rightarrow> True)"

lemma batches_ok_flush:
  assumes "dep_SaveBatch D = recording save" "batches_ok n s"
  shows "batches_ok n (flush D s)"
  using assms(2)
  by (auto simp: batches_ok_def flush_calls [OF assms(1)] flush_worker pending_batch_def
      split: worker.splits if_splits)

lemma save_calls_upd [simp]:
  "save_calls (s\<lparr>sv_worker := w\<rparr>) = save_calls s"
  "save_calls (s\<lparr>sv_persistCh := c\<rparr>) = save_calls s"
  "save_calls (s\<lparr>sv_closeOnce := b\<rparr>) = save_calls s"
  "save_calls (s\<lparr>sv_persistClosed := b\<rparr>) = save_calls s"
  "save_calls (with_metrics f s) = save_calls s"
  by (simp_all add: save_calls_def with_metrics_def)

lemma pending_batch_upd [simp]:
  "pending_batch (s\<lparr>sv_worker := Running k i b\<rparr>) = b"
  "pending_batch (s\<lparr>sv_worker := Finished\<rparr>) = []"
  "pending_batch (s\<lparr>sv_persistCh := c\<rparr>) = pending_batch s"
  by (simp_all add: pending_batch_def)

text \<open>What the worker does keeps the messages, each in its place, and the bound on batches.\<close>

definition kept :: "nat \<Rightarrow> danmaku list \<Rightarrow> ('b, 'h, 'l, danmaku list list \<times> 'r) service \<Rightarrow> bool" where
  "kept n acc s \<longleftrightarrow> persist_ok s \<and> conserves acc s \<and> batches_ok n s"

lemma kept_flush:
  assumes "dep_SaveBatch D = recording save" "kept n acc s"
  shows "kept n acc (flush D s)"
  using assms(2) persist_ok_flush conserves_flush [OF assms(1)] batches_ok_flush [OF assms(1)]
  by (auto simp: kept_def)

lemma kept_receive:
  assumes rec: "dep_SaveBatch D = recording save" and k: "kept n acc s"
  shows "kept n acc (worker_receive D s)"
proof (cases "sv_worker s")
  case (Running bsize interval batch)
  note c = worker_receive_cases [OF Running, where D = D]
  from k have ok: "persist_ok s" and con: "conserves acc s" and bat: "batches_ok n s"
    by (simp_all add: kept_def)
  have ok': "persist_ok (worker_receive D s)" by (rule persist_ok_receive [OF ok])
  show ?thesis
  proof (cases "chan_buf (sv_persistCh s)")
    case Nil
    show ?thesis
    proof (cases "chan_closed (sv_persistCh s)")
      case False
      with k Nil c(1) show ?thesis by simp
    next
      case True
      have eq: "worker_receive D s = (flush D s)\<lparr>sv_worker := Finished\<rparr>" by (rule c(2) [OF Nil True])
      from conserves_flush [OF rec con] batches_ok_flush [OF rec bat] Running
      have "conserves acc (worker_receive D s)" "batches_ok n (worker_receive D s)"
        by (auto simp: eq conserves_def batches_ok_def pending_batch_def flush_worker)
      with ok' show ?thesis by (simp add: kept_def)
    qed
  next
    case (Cons x xs)
    let ?s1 = "s\<lparr>sv_persistCh := (sv_persistCh s)\<lparr>chan_buf := xs\<rparr>,
      sv_worker := Running bsize interval (batch @ [x])\<rparr>"
    from con Cons Running have con1: "conserves acc ?s1"
      by (simp add: conserves_def pending_batch_def)
    from bat ok Running have bat1: "batches_ok n ?s1"
      by (simp add: batches_ok_def persist_ok_def)
    from conserves_flush [OF rec con1] batches_ok_flush [OF rec bat1] con1 bat1 ok' c(3) [OF Cons]
    show ?thesis by (auto simp: kept_def Let_def)
  qed
qed (use k in \<open>simp_all add: worker_receive_def\<close>)

lemma kept_enqueue:
  assumes "kept n acc s" "enqueuePersistence m s = Some s'"
  shows "kept n (if accepts s then acc @ [m] else acc) s'"
proof -
  from assms(1) have ok: "persist_ok s" by (simp add: kept_def)
  from enqueuePersistence_ok [OF ok, of m] assms
  show ?thesis by (auto simp: kept_def conserves_def batches_ok_def save_calls_def)
qed

lemma kept_close:
  assumes "kept n acc s" "close_persistence s = Some s'"
  shows "kept n acc s'"
proof -
  from assms(1) have ok: "persist_ok s" by (simp add: kept_def)
  from close_persistence_ok [OF ok] assms
  show ?thesis by (auto simp: kept_def conserves_def batches_ok_def save_calls_def pending_batch_def)
qed

lemma persist_step_ok:
  assumes "persist_ok s"
  shows "\<exists>s'. persist_step D e s = Some s' \<and> persist_ok s'"
proof (cases e)
  case (Offer m)
  with enqueuePersistence_ok [OF assms, of m] show ?thesis by (auto simp: persist_step_def)
next
  case ClosePersist
  with close_persistence_ok [OF assms] show ?thesis by (auto simp: persist_step_def)
qed (simp_all add: persist_step_def worker_tick_def persist_ok_flush persist_ok_receive assms)

lemma kept_step:
  assumes "dep_SaveBatch D = recording save" "kept n acc s" "persist_step D e s = Some s'"
  shows "kept n (case e of Offer m \<Rightarrow> if accepts s then acc @ [m] else acc | _ \<Rightarrow> acc) s'"
  using assms(3) kept_enqueue [OF assms(2)] kept_close [OF assms(2)]
    kept_flush [OF assms(1,2)] kept_receive [OF assms(1,2)]
  by (cases e) (auto simp: persist_step_def worker_tick_def split del: if_split)

lemma kept_run:
  "dep_SaveBatch D = recording save \<Longrightarrow> kept n acc s \<Longrightarrow>
   persist_run D es acc s = Some (s', acc') \<Longrightarrow> kept n acc' s'"
proof (induction es arbitrary: acc s)
  case (Cons e es)
  from Cons.prems(3) obtain s1 where step: "persist_step D e s = Some s1" by (auto split: option.splits)
  from Cons.IH [OF Cons.prems(1) kept_step [OF Cons.prems(1,2) step]] Cons.prems(3) step
  show ?case by simp
qed simp

lemma run_no_panic:
  "persist_ok s \<Longrightarrow> \<exists>s' acc'. persist_run D es acc s = Some (s', acc') \<and> persist_ok s'"
proof (induction es arbitrary: acc s)
  case (Cons e es)
  from persist_step_ok [OF Cons.prems, of D e]
  obtain s1 where "persist_step D e s = Some s1" "persist_ok s1" by blast
  with Cons.IH show ?case by simp
qed simp

section \<open>Stopping the worker\<close>

text \<open>
  \<open>persistWorkers.Wait\<close>: the worker runs until it returns. It receives until the closed queue
  is empty; on a queue that is still open it stops with the queue empty, waiting for more.
\<close>

definition worker_busy :: "('b, 'h, 'l, 'r) service \<Rightarrow> bool" where
  "worker_busy s \<longleftrightarrow>
     (case sv_worker s of
        Running bsize interval batch \<Rightarrow>
          chan_buf (sv_persistCh s) \<noteq> [] \<or> chan_closed (sv_persistCh s)
      | _ \<Rightarrow> False)"

lemma worker_receive_less:
  assumes "worker_busy s"
  shows "length (chan_buf (sv_persistCh (worker_receive D s))) +
      (case sv_worker (worker_receive D s) of Running _ _ _ \<Rightarrow> 1 | _ \<Rightarrow> 0) <
    length (chan_buf (sv_persistCh s)) + (case sv_worker s of Running _ _ _ \<Rightarrow> 1 | _ \<Rightarrow> (0::nat))"
proof (cases "sv_worker s")
  case (Running bsize interval batch)
  note c = worker_receive_cases [OF Running, where D = D]
  show ?thesis
  proof (cases "chan_buf (sv_persistCh s)")
    case Nil
    with assms Running have "chan_closed (sv_persistCh s)" by (simp add: worker_busy_def)
    with c(2) [OF Nil] Nil Running show ?thesis by simp
  next
    case (Cons x xs)
    with c(3) [OF Cons] Running show ?thesis by (simp add: Let_def flush_worker)
  qed
qed (use assms in \<open>simp_all add: worker_busy_def\<close>)

function worker_drain ::
    "('b, 'h, 'l, 'r) deps \<Rightarrow> ('b, 'h, 'l, 'r) service \<Rightarrow> ('b, 'h, 'l, 'r) service" where
  "worker_drain D s = (if worker_busy s then worker_drain D (worker_receive D s) else s)"
  by auto

termination
  by (relation "measure (\<lambda>(D, s). length (chan_buf (sv_persistCh s)) +
      (case sv_worker s of Running _ _ _ \<Rightarrow> 1 | _ \<Rightarrow> 0))")
    (simp, simp del: One_nat_def add: worker_receive_less)

declare worker_drain.simps [simp del]

lemma worker_drain_frame [simp]:
  "sv_persistClosed (worker_drain D s) = sv_persistClosed s"
  "sv_closeOnce (worker_drain D s) = sv_closeOnce s"
  "sv_broker (worker_drain D s) = sv_broker s"
  "sv_subscriptions (worker_drain D s) = sv_subscriptions s"
  "sv_hub (worker_drain D s) = sv_hub s" "sv_heap (worker_drain D s) = sv_heap s"
  "sv_limiter (worker_drain D s) = sv_limiter s"
  by (induction D s rule: worker_drain.induct; subst worker_drain.simps; simp)+

lemma kept_drain:
  "dep_SaveBatch D = recording save \<Longrightarrow> kept n acc s \<Longrightarrow> kept n acc (worker_drain D s)"
proof (induction D s rule: worker_drain.induct)
  case (1 D s)
  then show ?case by (subst worker_drain.simps) (simp add: kept_receive)
qed

lemma persist_ok_drain: "persist_ok s \<Longrightarrow> persist_ok (worker_drain D s)"
proof (induction D s rule: worker_drain.induct)
  case (1 D s)
  then show ?case by (subst worker_drain.simps) (simp add: persist_ok_receive)
qed

lemma worker_drain_idle: "\<not> worker_busy (worker_drain D s)"
proof (induction D s rule: worker_drain.induct)
  case (1 D s)
  then show ?case by (subst worker_drain.simps) simp
qed

lemma worker_started_receive:
  "sv_worker s \<noteq> NotStarted \<Longrightarrow> sv_worker (worker_receive D s) \<noteq> NotStarted"
  by (auto simp: worker_receive_def Let_def flush_worker split: worker.split prod.split recv_outcome.split)

text \<open>
  A running worker that receives as often as its queue is long empties it, and its next tick
  saves what it holds: nothing accepted so far is left unsaved.
\<close>

lemma receive_queue:
  "sv_worker s \<noteq> NotStarted \<Longrightarrow> sv_worker s \<noteq> Finished \<Longrightarrow> chan_buf (sv_persistCh s) \<noteq> [] \<Longrightarrow>
   chan_buf (sv_persistCh (worker_receive D s)) = tl (chan_buf (sv_persistCh s)) \<and>
   sv_worker (worker_receive D s) \<noteq> NotStarted \<and> sv_worker (worker_receive D s) \<noteq> Finished"
  by (cases "chan_buf (sv_persistCh s)")
    (auto simp: worker_receive_def chan_recv_def Let_def flush_worker split: worker.split)

lemma receives_all:
  assumes "dep_SaveBatch D = recording save"
  shows "kept n acc s \<Longrightarrow> sv_worker s \<noteq> NotStarted \<Longrightarrow> length (chan_buf (sv_persistCh s)) = k \<Longrightarrow>
    kept n acc ((worker_receive D ^^ k) s) \<and> chan_buf (sv_persistCh ((worker_receive D ^^ k) s)) = []"
proof (induction k arbitrary: s)
  case (Suc k)
  have "chan_buf (sv_persistCh s) \<noteq> []" using Suc.prems(3) by auto
  moreover from this have "sv_worker s \<noteq> Finished"
    using Suc.prems(1) by (auto simp: kept_def persist_ok_def)
  ultimately have r: "length (chan_buf (sv_persistCh (worker_receive D s))) = k"
    "sv_worker (worker_receive D s) \<noteq> NotStarted"
    using receive_queue [OF Suc.prems(2), of D] Suc.prems(3) by simp_all
  from Suc.IH [OF kept_receive [OF assms Suc.prems(1)] r(2,1)] show ?case by (simp add: funpow_swap1)
qed simp

lemma tick_saves_all:
  assumes "dep_SaveBatch D = recording save" "kept n acc s" "chan_buf (sv_persistCh s) = []"
  shows "concat (save_calls (worker_tick D s)) = acc"
proof -
  have "conserves acc (flush D s)" using kept_flush [OF assms(1,2)] by (simp add: kept_def)
  moreover have "pending_batch (flush D s) = []" by (simp add: pending_batch_def flush_worker split: worker.split)
  ultimately show ?thesis using assms(3) by (simp add: conserves_def worker_tick_def)
qed

lemma worker_started_drain:
  "sv_worker s \<noteq> NotStarted \<Longrightarrow> sv_worker (worker_drain D s) \<noteq> NotStarted"
proof (induction D s rule: worker_drain.induct)
  case (1 D s)
  then show ?case by (subst worker_drain.simps) (simp add: worker_started_receive)
qed

text \<open>Once the queue is closed, the worker comes to its end with nothing left.\<close>

lemma worker_drain_closed:
  assumes "persist_ok s" "sv_persistClosed s" "sv_worker s \<noteq> NotStarted"
  shows "sv_worker (worker_drain D s) = Finished \<and> chan_buf (sv_persistCh (worker_drain D s)) = []"
proof -
  from persist_ok_drain [OF assms(1), of D] assms(2)
  have "chan_closed (sv_persistCh (worker_drain D s))" by (simp add: persist_ok_def)
  with worker_drain_idle [of D s] worker_started_drain [OF assms(3), of D]
  have "sv_worker (worker_drain D s) = Finished"
    by (auto simp: worker_busy_def split: worker.splits)
  with persist_ok_drain [OF assms(1), of D] show ?thesis by (simp add: persist_ok_def)
qed

section \<open>The queue as a bounded queue that drops the newest\<close>

definition service_offer ::
    "danmaku \<Rightarrow> ('b, 'h, 'l, 'r) service \<Rightarrow> bool \<times> ('b, 'h, 'l, 'r) service" where
  "service_offer m s = (accepts s, case enqueuePersistence m s of Some s' \<Rightarrow> s' | None \<Rightarrow> s)"

definition service_queue :: "('b, 'h, 'l, 'r) service \<Rightarrow> danmaku list" where
  "service_queue s = chan_buf (sv_persistCh s)"

definition service_room :: "('b, 'h, 'l, 'r) service \<Rightarrow> nat" where
  "service_room s = chan_room (sv_persistCh s)"

definition service_accepting :: "('b, 'h, 'l, 'r) service \<Rightarrow> bool" where
  "service_accepting s \<longleftrightarrow> persist_ok s \<and> \<not> sv_persistClosed s"

lemma service_accepts_iff:
  "service_accepting s \<Longrightarrow> accepts s \<longleftrightarrow> 0 < service_room s"
  by (auto simp: service_accepting_def accepts_def service_room_def chan_room_def)

lemma enqueuePersistence_queue:
  assumes "service_accepting s"
  shows "\<exists>s'. enqueuePersistence m s = Some s' \<and> service_accepting s' \<and>
    service_queue s' = service_queue s @ (if 0 < service_room s then [m] else []) \<and>
    service_room s' = service_room s - 1"
proof -
  from assms have ok: "persist_ok s" and open_s: "\<not> sv_persistClosed s"
    by (simp_all add: service_accepting_def)
  from enqueuePersistence_ok [OF ok, of m] obtain s' where
    e: "enqueuePersistence m s = Some s'" and ok': "persist_ok s'"
    and buf: "chan_buf (sv_persistCh s') = chan_buf (sv_persistCh s) @ (if accepts s then [m] else [])"
    by blast
  from e open_s have "\<not> sv_persistClosed s'" "chan_cap (sv_persistCh s') = chan_cap (sv_persistCh s)"
    by (auto simp: enqueuePersistence_def chan_try_send_def split: if_splits)
  with e ok' buf service_accepts_iff [OF assms] show ?thesis
    by (auto simp: service_accepting_def service_queue_def service_room_def chan_room_def)
qed

lemma service_offer_laws:
  assumes "service_accepting q"
  shows "fst (service_offer x q) \<longleftrightarrow> 0 < service_room q"
    "service_queue (snd (service_offer x q)) =
      service_queue q @ (if 0 < service_room q then [x] else [])"
    "service_room (snd (service_offer x q)) = service_room q - 1"
    "service_accepting (snd (service_offer x q))"
  using enqueuePersistence_queue [OF assms, of x]
  by (auto simp: service_offer_def service_accepts_iff [OF assms])

interpretation service_queue: drop_newest service_offer service_queue service_room service_accepting
  by unfold_locales (simp_all add: service_offer_laws)

lemma persist_run_offers:
  "service_accepting s \<Longrightarrow>
   map_option fst (persist_run D (map Offer ms) acc s) = Some (snd (service_queue.offer_all ms s))"
proof (induction ms arbitrary: s acc)
  case (Cons m ms)
  from enqueuePersistence_queue [OF Cons.prems, of m] obtain s' where
    e: "enqueuePersistence m s = Some s'" and ready: "service_accepting s'" by blast
  from e have "snd (service_offer m s) = s'" by (simp add: service_offer_def)
  with Cons.IH [OF ready] e show ?case
    by (simp add: persist_step_def case_prod_beta Let_def)
qed simp

section \<open>The counters of the queue\<close>

fun offers :: "persist_event list \<Rightarrow> danmaku list" where
  "offers [] = []"
| "offers (Offer m # es) = m # offers es"
| "offers (e # es) = offers es"

lemma flush_queue_metrics:
  "map_option persistQueued (sv_metrics (flush D s)) = map_option persistQueued (sv_metrics s)"
  "map_option persistDropped (sv_metrics (flush D s)) = map_option persistDropped (sv_metrics s)"
  by (auto simp: flush_def Let_def IncPersistFailed_def option.map_comp comp_def
      split: worker.split prod.split)

lemma receive_queue_metrics:
  "map_option persistQueued (sv_metrics (worker_receive D s)) = map_option persistQueued (sv_metrics s)"
  "map_option persistDropped (sv_metrics (worker_receive D s)) = map_option persistDropped (sv_metrics s)"
  using flush_queue_metrics [of D]
  by (auto simp: worker_receive_def Let_def split: worker.split prod.split recv_outcome.split)

definition queue_counters :: "('b, 'h, 'l, 'r) service \<Rightarrow> (int64 \<times> int64) option" where
  "queue_counters s = map_option (\<lambda>m. (persistQueued m, persistDropped m)) (sv_metrics s)"

lemma queue_counters_frame [simp]:
  "queue_counters (flush D s) = queue_counters s"
  "queue_counters (worker_receive D s) = queue_counters s"
  using flush_queue_metrics [of D s] receive_queue_metrics [of D s]
  by (cases "sv_metrics s"; auto simp: queue_counters_def)+

lemma enqueue_counters:
  assumes "enqueuePersistence m s = Some s'" "persist_ok s"
  shows "queue_counters s' =
    map_option (\<lambda>(q, d). if accepts s then (q + 1, d) else (q, d + 1)) (queue_counters s)"
  using assms
  by (auto simp: enqueuePersistence_def chan_try_send_def accepts_def queue_counters_def
      persist_ok_def IncPersistQueued_def IncPersistDropped_def option.map_comp comp_def
      split: if_splits)

lemma close_counters: "close_persistence s = Some s' \<Longrightarrow> queue_counters s' = queue_counters s"
  by (auto simp: close_persistence_def queue_counters_def split: if_splits)

lemma run_counters:
  "persist_ok s \<Longrightarrow> persist_run D es acc s = Some (s', acc') \<Longrightarrow>
   queue_counters s = Some (of_nat (length acc), of_nat d) \<Longrightarrow>
   queue_counters s' =
     Some (of_nat (length acc'), of_nat (d + length acc + length (offers es) - length acc')) \<and>
   length acc' \<le> length acc + length (offers es)"
proof (induction es arbitrary: acc s d)
  case (Cons e es)
  from persist_step_ok [OF Cons.prems(1), of D e] obtain s1
    where step: "persist_step D e s = Some s1" and ok1: "persist_ok s1" by blast
  show ?case
  proof (cases e)
    case (Offer m)
    with step have "enqueuePersistence m s = Some s1" by (simp add: persist_step_def)
    from enqueue_counters [OF this Cons.prems(1)] Cons.prems(3)
    have "queue_counters s1 =
        (if accepts s then Some (of_nat (length (acc @ [m])), of_nat d)
         else Some (of_nat (length acc), of_nat (Suc d)))"
      by (simp add: add.commute)
    with Cons.IH [OF ok1, of "if accepts s then acc @ [m] else acc"
        "if accepts s then d else Suc d"] Cons.prems(2) step Offer
    show ?thesis by (auto split: if_splits)
  next
    case Tick
    with Cons.IH [OF ok1, of acc d] Cons.prems step show ?thesis
      by (auto simp: persist_step_def worker_tick_def)
  next
    case Receive
    with Cons.IH [OF ok1, of acc d] Cons.prems step show ?thesis
      by (auto simp: persist_step_def)
  next
    case ClosePersist
    with step have "close_persistence s = Some s1" by (simp add: persist_step_def)
    from close_counters [OF this] Cons.IH [OF ok1, of acc d] Cons.prems step ClosePersist
    show ?thesis by simp
  qed
qed simp

text \<open>A worker that was started stays started.\<close>

lemma started_step:
  "persist_step D e s = Some s' \<Longrightarrow> sv_worker s \<noteq> NotStarted \<Longrightarrow> sv_worker s' \<noteq> NotStarted"
  by (cases e) (auto simp: persist_step_def worker_tick_def flush_worker worker_started_receive
      enqueuePersistence_def close_persistence_def
      split: worker.splits if_splits prod.splits send_outcome.splits)

lemma started_run:
  "persist_run D es acc s = Some (s', acc') \<Longrightarrow> sv_worker s \<noteq> NotStarted \<Longrightarrow> sv_worker s' \<noteq> NotStarted"
proof (induction es arbitrary: acc s)
  case (Cons e es)
  then show ?case using started_step by (fastforce split: option.splits)
qed simp

section \<open>The service at work\<close>

text \<open>
  \<open>persist_service\<close> is a service as \<open>main\<close> sets it up: new, with its worker started. Its
  repository records the batches it is given.
\<close>

definition persist_service ::
    "int64 \<Rightarrow> duration \<Rightarrow> string \<Rightarrow> limit_config \<Rightarrow> hub \<Rightarrow> client_heap \<Rightarrow> 'b \<Rightarrow> 'r \<Rightarrow> 'l \<Rightarrow> metrics option \<Rightarrow>
     ('b, 'h, 'l, danmaku list list \<times> 'r) service" where
  "persist_service n interval nodeID cfg hub heap br repo limit_st m =
     StartPersistenceWorker n interval (NewMessageService nodeID cfg hub heap br ([], repo) limit_st m)"

definition batch_size :: "int64 \<Rightarrow> nat" where
  "batch_size n = nat (sint (if sint n \<le> 0 then 50 else n))"

lemma batch_size_pos: "0 < batch_size n"
  by (simp add: batch_size_def)

lemma persist_service_kept: "kept (batch_size n) [] (persist_service n i u cfg hub heap br r l m)"
  using batch_size_pos [of n]
  unfolding kept_def persist_service_def StartPersistenceWorker_def NewMessageService_def
  by (simp add: persist_ok_def conserves_def batches_ok_def batch_size_def
      make_chan_def chan_ok_def save_calls_def pending_batch_def Let_def split del: if_split)

lemma persist_service_ok: "persist_ok (persist_service n i u cfg hub heap br r l m)"
  by (rule conjunct1 [OF persist_service_kept [unfolded kept_def]])

lemma persist_service_run:
  "\<exists>s acc. persist_run D es [] (persist_service n i u cfg hub heap br r l m) = Some (s, acc)"
  using run_no_panic [OF persist_service_ok, where D = D and es = es] by metis

lemma persist_service_accepting:
  "service_accepting (persist_service n i u cfg hub heap br r l m)"
  "service_queue (persist_service n i u cfg hub heap br r l m) = []"
  "service_room (persist_service n i u cfg hub heap br r l m) = 4096"
  by (simp_all add: service_accepting_def persist_service_ok)
    (simp_all add: persist_service_def service_queue_def
      service_room_def StartPersistenceWorker_def NewMessageService_def make_chan_def chan_room_def
      Let_def)

lemma persist_service_counters:
  "queue_counters (persist_service n i u cfg hub heap br r l (Some new_metrics)) = Some (0, 0)"
  by (simp add: persist_service_def queue_counters_def StartPersistenceWorker_def
      NewMessageService_def new_metrics_def Let_def)

lemma persist_service_started: "sv_worker (persist_service n i u cfg hub heap br r l m) \<noteq> NotStarted"
  by (simp add: persist_service_def StartPersistenceWorker_def NewMessageService_def Let_def)

text \<open>Dependencies for the examples: the Redis broker and limiter, and a table held as a list.\<close>

definition demo_deps :: "((nat, nat) redis_broker, ptr, kv, danmaku list list \<times> danmaku list) deps" where
  "demo_deps =
     \<lparr>dep_broker = redis_broker_ops demo_pubsub 0 sorted_list_of_set,
      dep_Allow = RedisAllow kv_cmds int_lua,
      dep_SaveBatch = recording (SaveBatch list_db),
      dep_ListByRoom = (\<lambda>now room l before r. ListByRoom list_db now room l before (snd r))\<rparr>"

definition demo_limits :: limit_config where
  "demo_limits =
     \<lparr>cfg_UserCount = 5, cfg_UserWindow = seconds 3, cfg_IPCount = 20, cfg_IPWindow = seconds 3,
      cfg_RoomCount = 200, cfg_RoomWindow = seconds 1\<rparr>"

abbreviation demo_service ::
    "((nat, nat) redis_broker, ptr, kv, danmaku list list \<times> danmaku list) service" where
  "demo_service \<equiv> persist_service 2 500000000 ''node-1'' demo_limits demo_hub demo_heap
     (NewRedisPubSubBroker 0) [] kv_empty (Some new_metrics)"

lemma demo_deps_recording: "dep_SaveBatch demo_deps = recording (SaveBatch list_db)"
  by (simp add: demo_deps_def)

text \<open>
  C12. However messages are offered, the ticker fires, the worker receives and the queue is
  closed, nothing panics, and every message the queue accepted is in exactly one place: the
  batches handed to \<open>SaveBatch\<close> so far, the batch being filled and the queue, one after the
  other, are the accepted messages in the order they were accepted. Every batch handed over is
  non-empty and at most as long as the batch size.
\<close>

theorem persistence_conserves:
  assumes "dep_SaveBatch D = recording save"
  shows "\<exists>s acc. persist_run D es [] (persist_service n i u cfg hub heap br r l m) = Some (s, acc) \<and>
    concat (save_calls s) @ pending_batch s @ chan_buf (sv_persistCh s) = acc \<and>
    (\<forall>b \<in> set (save_calls s). b \<noteq> [] \<and> length b \<le> batch_size n)"
proof -
  obtain s acc where
    run: "persist_run D es [] (persist_service n i u cfg hub heap br r l m) = Some (s, acc)"
    using persist_service_run by metis
  with kept_run [OF assms persist_service_kept run] show ?thesis
    by (auto simp: kept_def conserves_def batches_ok_def)
qed

theorem persistence_conserves_witness:
  "\<exists>s acc. persist_run demo_deps [Offer (demo_row 1 10), Receive, Offer (demo_row 2 20), ClosePersist, Receive, Receive]
     [] demo_service = Some (s, acc) \<and>
   concat (save_calls s) @ pending_batch s @ chan_buf (sv_persistCh s) = acc \<and>
   (\<forall>b \<in> set (save_calls s). b \<noteq> [] \<and> length b \<le> batch_size 2)"
  by (rule persistence_conserves [OF demo_deps_recording])

text \<open>
  After any such run, closing the queue and waiting for the worker brings the worker to
  its end with the queue empty, and what was handed to \<open>SaveBatch\<close> is, batch after batch, all
  that was ever accepted: shutting down loses no accepted message.
\<close>

lemma close_drains_persistence:
  assumes "dep_SaveBatch D = recording save"
    and "persist_run D es [] (persist_service n i u cfg hub heap br r l m) = Some (s, acc)"
  shows "\<exists>s'. close_persistence s = Some s' \<and> sv_worker (worker_drain D s') = Finished \<and>
    chan_buf (sv_persistCh (worker_drain D s')) = [] \<and>
    concat (save_calls (worker_drain D s')) = acc"
proof -
  note k = kept_run [OF assms(1) persist_service_kept assms(2)]
  then have ok: "persist_ok s" by (simp add: kept_def)
  from close_persistence_ok [OF ok] obtain s' where
    c: "close_persistence s = Some s'" and ok': "persist_ok s'" "sv_closeOnce s'"
    "sv_worker s' = sv_worker s" by blast
  have "sv_worker s \<noteq> NotStarted" by (rule started_run [OF assms(2)]) (rule persist_service_started)
  with ok' worker_drain_closed [of s' D]
  have "sv_worker (worker_drain D s') = Finished" "chan_buf (sv_persistCh (worker_drain D s')) = []"
    by (auto simp: persist_ok_def)
  with kept_drain [OF assms(1) kept_close [OF k c]] c show ?thesis
    by (auto simp: kept_def conserves_def pending_batch_def)
qed

text \<open>
  With nobody receiving, the queue keeps the first 4096 messages offered, in order, and
  drops the others without failing.
\<close>

lemma persist_queue_keeps_oldest:
  "\<exists>s acc. persist_run D (map Offer ms) [] (persist_service n i u cfg hub heap br r l m) = Some (s, acc) \<and>
     chan_buf (sv_persistCh s) = take 4096 ms"
proof -
  let ?s0 = "persist_service n i u cfg hub heap br r l m"
  note a = persist_service_accepting [where n = n and i = i]
  have "map_option fst (persist_run D (map Offer ms) [] ?s0) =
    Some (snd (service_queue.offer_all ms ?s0))"
    by (rule persist_run_offers [OF a(1)])
  then obtain s acc where run: "persist_run D (map Offer ms) [] ?s0 = Some (s, acc)"
    and s: "s = snd (service_queue.offer_all ms ?s0)" by auto
  have "service_queue s = take 4096 ms"
    unfolding s by (simp only: service_queue.offer_all_contents [OF a(1)] a append_Nil)
  with run show ?thesis by (auto simp: service_queue_def)
qed

text \<open>
  The metrics account for every message that was offered: the queued counter is the number
  of accepted messages and the dropped counter that of the others, modulo the counters' width.
\<close>

lemma persist_metrics_account:
  assumes "persist_run D es [] (persist_service n i u cfg hub heap br r l (Some new_metrics)) = Some (s, acc)"
  shows "queue_counters s = Some (of_nat (length acc), of_nat (length (offers es) - length acc)) \<and>
    length acc \<le> length (offers es)"
proof -
  from run_counters [OF persist_service_ok assms, of 0] show ?thesis
    by (simp add: persist_service_counters)
qed

lemma persist_metrics_account_example:
  "\<exists>s acc. persist_run demo_deps [Offer (demo_row 1 10), ClosePersist, Offer (demo_row 2 20)] [] demo_service =
     Some (s, acc) \<and> queue_counters s = Some (of_nat (length acc), of_nat (2 - length acc))"
proof -
  obtain s acc where "persist_run demo_deps [Offer (demo_row 1 10), ClosePersist, Offer (demo_row 2 20)] []
    demo_service = Some (s, acc)" using persist_service_run by metis
  with persist_metrics_account [OF this] show ?thesis by auto
qed

end
