(* ===== verification/Subscriptions.thy ===== *)
theory Subscriptions
  imports Persistence "HOL-Library.Multiset"
begin

text \<open>
  The reference-counted room subscriptions of the message service: the first connection of a
  room subscribes to the broker, the last one unsubscribes, and the handler that a subscription
  installs broadcasts incoming messages to the connections of this node.
\<close>

section \<open>The handler\<close>

definition outbound_of :: "broadcast_message \<Rightarrow> ws_outbound" where
  "outbound_of message =
     zero_outbound\<lparr>out_Type := ''danmaku'', out_MessageID := bc_MessageID message,
       out_RoomID := bc_RoomID message, out_UserID := bc_UserID message,
       out_Content := bc_Content message, out_NodeID := bc_NodeID message,
       out_Timestamp := bc_Timestamp message\<rparr>"

text \<open>
  The handler takes two locks one after the other: it first reads the size of the room, then
  broadcasts and counts. \<open>localClients\<close> is what the first step read.
\<close>

definition handle_broadcast ::
    "(ptr set \<Rightarrow> ptr list) \<Rightarrow> string \<Rightarrow> broadcast_message \<Rightarrow> nat \<Rightarrow>
     ('b, 'h, 'l, 'r) service \<Rightarrow> ('b, 'h, 'l, 'r) service" where
  "handle_broadcast order roomID message localClients s =
     (case BroadcastLocal order roomID (outbound_of message) (sv_hub s) (sv_heap s) of
        (delivered, heap') \<Rightarrow>
          with_metrics (\<lambda>m. AddMessageBroadcastDrop (of_nat localClients - of_nat delivered)
                              (AddMessageBroadcast (of_nat delivered) m))
            (s\<lparr>sv_heap := heap'\<rparr>))"

definition room_handler ::
    "(ptr set \<Rightarrow> ptr list) \<Rightarrow> string \<Rightarrow> broadcast_message \<Rightarrow>
     ('b, 'h, 'l, 'r) service \<Rightarrow> ('b, 'h, 'l, 'r) service" where
  "room_handler order roomID message s =
     handle_broadcast order roomID message (RoomSize roomID (sv_hub s)) s"

section \<open>Acquiring and releasing\<close>

text \<open>
  The reference count is an unbounded integer here: it is bounded by the number of connections
  of the node, far below the width of Go's \<open>int\<close>.
\<close>

definition AcquireRoomSubscription ::
    "('b, 'h, 'l, 'r) deps \<Rightarrow> string \<Rightarrow> ('b, 'h, 'l, 'r) service \<Rightarrow>
     go_error option \<times> ('b, 'h, 'l, 'r) service" where
  "AcquireRoomSubscription D roomID s =
     (case sv_subscriptions s roomID of
        Some subscription \<Rightarrow>
          (None, s\<lparr>sv_subscriptions := (sv_subscriptions s)
             (roomID \<mapsto> subscription\<lparr>rs_refs := rs_refs subscription + 1\<rparr>)\<rparr>)
      | None \<Rightarrow>
          (case Subscribe (dep_broker D) roomID (sv_broker s) of
             (Inl err, b) \<Rightarrow> (Some err, s\<lparr>sv_broker := b\<rparr>)
           | (Inr unsubscribe, b) \<Rightarrow>
               (None, s\<lparr>sv_broker := b,
                        sv_subscriptions := (sv_subscriptions s)
                          (roomID \<mapsto> \<lparr>rs_refs = 1, rs_unsubscribe = unsubscribe\<rparr>)\<rparr>)))"

text \<open>
  Releasing holds the lock only while it changes the table; the unsubscribe function is called
  afterwards. \<open>release_begin\<close> is the locked part and returns the function to call, if any.
\<close>

definition release_begin ::
    "string \<Rightarrow> ('b, 'h, 'l, 'r) service \<Rightarrow> 'h option \<times> ('b, 'h, 'l, 'r) service" where
  "release_begin roomID s =
     (case sv_subscriptions s roomID of
        None \<Rightarrow> (None, s)
      | Some subscription \<Rightarrow>
          let refs = rs_refs subscription - 1 in
          if 0 < refs
          then (None, s\<lparr>sv_subscriptions := (sv_subscriptions s)
                  (roomID \<mapsto> subscription\<lparr>rs_refs := refs\<rparr>)\<rparr>)
          else (Some (rs_unsubscribe subscription),
                s\<lparr>sv_subscriptions := (sv_subscriptions s)(roomID := None)\<rparr>))"

definition release_finish ::
    "('b, 'h, 'l, 'r) deps \<Rightarrow> 'h \<Rightarrow> ('b, 'h, 'l, 'r) service \<Rightarrow>
     go_error option \<times> ('b, 'h, 'l, 'r) service" where
  "release_finish D unsubscribe s =
     (case Unsubscribe (dep_broker D) unsubscribe (sv_broker s) of (err, b) \<Rightarrow> (err, s\<lparr>sv_broker := b\<rparr>))"

definition ReleaseRoomSubscription ::
    "('b, 'h, 'l, 'r) deps \<Rightarrow> string \<Rightarrow> ('b, 'h, 'l, 'r) service \<Rightarrow>
     go_error option \<times> ('b, 'h, 'l, 'r) service" where
  "ReleaseRoomSubscription D roomID s =
     (case release_begin roomID s of
        (None, s') \<Rightarrow> (None, s')
      | (Some unsubscribe, s') \<Rightarrow> release_finish D unsubscribe s')"

lemma Acquire_frame [simp]:
  assumes "AcquireRoomSubscription D r s = (err, s')"
  shows "sv_hub s' = sv_hub s" "sv_heap s' = sv_heap s" "sv_metrics s' = sv_metrics s"
  using assms
  by (auto simp: AcquireRoomSubscription_def split: option.splits prod.splits sum.splits)

lemma release_begin_frame [simp]:
  assumes "release_begin r s = (h, s')"
  shows "sv_hub s' = sv_hub s" "sv_heap s' = sv_heap s" "sv_broker s' = sv_broker s"
  using assms by (auto simp: release_begin_def Let_def split: option.splits if_splits)

lemma release_begin_table:
  assumes "release_begin r s = (h, s')"
  shows "\<exists>subs. s' = s\<lparr>sv_subscriptions := subs\<rparr>"
proof (cases "sv_subscriptions s r")
  case None
  with assms have "s' = s\<lparr>sv_subscriptions := sv_subscriptions s\<rparr>" by (simp add: release_begin_def)
  then show ?thesis by blast
next
  case (Some e)
  with assms show ?thesis by (auto simp: release_begin_def Let_def split: if_splits)
qed

section \<open>Interleaved runs\<close>

text \<open>
  A state of the run: the service, the multiset of rooms acquired and not yet released, one
  occurrence for each holder, and the unsubscribe functions that a release has taken out of
  the table and not yet called. Every step is what one goroutine does under one lock.
\<close>

type_synonym ('b, 'h, 'l, 'r) sub_state =
  "('b, 'h, 'l, 'r) service \<times> string multiset \<times> 'h multiset"

inductive sub_step ::
    "('b, 'h, 'l, 'r) deps \<Rightarrow> ('b, 'h, 'l, 'r) sub_state \<Rightarrow> ('b, 'h, 'l, 'r) sub_state \<Rightarrow> bool"
  for D where
  acquire_ok: "AcquireRoomSubscription D r s = (None, s') \<Longrightarrow>
    sub_step D (s, holders, pending) (s', add_mset r holders, pending)"
| acquire_fails: "AcquireRoomSubscription D r s = (Some e, s') \<Longrightarrow>
    sub_step D (s, holders, pending) (s', holders, pending)"
| release_shared: "r \<in># holders \<Longrightarrow> release_begin r s = (None, s') \<Longrightarrow>
    sub_step D (s, holders, pending) (s', holders - {#r#}, pending)"
| release_last: "r \<in># holders \<Longrightarrow> release_begin r s = (Some h, s') \<Longrightarrow>
    sub_step D (s, holders, pending) (s', holders - {#r#}, add_mset h pending)"
| unsubscribes: "h \<in># pending \<Longrightarrow> release_finish D h s = (err, s') \<Longrightarrow>
    sub_step D (s, holders, pending) (s', holders, pending - {#h#})"
| publishes: "Publish (dep_broker D) msg (sv_broker s) = (err, b) \<Longrightarrow>
    sub_step D (s, holders, pending) (s\<lparr>sv_broker := b\<rparr>, holders, pending)"
| handles: "sub_step D (s, holders, pending) (handle_broadcast order r m n s, holders, pending)"

inductive sub_reach ::
    "('b, 'h, 'l, 'r) deps \<Rightarrow> ('b, 'h, 'l, 'r) service \<Rightarrow> ('b, 'h, 'l, 'r) sub_state \<Rightarrow> bool"
  for D s0 where
  sub_reach_init: "sub_reach D s0 (s0, {#}, {#})"
| sub_reach_step: "sub_reach D s0 st \<Longrightarrow> sub_step D st st' \<Longrightarrow> sub_reach D s0 st'"

text \<open>
  The invariant relates the table, the holders and the broker: the count of an entry is the
  number of holders of its room and its subscription is live; the subscriptions taken out of
  the table are live, each once and none of them in the table; and no other subscription is.
\<close>

definition subs_rel ::
    "(string \<rightharpoonup> 'h room_subscription) \<Rightarrow> ('h \<rightharpoonup> string) \<Rightarrow> string multiset \<Rightarrow> 'h multiset \<Rightarrow> bool" where
  "subs_rel subs lv holders pending \<longleftrightarrow>
     (\<forall>r. subs r = None \<longrightarrow> r \<notin># holders) \<and>
     (\<forall>r e. subs r = Some e \<longrightarrow> r \<in># holders \<and> rs_refs e = int (count holders r) \<and>
        lv (rs_unsubscribe e) = Some r \<and> rs_unsubscribe e \<notin># pending) \<and>
     (\<forall>h. h \<in># pending \<longrightarrow> lv h \<noteq> None \<and> count pending h = 1) \<and>
     (\<forall>h r. lv h = Some r \<longrightarrow> h \<notin># pending \<longrightarrow>
        (\<exists>e. subs r = Some e \<and> rs_unsubscribe e = h))"

definition subs_inv ::
    "('b \<Rightarrow> 'h \<rightharpoonup> string) \<Rightarrow> ('b \<Rightarrow> bool) \<Rightarrow> ('b, 'h, 'l, 'r) sub_state \<Rightarrow> bool" where
  "subs_inv live broker_ok st \<longleftrightarrow>
     (case st of (s, holders, pending) \<Rightarrow>
        broker_ok (sv_broker s) \<and>
        subs_rel (sv_subscriptions s) (live (sv_broker s)) holders pending)"

lemma subs_relD:
  assumes "subs_rel subs lv holders pending"
  shows "subs r = None \<Longrightarrow> r \<notin># holders"
    "subs r = Some e \<Longrightarrow> r \<in># holders" "subs r = Some e \<Longrightarrow> rs_refs e = int (count holders r)"
    "subs r = Some e \<Longrightarrow> lv (rs_unsubscribe e) = Some r"
    "subs r = Some e \<Longrightarrow> rs_unsubscribe e \<notin># pending"
    "h \<in># pending \<Longrightarrow> lv h \<noteq> None" "h \<in># pending \<Longrightarrow> count pending h = 1"
    "lv h = Some r \<Longrightarrow> h \<notin># pending \<Longrightarrow> \<exists>e. subs r = Some e \<and> rs_unsubscribe e = h"
  using assms unfolding subs_rel_def by simp_all

lemma subs_relI:
  assumes "\<And>r. subs r = None \<Longrightarrow> r \<notin># holders"
    and "\<And>r e. subs r = Some e \<Longrightarrow> r \<in># holders \<and> rs_refs e = int (count holders r) \<and>
      lv (rs_unsubscribe e) = Some r \<and> rs_unsubscribe e \<notin># pending"
    and "\<And>h. h \<in># pending \<Longrightarrow> lv h \<noteq> None \<and> count pending h = 1"
    and "\<And>h r. lv h = Some r \<Longrightarrow> h \<notin># pending \<Longrightarrow> \<exists>e. subs r = Some e \<and> rs_unsubscribe e = h"
  shows "subs_rel subs lv holders pending"
  using assms unfolding subs_rel_def by blast

lemma subs_rel_empty: "subs_rel Map.empty Map.empty {#} {#}"
  by (simp add: subs_rel_def)

text \<open>What each change of the table and of the live subscriptions does to the relation.\<close>

lemma subs_rel_new:
  assumes rel: "subs_rel subs lv holders pending" and none: "subs r = None" and dead: "lv h = None"
  shows "subs_rel (subs(r \<mapsto> \<lparr>rs_refs = 1, rs_unsubscribe = h\<rparr>)) (lv(h \<mapsto> r))
    (add_mset r holders) pending"
proof -
  note D = subs_relD [OF rel]
  have c0: "count holders r = 0" using D(1) [OF none] by (simp add: not_in_iff)
  have hp: "h \<notin># pending" using dead D(6) by blast
  have old: "rs_unsubscribe e \<noteq> h" if "subs r' = Some e" for r' e using D(4) [OF that] dead by auto
  show ?thesis
  proof (rule subs_relI, goal_cases)
    case (1 r')
    then show ?case using D(1) by (auto split: if_splits)
  next
    case (2 r' e)
    then show ?case using D(2-5) c0 hp old by (auto split: if_splits)
  next
    case (3 h')
    then show ?case using D(6,7) by auto
  next
    case (4 h' r')
    then show ?case using D(8) none by (fastforce split: if_splits)
  qed
qed

lemma subs_rel_more:
  assumes rel: "subs_rel subs lv holders pending" and some: "subs r = Some e"
  shows "subs_rel (subs(r \<mapsto> e\<lparr>rs_refs := rs_refs e + 1\<rparr>)) lv (add_mset r holders) pending"
proof -
  note D = subs_relD [OF rel]
  show ?thesis
  proof (rule subs_relI, goal_cases)
    case (1 r')
    then show ?case using D(1) by (auto split: if_splits)
  next
    case (2 r' e')
    then show ?case using D(2-5) some by (auto split: if_splits)
  next
    case (3 h)
    then show ?case using D(6,7) by auto
  next
    case (4 h r')
    then show ?case using D(8) some by (fastforce split: if_splits)
  qed
qed

lemma subs_rel_less:
  assumes rel: "subs_rel subs lv holders pending" and some: "subs r = Some e"
    and more: "0 < rs_refs e - 1"
  shows "subs_rel (subs(r \<mapsto> e\<lparr>rs_refs := rs_refs e - 1\<rparr>)) lv (holders - {#r#}) pending"
proof -
  note D = subs_relD [OF rel]
  have two: "1 < count holders r" using D(3) [OF some] more by simp
  show ?thesis
  proof (rule subs_relI, goal_cases)
    case (1 r')
    then show ?case using D(1) by (auto dest: in_diffD split: if_splits)
  next
    case (2 r' e')
    show ?case
    proof (cases "r' = r")
      case True
      with 2 two D(3-5) [OF some] show ?thesis
        by (auto simp: count_greater_zero_iff [symmetric] simp del: count_greater_zero_iff)
    next
      case False
      with 2 have "subs r' = Some e'" by simp
      with False D(2-5) show ?thesis by (simp add: in_diff_count count_greater_zero_iff)
    qed
  next
    case (3 h)
    then show ?case using D(6,7) by auto
  next
    case (4 h r')
    then show ?case using D(8) some by (fastforce split: if_splits)
  qed
qed

lemma subs_rel_last:
  assumes rel: "subs_rel subs lv holders pending" and some: "subs r = Some e"
    and last: "\<not> 0 < rs_refs e - 1"
  shows "subs_rel (subs(r := None)) lv (holders - {#r#}) (add_mset (rs_unsubscribe e) pending)"
proof -
  note D = subs_relD [OF rel]
  have "0 < count holders r" using D(2) [OF some] by simp
  with D(3) [OF some] last have one: "count holders r = 1" by linarith
  have zero: "count pending (rs_unsubscribe e) = 0" using D(5) [OF some] by (simp add: not_in_iff)
  show ?thesis
  proof (rule subs_relI, goal_cases)
    case (1 r')
    then show ?case using D(1) [of r'] one by (auto simp: in_diff_count not_in_iff split: if_splits)
  next
    case (2 r' e')
    then have r': "r' \<noteq> r" "subs r' = Some e'" by (auto split: if_splits)
    with D(4) [OF r'(2)] D(4) [OF some] have "rs_unsubscribe e' \<noteq> rs_unsubscribe e" by auto
    with r' D(2-5) show ?case by (simp add: in_diff_count count_greater_zero_iff)
  next
    case (3 h)
    then show ?case using D(6,7) [of h] D(4) [OF some] zero by (auto simp: not_in_iff)
  next
    case (4 h r')
    then show ?case using D(8) [of h r'] some by auto
  qed
qed

lemma subs_rel_unsubscribe:
  assumes rel: "subs_rel subs lv holders pending" and h: "h \<in># pending"
  shows "subs_rel subs (lv(h := None)) holders (pending - {#h#})"
proof -
  note D = subs_relD [OF rel]
  have "count pending h = 1" by (rule D(7) [OF h])
  then have keep: "h' \<in># pending - {#h#} \<longleftrightarrow> h' \<in># pending \<and> h' \<noteq> h" for h'
    by (auto simp: in_diff_count count_greater_zero_iff [symmetric] simp del: count_greater_zero_iff)
  show ?thesis
  proof (rule subs_relI, goal_cases)
    case (1 r')
    then show ?case using D(1) by auto
  next
    case (2 r' e')
    with D(2-5) [OF 2] h keep show ?case by auto
  next
    case (3 h')
    then show ?case using D(6,7) [of h'] keep by auto
  next
    case (4 h' r')
    then show ?case using D(8) [of h' r'] keep by (auto split: if_splits)
  qed
qed

text \<open>Every step of a client of a broker keeps the relation.\<close>

context broker_iface
begin

lemma subs_inv_acquire:
  assumes "dep_broker D = B" "subs_inv live broker_ok (s, holders, pending)"
    and "AcquireRoomSubscription D r s = (err, s')"
  shows "subs_inv live broker_ok (s', if err = None then add_mset r holders else holders, pending)"
proof (cases "sv_subscriptions s r")
  case None
  obtain res b where sub: "Subscribe B r (sv_broker s) = (res, b)" by fastforce
  from assms(2) have ok: "broker_ok (sv_broker s)"
    and rel: "subs_rel (sv_subscriptions s) (live (sv_broker s)) holders pending"
    by (simp_all add: subs_inv_def)
  show ?thesis
  proof (cases res)
    case (Inl e)
    with sub assms None subscribe_Err [OF ok] show ?thesis
      by (auto simp: AcquireRoomSubscription_def subs_inv_def)
  next
    case (Inr h)
    with sub assms None subscribe_Ok [OF ok] subs_rel_new [OF rel None] show ?thesis
      by (auto simp: AcquireRoomSubscription_def subs_inv_def)
  qed
next
  case (Some e)
  with assms subs_rel_more [of "sv_subscriptions s"] show ?thesis
    by (auto simp: AcquireRoomSubscription_def subs_inv_def)
qed

lemma subs_inv_release_begin:
  assumes "subs_inv live broker_ok (s, holders, pending)" "r \<in># holders"
    and "release_begin r s = (h, s')"
  shows "subs_inv live broker_ok
    (s', holders - {#r#}, case h of None \<Rightarrow> pending | Some u \<Rightarrow> add_mset u pending)"
proof -
  from assms(1) have ok: "broker_ok (sv_broker s)"
    and rel: "subs_rel (sv_subscriptions s) (live (sv_broker s)) holders pending"
    by (simp_all add: subs_inv_def)
  from subs_relD(1) [OF rel] assms(2) obtain e where e: "sv_subscriptions s r = Some e"
    by (cases "sv_subscriptions s r") auto
  with assms(3) ok subs_rel_less [OF rel e] subs_rel_last [OF rel e] show ?thesis
    by (auto simp: release_begin_def Let_def subs_inv_def split: if_splits)
qed

lemma subs_inv_release_finish:
  assumes "dep_broker D = B" "subs_inv live broker_ok (s, holders, pending)" "h \<in># pending"
    and "release_finish D h s = (err, s')"
  shows "subs_inv live broker_ok (s', holders, pending - {#h#})"
proof -
  obtain e b where un: "Unsubscribe B h (sv_broker s) = (e, b)" by fastforce
  from assms(2) have ok: "broker_ok (sv_broker s)"
    and rel: "subs_rel (sv_subscriptions s) (live (sv_broker s)) holders pending"
    by (simp_all add: subs_inv_def)
  from un assms unsubscribe_live [OF ok un] subs_rel_unsubscribe [OF rel assms(3)]
  show ?thesis by (auto simp: release_finish_def subs_inv_def)
qed

lemma subs_inv_publish:
  assumes "subs_inv live broker_ok (s, holders, pending)" "Publish B msg (sv_broker s) = (err, b)"
  shows "subs_inv live broker_ok (s\<lparr>sv_broker := b\<rparr>, holders, pending)"
  using assms publish_live [of "sv_broker s" msg err b] by (simp add: subs_inv_def)

lemma subs_inv_step:
  assumes "dep_broker D = B" "sub_step D st st'" "subs_inv live broker_ok st"
  shows "subs_inv live broker_ok st'"
  using assms(2,3)
proof cases
  case (acquire_ok r s s' holders pending)
  with subs_inv_acquire [OF assms(1)] assms(3) show ?thesis by fastforce
next
  case (acquire_fails r s e s' holders pending)
  with subs_inv_acquire [OF assms(1)] assms(3) show ?thesis by fastforce
next
  case (release_shared r holders s s' pending)
  with subs_inv_release_begin [of s holders pending r] assms(3) show ?thesis by fastforce
next
  case (release_last r holders s h s' pending)
  with subs_inv_release_begin [of s holders pending r] assms(3) show ?thesis by fastforce
next
  case (unsubscribes h pending s err s' holders)
  with subs_inv_release_finish [OF assms(1)] assms(3) show ?thesis by blast
next
  case (publishes msg s err b holders pending)
  with subs_inv_publish [of s holders pending] assms show ?thesis by auto
next
  case (handles s holders pending order r m n)
  with assms(3) show ?thesis by (simp add: subs_inv_def handle_broadcast_def case_prod_beta)
qed

lemma subs_inv_reach:
  assumes "dep_broker D = B" "sub_reach D s0 st"
    and "subs_inv live broker_ok (s0, {#}, {#})"
  shows "subs_inv live broker_ok st"
  using assms(2)
proof induction
  case sub_reach_init
  show ?case by (rule assms(3))
next
  case (sub_reach_step st st')
  then show ?case using subs_inv_step [OF assms(1)] by blast
qed

end

section \<open>Subscriptions on the Redis broker\<close>

definition fresh_service :: "(('c, 'p) redis_broker, ptr, 'l, 'r) service \<Rightarrow> bool" where
  "fresh_service s \<longleftrightarrow>
     sv_subscriptions s = Map.empty \<and> (\<exists>c. sv_broker s = NewRedisPubSubBroker c)"

lemma sub_live_new: "sub_live (NewRedisPubSubBroker c) = Map.empty"
  by (simp add: sub_live_def NewRedisPubSubBroker_def fun_eq_iff)

lemma fresh_service_inv: "fresh_service s \<Longrightarrow> subs_inv sub_live fresh_ptrs (s, {#}, {#})"
  by (auto simp: fresh_service_def subs_inv_def sub_live_new subs_rel_empty tracked_new)

lemma redis_subs_inv:
  assumes "dep_broker D = redis_broker_ops P zone order" "fresh_service s0"
    and "sub_reach D s0 (s, holders, pending)"
  shows "fresh_ptrs (sv_broker s)"
    "subs_rel (sv_subscriptions s) (sub_live (sv_broker s)) holders pending"
  using redis_broker.subs_inv_reach [OF assms(1,3) fresh_service_inv [OF assms(2)]]
  by (simp_all add: subs_inv_def)

lemma subs_rel_handles:
  assumes "subs_rel subs lv holders pending"
  shows "{h. lv h = Some r \<and> h \<notin># pending} =
    (case subs r of None \<Rightarrow> {} | Some e \<Rightarrow> {rs_unsubscribe e})"
proof (cases "subs r")
  case None
  with subs_relD(8) [OF assms] show ?thesis by fastforce
next
  case (Some e)
  with subs_relD(4,5) [OF assms Some] subs_relD(8) [OF assms] show ?thesis by fastforce
qed

lemma live_handles_card:
  assumes "subs_rel subs lv holders pending"
  shows "card {h. lv h = Some r \<and> h \<notin># pending} = (if r \<in># holders then 1 else 0)"
  unfolding subs_rel_handles [OF assms]
  using subs_relD(1,2) [OF assms, of r] by (cases "subs r") auto

text \<open>
  C13. Whatever the order in which goroutines acquire and release rooms, publish and handle
  messages, the table holds a room exactly when it has holders and counts them, and every room
  with holders has exactly one live subscription beside those that a release is about to end:
  the first holder subscribes once, the last one ends the subscription, and no subscription
  is left behind.
\<close>

theorem subscriptions_match_holders:
  assumes "dep_broker D = redis_broker_ops P zone order" "fresh_service s0"
    and "sub_reach D s0 (s, holders, pending)"
  shows "map_option rs_refs (sv_subscriptions s r) =
      (if r \<in># holders then Some (int (count holders r)) else None) \<and>
    card {h. sub_live (sv_broker s) h = Some r \<and> h \<notin># pending} = (if r \<in># holders then 1 else 0)"
proof -
  note rel = redis_subs_inv(2) [OF assms]
  from subs_relD(1-3) [OF rel, of r] live_handles_card [OF rel, of r]
  show ?thesis by (cases "sv_subscriptions s r") auto
qed

text \<open>An example run: the room is acquired, released down to the call of its unsubscribe
  function, and acquired again before that call.\<close>

lemma demo_fresh: "fresh_service demo_service"
  by (auto simp: fresh_service_def persist_service_def StartPersistenceWorker_def
      NewMessageService_def Let_def)

definition demo_acquired ::
    "((nat, nat) redis_broker, ptr, kv, danmaku list list \<times> danmaku list) service" where
  "demo_acquired = snd (AcquireRoomSubscription demo_deps ''r1'' demo_service)"

definition demo_released ::
    "((nat, nat) redis_broker, ptr, kv, danmaku list list \<times> danmaku list) service" where
  "demo_released = snd (release_begin ''r1'' demo_acquired)"

definition demo_reacquired ::
    "((nat, nat) redis_broker, ptr, kv, danmaku list list \<times> danmaku list) service" where
  "demo_reacquired = snd (AcquireRoomSubscription demo_deps ''r1'' demo_released)"

lemmas demo_sub_defs =
  AcquireRoomSubscription_def release_begin_def demo_deps_def persist_service_def
  StartPersistenceWorker_def NewMessageService_def redis_broker_ops_def redis_Subscribe_def
  demo_pubsub_def NewRedisPubSubBroker_def

lemma demo_acquire: "AcquireRoomSubscription demo_deps ''r1'' demo_service = (None, demo_acquired)"
  by (simp add: demo_acquired_def demo_sub_defs Let_def)

lemma demo_release: "release_begin ''r1'' demo_acquired = (Some (Ptr 0), demo_released)"
  by (simp add: demo_released_def demo_acquired_def demo_sub_defs Let_def)

lemma demo_reacquire: "AcquireRoomSubscription demo_deps ''r1'' demo_released = (None, demo_reacquired)"
  by (simp add: demo_reacquired_def demo_released_def demo_acquired_def demo_sub_defs Let_def)

lemma demo_reach:
  "sub_reach demo_deps demo_service (demo_acquired, {#''r1''#}, {#})"
  "sub_reach demo_deps demo_service (demo_reacquired, {#''r1''#}, {#Ptr 0#})"
proof -
  let ?R = "sub_reach demo_deps demo_service"
  show 1: "?R (demo_acquired, {#''r1''#}, {#})"
    by (rule sub_reach_step [OF sub_reach_init acquire_ok [OF demo_acquire]])
  have "?R (demo_released, {#''r1''#} - {#''r1''#}, {#Ptr 0#})"
    by (rule sub_reach_step [OF 1 release_last [OF _ demo_release]]) simp
  then have 2: "?R (demo_released, {#}, {#Ptr 0#})" by simp
  show "?R (demo_reacquired, {#''r1''#}, {#Ptr 0#})"
    by (rule sub_reach_step [OF 2 acquire_ok [OF demo_reacquire]])
qed

theorem subscriptions_match_holders_witness:
  "map_option rs_refs (sv_subscriptions demo_acquired ''r1'') = Some 1 \<and>
   card {h. sub_live (sv_broker demo_acquired) h = Some ''r1'' \<and> h \<notin># {#}} = 1"
proof -
  have "dep_broker demo_deps = redis_broker_ops demo_pubsub 0 sorted_list_of_set"
    by (simp add: demo_deps_def)
  from subscriptions_match_holders [OF this demo_fresh demo_reach(1), of "''r1''"]
  show ?thesis by simp
qed

section \<open>Delivery to the connections of this node\<close>

text \<open>
  What a service does to be counted in its metrics: the handler adds the number of connections
  that took the message, and the difference to the size it read before.
\<close>

lemma room_handler_effect:
  assumes "map_range order" "hub_ok (sv_heap s) (sv_hub s)" "\<forall>p. client_open (sv_heap s p)"
  shows "sv_hub (handle_broadcast order r m n s) = sv_hub s"
    "sv_heap (handle_broadcast order r m n s) p =
      (if p \<in> members r (sv_hub s) then snd (Enqueue (outbound_of m) (sv_heap s p)) else sv_heap s p)"
    "sv_metrics (handle_broadcast order r m n s) =
      (let k = card {p \<in> members r (sv_hub s). 0 < send_room (sv_heap s p)}
       in map_option (\<lambda>x. AddMessageBroadcastDrop (of_nat n - of_nat k)
            (AddMessageBroadcast (of_nat k) x)) (sv_metrics s))"
  using assms(3)
  by (simp_all add: handle_broadcast_def BroadcastLocal_effect [OF assms(1,2)] Enqueue_effect Let_def)

text \<open>
  The handler of a room puts the message at the end of the queue of every connection of
  the room that has space there, and the metrics account for each of them: the broadcast
  counter grows by the number of connections that took the message and the drop counter by the
  number of those whose queue was full.
\<close>

lemma room_handler_accounts:
  assumes "map_range order" "hub_ok (sv_heap s) (sv_hub s)" "\<forall>p. client_open (sv_heap s p)"
    and "sv_metrics s = Some x" "card (members r (sv_hub s)) < 2 ^ 63"
  shows "\<exists>y. sv_metrics (room_handler order r m s) = Some y \<and>
    messagesBroadcast y = messagesBroadcast x +
      of_nat (card {p \<in> members r (sv_hub s). 0 < send_room (sv_heap s p)}) \<and>
    messagesBroadcastDrop y = messagesBroadcastDrop x +
      of_nat (card {p \<in> members r (sv_hub s). send_room (sv_heap s p) = 0}) \<and>
    (\<forall>p. send_queue (sv_heap (room_handler order r m s) p) =
      send_queue (sv_heap s p) @
      (if p \<in> members r (sv_hub s) \<and> 0 < send_room (sv_heap s p) then [outbound_of m] else []))"
proof -
  let ?M = "members r (sv_hub s)"
  let ?took = "{p \<in> ?M. 0 < send_room (sv_heap s p)}"
  let ?full = "{p \<in> ?M. send_room (sv_heap s p) = 0}"
  have fin: "finite ?M" by (rule members_finite [OF assms(2)])
  have sum: "card ?M = card ?took + card ?full"
    using card_filter_split [OF fin, of "\<lambda>p. 0 < send_room (sv_heap s p)"] by simp
  have took: "card ?took < 2 ^ 63" using assms(5) sum by linarith
  have full: "card ?full < 2 ^ 63" using assms(5) sum by linarith
  have diff: "(of_nat (card ?M) - of_nat (card ?took) :: int64) = of_nat (card ?full)"
    by (simp only: sum of_nat_add add_diff_cancel_left')
  note e = room_handler_effect [OF assms(1-3), where r = r and m = m]
  let ?y = "AddMessageBroadcastDrop (of_nat (card ?full)) (AddMessageBroadcast (of_nat (card ?took)) x)"
  have "sv_metrics (room_handler order r m s) = Some ?y"
    unfolding room_handler_def e(3) RoomSize_members Let_def diff assms(4) by simp
  moreover have "messagesBroadcast ?y = messagesBroadcast x + of_nat (card ?took)"
    by (simp only: AddMessageBroadcastDrop_count(2) AddMessageBroadcast_count(1) [OF took])
  moreover have "messagesBroadcastDrop ?y = messagesBroadcastDrop x + of_nat (card ?full)"
    by (simp only: AddMessageBroadcastDrop_count(1) [OF full] AddMessageBroadcast_count(2))
  moreover have "\<forall>p. send_queue (sv_heap (room_handler order r m s) p) =
      send_queue (sv_heap s p) @
      (if p \<in> ?M \<and> 0 < send_room (sv_heap s p) then [outbound_of m] else [])"
    using assms(3) by (simp add: room_handler_def e(2) Enqueue_effect)
  ultimately show ?thesis by blast
qed

lemma demo_service_sel:
  "sv_hub demo_service = demo_hub" "sv_heap demo_service = demo_heap"
  "sv_metrics demo_service = Some new_metrics"
  by (simp_all add: persist_service_def StartPersistenceWorker_def NewMessageService_def Let_def)

lemma demo_members: "members ''r1'' demo_hub = {Ptr 1, Ptr 2}"
  by (simp add: members_def demo_hub_rooms)

lemma demo_send_room: "send_room (demo_heap p) = 256" "send_queue (demo_heap p) = []"
  by (simp_all add: demo_heap_def NewClient_def make_chan_def send_room_def chan_room_def send_queue_def)

lemma room_handler_accounts_example:
  "\<exists>y. sv_metrics (room_handler sorted_list_of_set ''r1'' zero_broadcast demo_service) = Some y \<and>
     messagesBroadcast y = 2 \<and> messagesBroadcastDrop y = 0"
proof -
  have sel: "sv_hub demo_service = demo_hub" "sv_heap demo_service = demo_heap"
    "sv_metrics demo_service = Some new_metrics" by (simp_all add: demo_service_sel)
  have ok: "hub_ok (sv_heap demo_service) (sv_hub demo_service)"
    "\<forall>p. client_open (sv_heap demo_service p)"
    by (simp_all add: sel demo_hub_ok demo_heap_open)
  have c: "{p \<in> members ''r1'' demo_hub. 0 < send_room (demo_heap p)} = {Ptr 1, Ptr 2}"
    "{p \<in> members ''r1'' demo_hub. send_room (demo_heap p) = 0} = {}"
    by (auto simp: demo_members demo_send_room)
  have "card (members ''r1'' (sv_hub demo_service)) < 2 ^ 63" by (simp add: sel demo_members)
  from room_handler_accounts [OF ascending_ptr ok sel(3) this, of zero_broadcast]
  show ?thesis unfolding sel c by (auto simp: new_metrics_def)
qed

text \<open>
  A published message reaches the handler of every live subscription of its room, each in its
  own goroutine; \<open>deliver_all\<close> runs them one after the other.
\<close>

definition deliver_all ::
    "(ptr set \<Rightarrow> ptr list) \<Rightarrow> string \<Rightarrow> broadcast_message \<Rightarrow> 'x list \<Rightarrow>
     ('b, 'h, 'l, 'r) service \<Rightarrow> ('b, 'h, 'l, 'r) service" where
  "deliver_all order roomID m handles s = fold (\<lambda>h. room_handler order roomID m) handles s"

text \<open>
  C1. In every state of an interleaved run in which no release is between its two halves, a
  message published to a room is put once into the queue of each of the room's connections on
  this node that have space, and into no other queue; a room nobody has acquired gets nothing.
\<close>

theorem message_delivered_once:
  assumes "dep_broker D = redis_broker_ops P zone order" "fresh_service s0"
    and "sub_reach D s0 (s, holders, {#})"
    and "map_range range_order" "hub_ok (sv_heap s) (sv_hub s)" "\<forall>p. client_open (sv_heap s p)"
    and "distinct handles" "set handles = {h. sub_live (sv_broker s) h = Some r}"
  shows "send_queue (sv_heap (deliver_all range_order r m handles s) p) =
    send_queue (sv_heap s p) @
    (if r \<in># holders \<and> p \<in> members r (sv_hub s) \<and> 0 < send_room (sv_heap s p)
     then [outbound_of m] else [])"
proof -
  from live_handles_card [OF redis_subs_inv(2) [OF assms(1-3)], of r] assms(8)
    distinct_card [OF assms(7)]
  have len: "length handles = (if r \<in># holders then 1 else 0)" by simp
  show ?thesis
  proof (cases "r \<in># holders")
    case True
    with len obtain h where "handles = [h]" by (auto simp: length_Suc_conv)
    with True assms(6) show ?thesis
      by (simp add: deliver_all_def room_handler_def room_handler_effect [OF assms(4-6)] Enqueue_effect)
  next
    case False
    with len show ?thesis by (simp add: deliver_all_def)
  qed
qed

lemma demo_acquired_sel:
  "sv_hub demo_acquired = demo_hub" "sv_heap demo_acquired = demo_heap"
  "sub_live (sv_broker demo_acquired) = [Ptr 0 \<mapsto> ''r1'']"
  "sv_hub demo_reacquired = demo_hub" "sv_heap demo_reacquired = demo_heap"
  "sub_live (sv_broker demo_reacquired) = [Ptr 0 \<mapsto> ''r1'', Ptr 1 \<mapsto> ''r1'']"
  by (simp_all add: demo_reacquired_def demo_released_def demo_acquired_def demo_sub_defs Let_def
      sub_live_def fun_eq_iff)

theorem message_delivered_once_witness:
  "send_queue (sv_heap (deliver_all sorted_list_of_set ''r1'' zero_broadcast [Ptr 0] demo_acquired) (Ptr 1)) =
   [outbound_of zero_broadcast]"
proof -
  have d: "dep_broker demo_deps = redis_broker_ops demo_pubsub 0 sorted_list_of_set"
    by (simp add: demo_deps_def)
  have ok: "hub_ok (sv_heap demo_acquired) (sv_hub demo_acquired)"
    "\<forall>p. client_open (sv_heap demo_acquired p)"
    by (simp_all add: demo_acquired_sel demo_hub_ok demo_heap_open)
  have "distinct [Ptr 0]" "set [Ptr 0] = {h. sub_live (sv_broker demo_acquired) h = Some ''r1''}"
    by (auto simp: demo_acquired_sel)
  from message_delivered_once [OF d demo_fresh demo_reach(1) ascending_ptr ok this, of zero_broadcast "Ptr 1"]
  show ?thesis by (simp add: demo_acquired_sel demo_members demo_send_room)
qed



end
