(* ===== verification/Check_Limit.thy ===== *)
theory Check_Limit
  imports Persistence Limiter_Spec Go_Strings
begin

text \<open>
  \<open>checkLimit\<close> of the message service: the three rules a send request is checked against, the
  keys they count under, and the error a rejection becomes.
\<close>

section \<open>Keys and rules\<close>

definition user_key :: "string \<Rightarrow> string \<Rightarrow> string" where
  "user_key room user = ''lim:{'' @ RawURL_encode room @ ''}:user:'' @ user"

definition ip_key :: "string \<Rightarrow> string \<Rightarrow> string" where
  "ip_key room ip = ''lim:{'' @ RawURL_encode room @ ''}:ip:'' @ ip"

definition room_key :: "string \<Rightarrow> string" where
  "room_key room = ''lim:{'' @ RawURL_encode room @ ''}:room''"

definition limit_rules :: "limit_config \<Rightarrow> send_request \<Rightarrow> rule list" where
  "limit_rules cfg req =
     [\<lparr>rule_Scope = ''user'', rule_Key = user_key (req_RoomID req) (req_UserID req),
       rule_Limit = cfg_UserCount cfg, rule_Window = cfg_UserWindow cfg\<rparr>,
      \<lparr>rule_Scope = ''ip'', rule_Key = ip_key (req_RoomID req) (req_IP req),
       rule_Limit = cfg_IPCount cfg, rule_Window = cfg_IPWindow cfg\<rparr>,
      \<lparr>rule_Scope = ''room'', rule_Key = room_key (req_RoomID req),
       rule_Limit = cfg_RoomCount cfg, rule_Window = cfg_RoomWindow cfg\<rparr>]"

section \<open>The check\<close>

text \<open>\<open>None\<close> is the nil error: the request may go on.\<close>

definition checkLimit ::
    "('b, 'h, 'l, 'r) deps \<Rightarrow> send_request \<Rightarrow> ('b, 'h, 'l, 'r) service \<Rightarrow>
     go_error option \<times> ('b, 'h, 'l, 'r) service" where
  "checkLimit D req s =
     (case dep_Allow D (limit_rules (sv_cfg s) req) (sv_limiter s) of
        (Inl err, l) \<Rightarrow> (Some err, s\<lparr>sv_limiter := l\<rparr>)
      | (Inr decision, l) \<Rightarrow>
          let s' = s\<lparr>sv_limiter := l\<rparr> in
          if Allowed decision then (None, s')
          else let reason = RejectedScope decision @ '' limit exceeded'' in
               if RejectedScope decision = ''user'' \<or> RejectedScope decision = ''ip'' \<or>
                  RejectedScope decision = ''room''
               then (Some (RateLimitError (RejectedScope decision) reason (RetryAfter decision)), s')
               else (Some ErrInvalidLimiterResult, s'))"

section \<open>The keys\<close>

lemma split_at_brace:
  assumes "CHR ''}'' \<notin> set a" "CHR ''}'' \<notin> set b"
  shows "a @ CHR ''}'' # x = b @ CHR ''}'' # y \<longleftrightarrow> a = b \<and> x = y"
  using assms
proof (induction a arbitrary: b)
  case Nil
  then show ?case by (cases b) auto
next
  case (Cons c a)
  then show ?case by (cases b) auto
qed

lemma slot_no_brace: "CHR ''}'' \<notin> set (RawURL_encode r)"
  using RawURL_encode_safe [of r] by auto

lemma slot_key_eq:
  "''lim:{'' @ RawURL_encode r @ CHR ''}'' # x = ''lim:{'' @ RawURL_encode r' @ CHR ''}'' # y \<longleftrightarrow>
   r = r' \<and> x = y"
  using split_at_brace [OF slot_no_brace slot_no_brace, of r x r' y] RawURL_encode_inj by simp

lemma key_eqs:
  "user_key r u = user_key r' u' \<longleftrightarrow> r = r' \<and> u = u'"
  "ip_key r i = ip_key r' i' \<longleftrightarrow> r = r' \<and> i = i'"
  "room_key r = room_key r' \<longleftrightarrow> r = r'"
  "user_key r u \<noteq> ip_key r' i" "user_key r u \<noteq> room_key r'" "ip_key r i \<noteq> room_key r'"
  using slot_key_eq [of r "'':user:'' @ u" r' "'':user:'' @ u'"]
    slot_key_eq [of r "'':ip:'' @ i" r' "'':ip:'' @ i'"] slot_key_eq [of r "'':room''" r' "'':room''"]
    slot_key_eq [of r "'':user:'' @ u" r' "'':ip:'' @ i"]
    slot_key_eq [of r "'':user:'' @ u" r' "'':room''"] slot_key_eq [of r "'':ip:'' @ i" r' "'':room''"]
  by (simp_all add: user_key_def ip_key_def room_key_def)

text \<open>
  The hash tag of a Redis Cluster key: the text between the first opening brace and the first
  closing brace after it. Keys with the same tag live on the same node, which a script with
  several keys needs.
\<close>

definition hash_tag :: "string \<Rightarrow> string" where
  "hash_tag key = takeWhile (\<lambda>c. c \<noteq> CHR ''}'') (drop 1 (dropWhile (\<lambda>c. c \<noteq> CHR ''{'') key))"

lemma hash_tag_key:
  "hash_tag (''lim:{'' @ RawURL_encode r @ CHR ''}'' # x) = RawURL_encode r"
  using slot_no_brace [of r] by (simp add: hash_tag_def) (subst takeWhile_append2; auto)

text \<open>
  C27. The three keys of a request share one Redis Cluster hash tag, which identifies the room,
  and count separately: two requests share the user counter exactly when room and user are the
  same, the IP counter when room and address are, the room counter when the room is, and no
  counter of one scope is ever a counter of another, whatever characters the identifiers have.
\<close>

theorem limit_keys_separate:
  "let k = \<lambda>q. map rule_Key (limit_rules cfg q) in
   (\<forall>x \<in> set (k q). hash_tag x = RawURL_encode (req_RoomID q)) \<and>
   (k q ! 0 = k q' ! 0 \<longleftrightarrow> req_RoomID q = req_RoomID q' \<and> req_UserID q = req_UserID q') \<and>
   (k q ! 1 = k q' ! 1 \<longleftrightarrow> req_RoomID q = req_RoomID q' \<and> req_IP q = req_IP q') \<and>
   (k q ! 2 = k q' ! 2 \<longleftrightarrow> req_RoomID q = req_RoomID q') \<and>
   (\<forall>i < 3. \<forall>j < 3. k q ! i = k q' ! j \<longrightarrow> i = j)"
proof -
  have tags: "hash_tag (user_key r u) = RawURL_encode r" "hash_tag (ip_key r u) = RawURL_encode r"
    "hash_tag (room_key r) = RawURL_encode r" for r u
    using hash_tag_key [of r "'':user:'' @ u"] hash_tag_key [of r "'':ip:'' @ u"]
      hash_tag_key [of r "'':room''"]
    by (simp_all add: user_key_def ip_key_def room_key_def)
  show ?thesis
    using key_eqs(4-6) [symmetric]
    by (auto simp: Let_def limit_rules_def tags key_eqs less_Suc_eq numeral_3_eq_3 numeral_2_eq_2)
qed

lemma limit_rules_ok: "limit_ok cfg \<Longrightarrow> rules_ok (limit_rules cfg req)"
  by (auto simp: rules_ok_def limit_rules_def limit_ok_def rule_invalid_def key_eqs lua_exact_def
      max_int64_def user_key_def ip_key_def room_key_def)

definition demo_req :: "string \<Rightarrow> send_request" where
  "demo_req content = \<lparr>req_UserID = ''u1'', req_RoomID = ''r1'', req_IP = ''127.0.0.1'', req_Content = content\<rparr>"

theorem limit_keys_separate_witness:
  "map rule_Key (limit_rules demo_limits (demo_req ''hi'')) ! 0 \<noteq>
     map rule_Key (limit_rules demo_limits ((demo_req ''hi'')\<lparr>req_UserID := ''u2''\<rparr>)) ! 0 \<and>
   map rule_Key (limit_rules demo_limits (demo_req ''hi'')) ! 2 =
     map rule_Key (limit_rules demo_limits ((demo_req ''hi'')\<lparr>req_UserID := ''u2''\<rparr>)) ! 2"
proof -
  let ?q = "demo_req ''hi''" let ?q' = "?q\<lparr>req_UserID := ''u2''\<rparr>"
  have diff: "req_UserID ?q \<noteq> req_UserID ?q'" and same: "req_RoomID ?q = req_RoomID ?q'"
    by (simp_all add: demo_req_def)
  note sep = limit_keys_separate [of demo_limits ?q ?q', unfolded Let_def]
  show ?thesis
    by (rule conjI) (use sep diff same in blast)+
qed

section \<open>What the check decides\<close>

text \<open>Whatever the limiter answers, the default branch of the switch on the scope is not taken.\<close>

context limiter_iface
begin

lemma checkLimit_cases:
  assumes "dep_Allow D = allow"
    and "allow (limit_rules (sv_cfg s) req) (sv_limiter s) = (res, l)"
  shows "checkLimit D req s =
    (case res of
       Inl err \<Rightarrow> Some err
     | Inr d \<Rightarrow> if Allowed d then None
               else Some (RateLimitError (RejectedScope d) (RejectedScope d @ '' limit exceeded'') (RetryAfter d)),
     s\<lparr>sv_limiter := l\<rparr>)"
proof (cases res)
  case (Inl err)
  with assms show ?thesis by (simp add: checkLimit_def)
next
  case (Inr d)
  show ?thesis
  proof (cases "Allowed d")
    case True
    with Inr assms show ?thesis by (simp add: checkLimit_def)
  next
    case False
    have "RejectedScope d \<in> set [''user'', ''ip'', ''room'']"
      by (rule reject_scope_cases [OF assms(2) [unfolded Inr] False]) (simp add: limit_rules_def)
    with Inr False assms show ?thesis by (auto simp: checkLimit_def)
  qed
qed

end

text \<open>The check against the table of counters.\<close>

definition limit_error :: "counters \<Rightarrow> rule \<Rightarrow> go_error" where
  "limit_error C r =
     RateLimitError (rule_Scope r) (rule_Scope r @ '' limit exceeded'')
       (duration_of_ms (word_of_int (retry_ms C r)))"

lemma checkLimit_table:
  assumes "redis_lua R L view" "dep_Allow D = RedisAllow R L" "limit_ok (sv_cfg s)"
    and "counter_view (rule_Key ` set (limit_rules (sv_cfg s) req)) (view (sv_limiter s))"
  shows "\<exists>l. checkLimit D req s =
      (map_option (limit_error (abs_view (view (sv_limiter s))))
         (find (exhausted (abs_view (view (sv_limiter s)))) (limit_rules (sv_cfg s) req)),
       s\<lparr>sv_limiter := l\<rparr>) \<and>
    abs_view (view l) = snd (spec_allow (limit_rules (sv_cfg s) req) (abs_view (view (sv_limiter s))))"
proof -
  from redis_lua.RedisAllow_spec [OF assms(1) limit_rules_ok [OF assms(3)] assms(4)] obtain l where
    l: "RedisAllow R L (limit_rules (sv_cfg s) req) (sv_limiter s) =
        (Ok (fst (spec_allow (limit_rules (sv_cfg s) req) (abs_view (view (sv_limiter s))))), l)"
      "abs_view (view l) = snd (spec_allow (limit_rules (sv_cfg s) req) (abs_view (view (sv_limiter s))))"
    by blast
  have "dep_Allow D = Allow (fixedWindowScript R L)" using assms(2) by (simp add: RedisAllow_def)
  from redis_limiter.checkLimit_cases [OF this l(1) [unfolded RedisAllow_def]] l(2)
  show ?thesis by (auto simp: spec_allow_def limit_error_def split: option.splits)
qed

text \<open>
  C10. With valid limits and a limiter on a server that behaves as documented, the check admits
  a request exactly when the user, the address and the room are all below their limits, and
  then counts it once for each; otherwise it reports a rate limit error for the first of them,
  in this order, that is exhausted, with the time left until that counter is reset.
\<close>

theorem checkLimit_refines_counters:
  assumes "redis_lua R L view" "dep_Allow D = RedisAllow R L" "limit_ok (sv_cfg s)"
    and "counter_view (rule_Key ` set (limit_rules (sv_cfg s) req)) (view (sv_limiter s))"
  shows "\<exists>l. checkLimit D req s =
      (map_option (limit_error (abs_view (view (sv_limiter s))))
         (find (exhausted (abs_view (view (sv_limiter s)))) (limit_rules (sv_cfg s) req)),
       s\<lparr>sv_limiter := l\<rparr>) \<and>
    abs_view (view l) = snd (spec_allow (limit_rules (sv_cfg s) req) (abs_view (view (sv_limiter s))))"
  by (rule checkLimit_table [OF assms])

lemma demo_limits_ok: "limit_ok demo_limits"
  by (simp add: limit_ok_def demo_limits_def seconds_ms)

lemma demo_service_limits: "sv_cfg demo_service = demo_limits" "sv_limiter demo_service = kv_empty"
  by (simp_all add: persist_service_def StartPersistenceWorker_def NewMessageService_def Let_def)

theorem checkLimit_refines_counters_witness:
  "\<exists>l. checkLimit demo_deps (demo_req ''hi'') demo_service = (None, demo_service\<lparr>sv_limiter := l\<rparr>)"
proof -
  have a: "dep_Allow demo_deps = RedisAllow kv_cmds int_lua" by (simp add: demo_deps_def)
  have ok: "limit_ok (sv_cfg demo_service)" by (simp add: demo_service_limits demo_limits_ok)
  have c: "counter_view (rule_Key ` set (limit_rules (sv_cfg demo_service) (demo_req ''hi'')))
      (kv_view (sv_limiter demo_service))" by (simp add: demo_service_limits kv_empty_counters)
  have "find (exhausted (abs_view (kv_view kv_empty))) (limit_rules demo_limits (demo_req ''hi'')) = None"
    by (simp add: limit_rules_def exhausted_def rule_max_def demo_limits_def count_abs_view
        kv_view_def kv_empty_def)
  with checkLimit_refines_counters [OF kv_redis_lua a ok c] show ?thesis
    by (auto simp: demo_service_limits)
qed

end
