(* ===== verification/Service.thy ===== *)
theory Service
  imports Check_Limit Subscriptions
begin

text \<open>
  The operations of the message service that put the parts together: sending a message,
  reading the history, and closing.
\<close>

section \<open>Errors\<close>

text \<open>
  The texts of the program's errors. The scope of an invalid rule is printed quoted; the
  scopes the program uses need no escape.
\<close>

fun error_text :: "go_error \<Rightarrow> string" where
  "error_text ErrInvalidContent = ''invalid content''"
| "error_text (ErrInvalidLimitRules None) = ''invalid limit rules''"
| "error_text (ErrInvalidLimitRules (Some scope)) =
     ''invalid limit rules: scope='' @ [CHR 0x22] @ scope @ [CHR 0x22]"
| "error_text ErrInvalidLimiterResult = ''invalid limiter script result''"
| "error_text (RateLimitError scope reason retryAfter) =
     reason @ '': retry after '' @ duration_String retryAfter"
| "error_text (ErrMsg t) = t"
| "error_text (ErrWrap p e) = p @ '': '' @ error_text e"

text \<open>\<open>errors.As(err, &rateLimitErr)\<close>: the scope of the first rate limit error of the chain.\<close>

fun rate_limit_scope :: "go_error \<Rightarrow> string option" where
  "rate_limit_scope (RateLimitError scope reason retryAfter) = Some scope"
| "rate_limit_scope (ErrWrap p e) = rate_limit_scope e"
| "rate_limit_scope _ = None"

section \<open>Send\<close>

definition danmaku_of :: "broadcast_message \<Rightarrow> danmaku" where
  "danmaku_of msg =
     \<lparr>dm_ID = bc_MessageID msg, dm_RoomID = bc_RoomID msg, dm_UserID = bc_UserID msg,
      dm_Content = bc_Content msg, dm_CreatedAt = bc_Timestamp msg\<rparr>"

text \<open>
  \<open>newID\<close> is the value of \<open>uuid.NewString()\<close>, \<open>now\<close> that of \<open>time.Now()\<close>. The outer \<open>None\<close>
  is a panic. On an error the program also returns an empty message, which no caller reads.
\<close>

definition Send ::
    "('b, 'h, 'l, 'r) deps \<Rightarrow> string \<Rightarrow> time \<Rightarrow> send_request \<Rightarrow> ('b, 'h, 'l, 'r) service \<Rightarrow>
     (broadcast_message result \<times> ('b, 'h, 'l, 'r) service) option" where
  "Send D newID now req s =
     (let content = TrimSpace (req_Content req) in
      if content = [] \<or> 200 < length content
      then Some (Err ErrInvalidContent, with_metrics IncMessageInvalid s)
      else
        (case checkLimit D req s of
           (Some err, s1) \<Rightarrow>
             (case rate_limit_scope err of
                Some scope \<Rightarrow> Some (Err err, with_metrics (IncMessageRateLimited scope) s1)
              | None \<Rightarrow> Some (Err err, s1))
         | (None, s1) \<Rightarrow>
             let s2 = with_metrics IncMessageAccepted s1;
                 msg = \<lparr>bc_MessageID = newID, bc_RoomID = req_RoomID req,
                        bc_UserID = req_UserID req, bc_Content = content,
                        bc_NodeID = sv_nodeID s2, bc_Timestamp = now\<rparr>
             in (case Publish (dep_broker D) msg (sv_broker s2) of
                   (Some err, b) \<Rightarrow> Some (Err err, s2\<lparr>sv_broker := b\<rparr>)
                 | (None, b) \<Rightarrow>
                     let s3 = with_metrics IncMessagePublished (s2\<lparr>sv_broker := b\<rparr>)
                     in map_option (\<lambda>s4. (Ok msg, s4)) (enqueuePersistence (danmaku_of msg) s3))))"

definition ListHistory ::
    "('b, 'h, 'l, 'r) deps \<Rightarrow> time \<Rightarrow> string \<Rightarrow> int64 \<Rightarrow> time \<Rightarrow> ('b, 'h, 'l, 'r) service \<Rightarrow>
     danmaku list \<times> go_error option" where
  "ListHistory D now roomID limit before s = dep_ListByRoom D now roomID limit before (sv_repo s)"

section \<open>Close\<close>

text \<open>The loop over the subscriptions, in the order the runtime visits the table.\<close>

fun close_subscriptions ::
    "('b, 'h) broker_ops \<Rightarrow> (string \<rightharpoonup> 'h room_subscription) \<Rightarrow> string list \<Rightarrow> go_error option \<Rightarrow> 'b \<Rightarrow>
     go_error option \<times> 'b" where
  "close_subscriptions B subs [] firstErr b = (firstErr, b)"
| "close_subscriptions B subs (roomID # rooms) firstErr b =
     (case subs roomID of
        None \<Rightarrow> close_subscriptions B subs rooms firstErr b
      | Some subscription \<Rightarrow>
          (case Unsubscribe B (rs_unsubscribe subscription) b of
             (err, b') \<Rightarrow>
               close_subscriptions B subs rooms
                 (first_err firstErr (map_option (ErrWrap (''unsubscribe '' @ roomID)) err)) b'))"

definition Close ::
    "('b, 'h, 'l, 'r) deps \<Rightarrow> (string set \<Rightarrow> string list) \<Rightarrow> ('b, 'h, 'l, 'r) service \<Rightarrow>
     (go_error option \<times> ('b, 'h, 'l, 'r) service) option" where
  "Close D order s =
     (if sv_closeOnce s then Some (None, s)
      else
        (case close_persistence s of
           None \<Rightarrow> None
         | Some s1 \<Rightarrow>
             let s2 = worker_drain D s1 in
             (case close_subscriptions (dep_broker D) (sv_subscriptions s2)
                     (order (dom (sv_subscriptions s2))) None (sv_broker s2) of
                (err1, b1) \<Rightarrow>
                  let s3 = s2\<lparr>sv_subscriptions := Map.empty\<rparr> in
                  (case Close_broker (dep_broker D) b1 of
                     (err2, b2) \<Rightarrow> Some (first_err err1 err2, s3\<lparr>sv_broker := b2\<rparr>)))))"

section \<open>What Send does\<close>

lemma checkLimit_frame:
  assumes "checkLimit D req s = (e, s')"
  shows "\<exists>l. s' = s\<lparr>sv_limiter := l\<rparr>"
  using assms by (auto simp: checkLimit_def Let_def split: prod.splits sum.splits if_splits)

lemma persist_ok_frame [go_frame]:
  "persist_ok (s\<lparr>sv_limiter := l\<rparr>) = persist_ok s" "persist_ok (s\<lparr>sv_broker := b\<rparr>) = persist_ok s"
  "persist_ok (with_metrics f s) = persist_ok s"
  "persist_ok (s\<lparr>sv_subscriptions := subs\<rparr>) = persist_ok s"
  by (simp_all add: persist_ok_def split: worker.split)

lemma accepts_frame [go_frame]:
  "accepts (s\<lparr>sv_limiter := l\<rparr>) = accepts s" "accepts (s\<lparr>sv_broker := b\<rparr>) = accepts s"
  "accepts (with_metrics f s) = accepts s"
  by (simp_all add: accepts_def)

text \<open>The three ways a request ends before it is published, and the two ways after.\<close>

lemma Send_invalid:
  assumes "TrimSpace (req_Content req) = [] \<or> 200 < length (TrimSpace (req_Content req))"
  shows "Send D newID now req s = Some (Err ErrInvalidContent, with_metrics IncMessageInvalid s)"
  using assms by (simp add: Send_def)

lemma Send_limited:
  assumes "TrimSpace (req_Content req) \<noteq> []" "length (TrimSpace (req_Content req)) \<le> 200"
    and "checkLimit D req s = (Some err, s1)"
  shows "Send D newID now req s =
    Some (Err err, case rate_limit_scope err of
                     Some scope \<Rightarrow> with_metrics (IncMessageRateLimited scope) s1 | None \<Rightarrow> s1)"
  using assms by (simp add: Send_def split: option.split)

definition sent_message :: "string \<Rightarrow> time \<Rightarrow> send_request \<Rightarrow> ('b, 'h, 'l, 'r) service \<Rightarrow> broadcast_message" where
  "sent_message newID now req s =
     \<lparr>bc_MessageID = newID, bc_RoomID = req_RoomID req, bc_UserID = req_UserID req,
      bc_Content = TrimSpace (req_Content req), bc_NodeID = sv_nodeID s, bc_Timestamp = now\<rparr>"

lemma Send_admitted:
  assumes "TrimSpace (req_Content req) \<noteq> []" "length (TrimSpace (req_Content req)) \<le> 200"
    and "checkLimit D req s = (None, s1)"
    and "Publish (dep_broker D) (sent_message newID now req s) (sv_broker s) = (err, b)"
  shows "Send D newID now req s =
    (case err of
       Some e \<Rightarrow> Some (Err e, (with_metrics IncMessageAccepted s1)\<lparr>sv_broker := b\<rparr>)
     | None \<Rightarrow>
         map_option (\<lambda>s4. (Ok (sent_message newID now req s), s4))
           (enqueuePersistence (danmaku_of (sent_message newID now req s))
             (with_metrics IncMessagePublished ((with_metrics IncMessageAccepted s1)\<lparr>sv_broker := b\<rparr>))))"
proof -
  obtain l where s1: "s1 = s\<lparr>sv_limiter := l\<rparr>" using checkLimit_frame [OF assms(3)] by blast
  with assms show ?thesis
    by (simp add: Send_def Let_def sent_message_def split: option.split)
qed

definition valid_content :: "send_request \<Rightarrow> bool" where
  "valid_content req \<longleftrightarrow> TrimSpace (req_Content req) \<noteq> [] \<and> length (TrimSpace (req_Content req)) \<le> 200"

lemma Send_total:
  assumes ok: "persist_ok s"
    and m: "msg = sent_message newID now req s"
    and c: "checkLimit D req s = (lerr, s1)"
    and pub: "Publish (dep_broker D) msg (sv_broker s) = (perr, b)"
  shows "\<exists>s'. Send D newID now req s =
      Some (if \<not> valid_content req then Err ErrInvalidContent
            else case lerr of Some e \<Rightarrow> Err e
                 | None \<Rightarrow> (case perr of Some e \<Rightarrow> Err e | None \<Rightarrow> Ok msg), s') \<and>
    persist_ok s' \<and> sv_repo s' = sv_repo s \<and> sv_worker s' = sv_worker s \<and>
    sv_subscriptions s' = sv_subscriptions s \<and> sv_hub s' = sv_hub s \<and> sv_heap s' = sv_heap s \<and>
    sv_closeOnce s' = sv_closeOnce s \<and>
    sv_limiter s' = (if valid_content req then sv_limiter s1 else sv_limiter s) \<and>
    sv_broker s' = (if valid_content req \<and> lerr = None then b else sv_broker s) \<and>
    chan_buf (sv_persistCh s') = chan_buf (sv_persistCh s) @
      (if valid_content req \<and> lerr = None \<and> perr = None \<and> accepts s then [danmaku_of msg] else [])"
proof -
  obtain l where s1: "s1 = s\<lparr>sv_limiter := l\<rparr>" using checkLimit_frame [OF c] by blast
  note frames = s1 go_frame ok valid_content_def
  consider (invalid) "\<not> valid_content req" | (limited) e where "valid_content req" "lerr = Some e"
    | (unpublished) e where "valid_content req" "lerr = None" "perr = Some e"
    | (sent) "valid_content req" "lerr = None" "perr = None" by (cases lerr; cases perr) auto
  then show ?thesis
  proof cases
    case invalid
    with Send_invalid [of req D newID now s] ok show ?thesis
      by (simp add: valid_content_def go_frame) (auto simp: go_frame)
  next
    case limited
    with Send_limited [of req D s e s1 newID now] c show ?thesis
      by (auto simp: frames split: option.split)
  next
    case unpublished
    with Send_admitted [of req D s s1 newID now perr b] c pub m show ?thesis
      by (auto simp: frames)
  next
    case sent
    let ?s3 = "with_metrics IncMessagePublished ((with_metrics IncMessageAccepted s1)\<lparr>sv_broker := b\<rparr>)"
    have "persist_ok ?s3" by (simp add: frames)
    from enqueuePersistence_ok [OF this, of "danmaku_of msg"] obtain s4 where
      s4: "enqueuePersistence (danmaku_of msg) ?s3 = Some s4" "persist_ok s4" "sv_repo s4 = sv_repo s"
        "sv_worker s4 = sv_worker s" "chan_buf (sv_persistCh s4) = chan_buf (sv_persistCh s) @
          (if accepts s then [danmaku_of msg] else [])"
      by (auto simp: s1 go_frame)
    from enqueuePersistence_frame [OF s4(1)] s4 sent Send_admitted [of req D s s1 newID now perr b] c pub m
    show ?thesis by (simp add: valid_content_def s1)
  qed
qed

text \<open>
  C11. Sending never panics on a well-formed service, and its result is decided in this order:
  a message whose trimmed content is empty or longer than 200 bytes is refused before the
  limiter is asked; an error of the check is passed on before anything is published; an error
  of the broker is passed on and the message is not stored; otherwise the message is returned
  and offered, exactly once and with the same fields, to the persistence queue. Nothing else
  of the service changes.
\<close>

theorem Send_outcome:
  assumes "persist_ok s" "msg = sent_message newID now req s"
    and "checkLimit D req s = (lerr, s1)" "Publish (dep_broker D) msg (sv_broker s) = (perr, b)"
  shows "\<exists>s'. Send D newID now req s =
      Some (if \<not> valid_content req then Err ErrInvalidContent
            else case lerr of Some e \<Rightarrow> Err e
                 | None \<Rightarrow> (case perr of Some e \<Rightarrow> Err e | None \<Rightarrow> Ok msg), s') \<and>
    persist_ok s' \<and> sv_repo s' = sv_repo s \<and> sv_worker s' = sv_worker s \<and>
    sv_subscriptions s' = sv_subscriptions s \<and> sv_hub s' = sv_hub s \<and> sv_heap s' = sv_heap s \<and>
    sv_closeOnce s' = sv_closeOnce s \<and>
    sv_limiter s' = (if valid_content req then sv_limiter s1 else sv_limiter s) \<and>
    sv_broker s' = (if valid_content req \<and> lerr = None then b else sv_broker s) \<and>
    chan_buf (sv_persistCh s') = chan_buf (sv_persistCh s) @
      (if valid_content req \<and> lerr = None \<and> perr = None \<and> accepts s then [danmaku_of msg] else [])"
  by (rule Send_total [OF assms])

lemma demo_valid: "valid_content (demo_req '' hi '')" "TrimSpace (req_Content (demo_req '' hi '')) = ''hi''"
proof -
  show t: "TrimSpace (req_Content (demo_req '' hi '')) = ''hi''"
    by (simp add: demo_req_def TrimSpace_eval)
  show "valid_content (demo_req '' hi '')" by (simp add: valid_content_def t)
qed

lemma demo_check_any:
  assumes "sv_cfg s = demo_limits" "sv_limiter s = kv_empty"
  shows "\<exists>l. checkLimit demo_deps (demo_req c) s = (None, s\<lparr>sv_limiter := l\<rparr>)"
proof -
  have a: "dep_Allow demo_deps = RedisAllow kv_cmds int_lua" by (simp add: demo_deps_def)
  have ok: "limit_ok (sv_cfg s)" by (simp add: assms(1) demo_limits_ok)
  have v: "counter_view (rule_Key ` set (limit_rules (sv_cfg s) (demo_req c))) (kv_view (sv_limiter s))"
    by (simp add: assms(2) kv_empty_counters)
  have "find (exhausted (abs_view (kv_view kv_empty))) (limit_rules demo_limits (demo_req c)) = None"
    by (simp add: limit_rules_def exhausted_def rule_max_def demo_limits_def count_abs_view
        kv_view_def kv_empty_def)
  with checkLimit_table [OF kv_redis_lua a ok v] show ?thesis by (auto simp: assms)
qed

lemma demo_check: "\<exists>l. checkLimit demo_deps (demo_req c) demo_service = (None, demo_service\<lparr>sv_limiter := l\<rparr>)"
  by (rule demo_check_any [OF demo_service_limits])

lemma demo_publish: "bc_Timestamp m = 5 \<Longrightarrow> fst (Publish (dep_broker demo_deps) m b) = None"
  using marshal_time_epoch [of 5]
  by (auto simp: demo_deps_def redis_broker_ops_def redis_Publish_def demo_pubsub_def marshal_broadcast_def)

lemma demo_sent:
  obtains b where "Publish (dep_broker demo_deps) (sent_message newID 5 req s) b0 = (None, b)"
  using demo_publish [of "sent_message newID 5 req s" b0] that
  by (cases "Publish (dep_broker demo_deps) (sent_message newID 5 req s) b0") (simp add: sent_message_def)

lemma demo_accepts: "accepts demo_service"
  by (simp add: accepts_def persist_service_def StartPersistenceWorker_def NewMessageService_def
      make_chan_def Let_def)

theorem Send_outcome_witness:
  "\<exists>s'. Send demo_deps ''id-1'' 5 (demo_req '' hi '') demo_service =
     Some (Ok (sent_message ''id-1'' 5 (demo_req '' hi '') demo_service), s') \<and>
   chan_buf (sv_persistCh s') =
     [\<lparr>dm_ID = ''id-1'', dm_RoomID = ''r1'', dm_UserID = ''u1'', dm_Content = ''hi'', dm_CreatedAt = 5\<rparr>]"
proof -
  let ?msg = "sent_message ''id-1'' 5 (demo_req '' hi '') demo_service"
  obtain l where c: "checkLimit demo_deps (demo_req '' hi '') demo_service =
      (None, demo_service\<lparr>sv_limiter := l\<rparr>)" using demo_check by blast
  obtain b where p: "Publish (dep_broker demo_deps) ?msg (sv_broker demo_service) = (None, b)"
    by (rule demo_sent)
  have "chan_buf (sv_persistCh demo_service) = []"
    by (simp add: persist_service_def StartPersistenceWorker_def NewMessageService_def make_chan_def Let_def)
  moreover have "danmaku_of ?msg = \<lparr>dm_ID = ''id-1'', dm_RoomID = ''r1'', dm_UserID = ''u1'',
      dm_Content = ''hi'', dm_CreatedAt = 5\<rparr>"
    by (simp add: danmaku_of_def sent_message_def demo_valid) (simp add: demo_req_def)
  ultimately show ?thesis
    using Send_outcome [OF persist_service_ok refl c p] demo_valid demo_accepts by auto
qed

text \<open>A message that is returned was valid, was published, and has the fields of the request.\<close>

lemma Send_sent:
  assumes "Send D newID now req s = Some (Ok msg, s')"
  shows "valid_content req" "msg = sent_message newID now req s"
    "fst (Publish (dep_broker D) msg (sv_broker s)) = None"
proof -
  show valid: "valid_content req"
  proof (rule ccontr)
    assume "\<not> valid_content req"
    with Send_invalid [of req D newID now s] assms show False
      by (simp add: valid_content_def not_le)
  qed
  obtain lerr s1 perr b where c: "checkLimit D req s = (lerr, s1)"
    and p: "Publish (dep_broker D) (sent_message newID now req s) (sv_broker s) = (perr, b)"
    by fastforce
  have "msg = sent_message newID now req s \<and> perr = None"
    using assms Send_limited [of req D s _ s1 newID now] Send_admitted [of req D s s1 newID now perr b]
      c p valid
    by (cases lerr; cases perr) (auto simp: valid_content_def map_option_eq_Some dest: sym)
  with p show "msg = sent_message newID now req s" "fst (Publish (dep_broker D) msg (sv_broker s)) = None"
    by auto
qed

text \<open>
  C34. A message that is sent carries the request's content without the white space around it:
  it neither starts nor ends with a space, has between 1 and 200 bytes, and what was cut off
  consists of spaces only.
\<close>

theorem Send_content:
  assumes "Send D newID now req s = Some (Ok msg, s')"
  shows "1 \<le> length (bc_Content msg) \<and> length (bc_Content msg) \<le> 200 \<and>
    \<not> starts_space (bc_Content msg) \<and> \<not> ends_space (bc_Content msg) \<and>
    (\<exists>us vs. req_Content req = concat us @ bc_Content msg @ concat vs \<and>
       set us \<union> set vs \<subseteq> set space_seqs)"
proof -
  have valid: "valid_content req" by (rule Send_sent [OF assms])
  have content: "bc_Content msg = TrimSpace (req_Content req)"
    using Send_sent(2) [OF assms] by (simp add: sent_message_def)
  have "1 \<le> length (bc_Content msg)" "length (bc_Content msg) \<le> 200"
    using valid content by (simp_all add: valid_content_def Suc_le_eq)
  then show ?thesis
    using TrimSpace_split TrimSpace_no_start TrimSpace_no_end unfolding content by blast
qed

theorem Send_content_witness:
  "\<exists>msg s'. Send demo_deps ''id-1'' 5 (demo_req '' hi '') demo_service = Some (Ok msg, s') \<and>
     \<not> starts_space (bc_Content msg) \<and> length (bc_Content msg) \<le> 200"
proof -
  let ?msg = "sent_message ''id-1'' 5 (demo_req '' hi '') demo_service"
  obtain l where c: "checkLimit demo_deps (demo_req '' hi '') demo_service =
      (None, demo_service\<lparr>sv_limiter := l\<rparr>)" using demo_check by blast
  obtain b where p: "Publish (dep_broker demo_deps) ?msg (sv_broker demo_service) = (None, b)"
    by (rule demo_sent)
  obtain s' where s: "Send demo_deps ''id-1'' 5 (demo_req '' hi '') demo_service = Some (Ok ?msg, s')"
    using Send_total [OF persist_service_ok refl c p] demo_valid by auto
  from Send_content [OF s] s show ?thesis by blast
qed

section \<open>The counters of Send\<close>

text \<open>An operation whose errors are never rate limit errors.\<close>

definition quiet :: "('s, 'a) op \<Rightarrow> bool" where
  "quiet f \<longleftrightarrow> (\<forall>s e s'. f s = (Err e, s') \<longrightarrow> rate_limit_scope e = None)"

text \<open>An error of the check that is a rate limit error carries one of the three scopes.\<close>

lemma Allow_error:
  assumes "Allow run rules x = (Err e, x')" "\<forall>ks vs. quiet (run ks vs)"
  shows "rate_limit_scope e = None"
proof -
  have "collect_rules ks vs rules = Err e' \<Longrightarrow> rate_limit_scope e' = None" for ks vs e'
    by (induction ks vs rules rule: collect_rules.induct) (auto split: if_splits)
  moreover have "decode_reply rules reply = Err e' \<Longrightarrow> rate_limit_scope e' = None" for reply e'
    by (auto simp: decode_reply_def Let_def split: redis_reply.splits list.splits if_splits)
  moreover have "run ks vs y = (Err e', y') \<Longrightarrow> rate_limit_scope e' = None" for ks vs y e' y'
    using assms(2) unfolding quiet_def by blast
  ultimately show ?thesis
    using assms(1) by (auto simp: Allow_def split: if_splits sum.splits prod.splits)
qed

lemma check_error_scope:
  assumes "dep_Allow D = Allow run" "\<forall>ks vs. quiet (run ks vs)"
    and "checkLimit D req s = (Some err, s1)" "rate_limit_scope err = Some scope"
  shows "scope \<in> {''user'', ''ip'', ''room''}"
proof -
  obtain res l where a: "Allow run (limit_rules (sv_cfg s) req) (sv_limiter s) = (res, l)" by fastforce
  note cases = redis_limiter.checkLimit_cases [OF assms(1) a]
  show ?thesis
  proof (cases res)
    case (Inl e)
    with cases assms(3) have "err = e" by simp
    with Allow_error [OF a [unfolded Inl] assms(2)] assms(4) show ?thesis by simp
  next
    case (Inr d)
    with cases assms(3,4) have d: "\<not> Allowed d" "scope = RejectedScope d" by (auto split: if_splits)
    have "RejectedScope d \<in> set [''user'', ''ip'', ''room'']"
      by (rule redis_limiter.reject_scope_cases [OF a [unfolded Inr] d(1)]) (simp add: limit_rules_def)
    with d show ?thesis by simp
  qed
qed

text \<open>The change of a counter as zero or one.\<close>

definition tick :: "bool \<Rightarrow> int64" where
  "tick b = (if b then 1 else 0)"

lemma enqueue_metrics:
  assumes "enqueuePersistence d s = Some s'" "sv_metrics s = Some m"
  shows "\<exists>y. sv_metrics s' = Some y \<and> (y = IncPersistQueued m \<or> y = IncPersistDropped m)"
  using assms by (auto simp: enqueuePersistence_def split: if_splits prod.splits send_outcome.splits)


text \<open>The errors of the script on the example server are texts of the server.\<close>

lemma quiet_ops:
  "quiet (op_return x)" "rate_limit_scope e = None \<Longrightarrow> quiet (op_fail e)"
  "quiet f \<Longrightarrow> (\<And>x. quiet (g x)) \<Longrightarrow> quiet (op_bind f g)"
  by (auto simp: quiet_def go_defs split: prod.splits sum.splits)

lemma quiet_kv:
  "quiet (cmd_GET kv_cmds k)" "quiet (cmd_INCR kv_cmds k)" "quiet (cmd_PTTL kv_cmds k)"
  "quiet (cmd_PEXPIRE kv_cmds k a)"
  by (auto simp: quiet_def kv_cmds_def split: option.splits prod.splits if_splits)

lemma quiet_check: "quiet (script_check kv_cmds L argv i ks)"
  by (induction ks arbitrary: i)
    (auto intro!: quiet_ops quiet_kv simp: Let_def lua_type_error_def split: option.split)

lemma quiet_count: "quiet (script_count kv_cmds argv i ks)"
  by (induction ks arbitrary: i)
    (auto intro!: quiet_ops quiet_kv simp: lua_type_error_def split: option.split)

lemma quiet_script: "quiet (fixedWindowScript kv_cmds L ks vs)"
  unfolding fixedWindowScript_def
  by (auto intro!: quiet_ops quiet_check quiet_count split: option.split)


end
