(* ===== verification/Service_Run.thy ===== *)
theory Service_Run
  imports Service
begin

text \<open>
  The message service over its life time on the Redis broker: any sequence of sends, room
  subscriptions, incoming messages and worker steps, and the shutdown that ends it.
\<close>

section \<open>The broker's table over a run\<close>

definition broker_inv :: "nat \<Rightarrow> ('c, 'p) redis_broker \<Rightarrow> bool" where
  "broker_inv k b \<longleftrightarrow>
     tracked b \<and> fresh_ptrs b \<and> finite (dom (rb_closers b)) \<and> unat (rb_subIndex b) \<le> k"

lemma broker_inv_new: "broker_inv 0 (NewRedisPubSubBroker c)"
  using tracked_new [of c] unfolding broker_inv_def by (simp add: NewRedisPubSubBroker_def)

lemma broker_inv_mono: "broker_inv k b \<Longrightarrow> k \<le> k' \<Longrightarrow> broker_inv k' b"
  by (simp add: broker_inv_def)

lemma broker_inv_Subscribe:
  assumes inv: "broker_inv k b" and k: "k < 2 ^ 64 - 1" and sub: "redis_Subscribe P r b = (res, b')"
  shows "broker_inv (Suc k) b'"
proof -
  from inv k have lt: "unat (rb_subIndex b) < 2 ^ 64 - 1" by (simp add: broker_inv_def)
  have tr: "tracked b'"
    by (rule tracked_Subscribe [OF _ _ lt sub]) (use inv in \<open>simp_all add: broker_inv_def\<close>)
  show ?thesis
  proof (cases res)
    case (Inl e)
    with redis_Subscribe_Err [of P r b e b'] sub inv tr show ?thesis by (simp add: broker_inv_def)
  next
    case (Inr h)
    from inv have fr: "fresh_ptrs b" by (simp add: broker_inv_def)
    note e = redis_Subscribe_Ok [OF sub [unfolded Inr] fr]
    show ?thesis using e(3,5,7) inv tr unat_Suc_64 [OF lt] by (simp add: broker_inv_def)
  qed
qed

lemma broker_inv_Unsubscribe:
  assumes inv: "broker_inv k b" and un: "redis_Unsubscribe P h b = (err, b')"
  shows "broker_inv k b'"
  using inv tracked_Unsubscribe [OF _ un] fresh_stop [OF redis_Unsubscribe_effect(1,2) [OF un]]
    redis_Unsubscribe_effect(3,4) [OF un]
  by (auto simp: broker_inv_def split: option.split)

lemma broker_inv_Publish:
  assumes inv: "broker_inv k b" and pub: "redis_Publish P zone msg b = (err, b')"
  shows "broker_inv k b'"
  using inv tracked_Publish [OF _ pub] pub
  by (auto simp: broker_inv_def redis_Publish_def fresh_ptrs_def split: sum.splits prod.splits)

lemma broker_inv_close_subscriptions:
  "broker_inv k b \<Longrightarrow>
   close_subscriptions (redis_broker_ops P zone order) subs rooms e b = (err, b') \<Longrightarrow> broker_inv k b'"
proof (induction rooms arbitrary: e b)
  case (Cons r rooms)
  show ?case
  proof (cases "subs r")
    case None
    with Cons show ?thesis by simp
  next
    case (Some sub)
    obtain e1 b1 where un: "redis_Unsubscribe P (rs_unsubscribe sub) b = (e1, b1)" by fastforce
    have u: "Unsubscribe (redis_broker_ops P zone order) = redis_Unsubscribe P"
      by (simp add: redis_broker_ops_def)
    from Cons.IH [OF broker_inv_Unsubscribe [OF Cons.prems(1) un]] Cons.prems(2) Some un u
    show ?thesis by simp
  qed
qed simp

section \<open>Runs of the service\<close>

datatype service_event =
  SendEv string time send_request
| AcquireEv string
| ReleaseEv string
| HandleEv string broadcast_message
| TickEv
| ReceiveEv

definition service_step ::
    "('b, 'h, 'l, 'r) deps \<Rightarrow> (ptr set \<Rightarrow> ptr list) \<Rightarrow> service_event \<Rightarrow>
     ('b, 'h, 'l, 'r) service \<Rightarrow> ('b, 'h, 'l, 'r) service option" where
  "service_step D order e s =
     (case e of
        SendEv newID now req \<Rightarrow> map_option snd (Send D newID now req s)
      | AcquireEv r \<Rightarrow> Some (snd (AcquireRoomSubscription D r s))
      | ReleaseEv r \<Rightarrow> Some (snd (ReleaseRoomSubscription D r s))
      | HandleEv r m \<Rightarrow> Some (room_handler order r m s)
      | TickEv \<Rightarrow> Some (worker_tick D s)
      | ReceiveEv \<Rightarrow> Some (worker_receive D s))"

text \<open>The messages a step adds to the persistence queue.\<close>

definition newly_accepted ::
    "('b, 'h, 'l, 'r) deps \<Rightarrow> service_event \<Rightarrow> ('b, 'h, 'l, 'r) service \<Rightarrow> danmaku list" where
  "newly_accepted D e s =
     (case e of
        SendEv newID now req \<Rightarrow>
          (case Send D newID now req s of
             Some (Inr msg, s') \<Rightarrow> if accepts s then [danmaku_of msg] else []
           | _ \<Rightarrow> [])
      | _ \<Rightarrow> [])"

fun service_run ::
    "('b, 'h, 'l, 'r) deps \<Rightarrow> (ptr set \<Rightarrow> ptr list) \<Rightarrow> service_event list \<Rightarrow> danmaku list \<Rightarrow>
     ('b, 'h, 'l, 'r) service \<Rightarrow> (('b, 'h, 'l, 'r) service \<times> danmaku list) option" where
  "service_run D order [] acc s = Some (s, acc)"
| "service_run D order (e # es) acc s =
     (case service_step D order e s of
        None \<Rightarrow> None
      | Some s' \<Rightarrow> service_run D order es (acc @ newly_accepted D e s) s')"

text \<open>
  The invariant of a run: the persistence has kept every accepted message, its worker was
  started, the service is open, and the broker tracks its subscriptions.
\<close>

definition run_inv ::
    "nat \<Rightarrow> nat \<Rightarrow> danmaku list \<Rightarrow>
     (('c, 'p) redis_broker, ptr, 'l, danmaku list list \<times> 'r) service \<Rightarrow> bool" where
  "run_inv n k acc s \<longleftrightarrow>
     kept n acc s \<and> sv_worker s \<noteq> NotStarted \<and> \<not> sv_closeOnce s \<and> broker_inv k (sv_broker s)"

lemma kept_cong:
  assumes "sv_persistCh s' = sv_persistCh s" "sv_persistClosed s' = sv_persistClosed s"
    and "sv_closeOnce s' = sv_closeOnce s" "sv_worker s' = sv_worker s" "sv_repo s' = sv_repo s"
  shows "kept n acc s' = kept n acc s"
  using assms
  by (simp add: kept_def persist_ok_def conserves_def batches_ok_def save_calls_def pending_batch_def
      split: worker.split)

lemma run_inv_cong:
  assumes "run_inv n k acc s" "sv_persistCh s' = sv_persistCh s"
    and "sv_persistClosed s' = sv_persistClosed s" "sv_closeOnce s' = sv_closeOnce s"
    and "sv_worker s' = sv_worker s" "sv_repo s' = sv_repo s" "broker_inv k' (sv_broker s')"
  shows "run_inv n k' acc s'"
  using assms kept_cong [of s' s n acc] by (simp add: run_inv_def)

lemma run_inv_mono: "run_inv n k acc s \<Longrightarrow> run_inv n (Suc k) acc s"
  by (auto simp: run_inv_def intro: broker_inv_mono)

lemma run_inv_send:
  assumes broker: "dep_broker D = redis_broker_ops P zone order"
    and "run_inv n k acc s" "Send D newID now req s = Some (res, s')"
  shows "run_inv n k (acc @ newly_accepted D (SendEv newID now req) s) s'"
proof -
  obtain lerr s1 where c: "checkLimit D req s = (lerr, s1)" by fastforce
  obtain perr b where p: "Publish (dep_broker D) (sent_message newID now req s) (sv_broker s) = (perr, b)"
    by fastforce
  from assms(2) have ok: "persist_ok s" by (simp add: run_inv_def kept_def)
  let ?q = "if valid_content req \<and> lerr = None \<and> perr = None \<and> accepts s
      then [danmaku_of (sent_message newID now req s)] else []"
  from Send_total [OF ok refl c p] assms(3) have
    res: "res = (if \<not> valid_content req then Err ErrInvalidContent
            else case lerr of Some e \<Rightarrow> Err e
                 | None \<Rightarrow> (case perr of Some e \<Rightarrow> Err e
                            | None \<Rightarrow> Ok (sent_message newID now req s)))" and
    f: "persist_ok s'" "sv_repo s' = sv_repo s" "sv_worker s' = sv_worker s"
      "sv_closeOnce s' = sv_closeOnce s"
      "sv_broker s' = (if valid_content req \<and> lerr = None then b else sv_broker s)"
      "chan_buf (sv_persistCh s') = chan_buf (sv_persistCh s) @ ?q"
    by auto
  have new: "newly_accepted D (SendEv newID now req) s = ?q"
    using assms(3) res by (auto simp: newly_accepted_def split: option.split)
  from p have "redis_Publish P zone (sent_message newID now req s) (sv_broker s) = (perr, b)"
    by (simp add: broker redis_broker_ops_def)
  with broker_inv_Publish assms(2) f(5) have "broker_inv k (sv_broker s')"
    by (auto simp: run_inv_def)
  with f assms(2) new show ?thesis
    by (simp add: run_inv_def kept_def conserves_def batches_ok_def save_calls_def pending_batch_def)
qed

lemma run_inv_acquire:
  assumes broker: "dep_broker D = redis_broker_ops P zone order"
    and inv: "run_inv n k acc s" and k: "k < 2 ^ 64 - 1"
  shows "run_inv n (Suc k) acc (snd (AcquireRoomSubscription D r s))"
proof (cases "sv_subscriptions s r")
  case (Some sub)
  from run_inv_mono [OF inv] have b: "broker_inv (Suc k) (sv_broker s)" by (simp add: run_inv_def)
  have "snd (AcquireRoomSubscription D r s) =
      s\<lparr>sv_subscriptions := (sv_subscriptions s)(r \<mapsto> sub\<lparr>rs_refs := rs_refs sub + 1\<rparr>)\<rparr>"
    by (simp add: AcquireRoomSubscription_def Some)
  then show ?thesis by (simp add: run_inv_cong [OF inv] b)
next
  case None
  from inv have b: "broker_inv k (sv_broker s)" by (simp add: run_inv_def)
  obtain res b' where sub: "redis_Subscribe P r (sv_broker s) = (res, b')" by fastforce
  have op: "Subscribe (dep_broker D) r (sv_broker s) = (res, b')"
    using sub by (simp add: broker redis_broker_ops_def)
  note b' = broker_inv_Subscribe [OF b k sub]
  have "\<exists>subs. snd (AcquireRoomSubscription D r s) = s\<lparr>sv_broker := b', sv_subscriptions := subs\<rparr>"
  proof (cases res)
    case (Inl e)
    show ?thesis
      by (rule exI [of _ "sv_subscriptions s"]) (simp add: AcquireRoomSubscription_def None op Inl)
  qed (auto simp: AcquireRoomSubscription_def None op)
  then obtain subs where
    "snd (AcquireRoomSubscription D r s) = s\<lparr>sv_broker := b', sv_subscriptions := subs\<rparr>" by blast
  then show ?thesis by (simp add: run_inv_cong [OF inv] b')
qed

lemma run_inv_release:
  assumes broker: "dep_broker D = redis_broker_ops P zone order" and inv: "run_inv n k acc s"
  shows "run_inv n k acc (snd (ReleaseRoomSubscription D r s))"
proof -
  from inv have b: "broker_inv k (sv_broker s)" by (simp add: run_inv_def)
  obtain h s1 where r: "release_begin r s = (h, s1)" by fastforce
  from release_begin_table [OF r] obtain subs where "s1 = s\<lparr>sv_subscriptions := subs\<rparr>" by blast
  then have s1: "run_inv n k acc s1" by (simp add: run_inv_cong [OF inv] b)
  show ?thesis
  proof (cases h)
    case None
    with r s1 show ?thesis by (simp add: ReleaseRoomSubscription_def)
  next
    case (Some u)
    obtain e b' where un: "redis_Unsubscribe P u (sv_broker s1) = (e, b')" by fastforce
    from s1 have "broker_inv k (sv_broker s1)" by (simp add: run_inv_def)
    note b' = broker_inv_Unsubscribe [OF this un]
    have "run_inv n k acc (s1\<lparr>sv_broker := b'\<rparr>)" by (simp add: run_inv_cong [OF s1] b')
    with r Some un show ?thesis
      by (simp add: ReleaseRoomSubscription_def release_finish_def broker redis_broker_ops_def)
  qed
qed

lemma run_inv_step:
  assumes broker: "dep_broker D = redis_broker_ops P zone order" and rec: "dep_SaveBatch D = recording save"
    and inv: "run_inv n k acc s" and k: "k < 2 ^ 64 - 1"
  shows "\<exists>s'. service_step D ord e s = Some s' \<and> run_inv n (Suc k) (acc @ newly_accepted D e s) s'"
proof (cases e)
  case (SendEv newID now req)
  obtain lerr s1 perr b where c: "checkLimit D req s = (lerr, s1)"
    and p: "Publish (dep_broker D) (sent_message newID now req s) (sv_broker s) = (perr, b)" by fastforce
  from inv have "persist_ok s" by (simp add: run_inv_def kept_def)
  from Send_total [OF this refl c p] obtain res s' where
    send: "Send D newID now req s = Some (res, s')" by blast
  from run_inv_mono [OF run_inv_send [OF broker inv send]] send SendEv
  show ?thesis by (simp add: service_step_def)
next
  case (AcquireEv r)
  with run_inv_acquire [OF broker inv k] show ?thesis by (simp add: service_step_def newly_accepted_def)
next
  case (ReleaseEv r)
  with run_inv_mono [OF run_inv_release [OF broker inv]] show ?thesis
    by (simp add: service_step_def newly_accepted_def)
next
  case (HandleEv r m)
  have "run_inv n k acc (room_handler ord r m s)"
    by (rule run_inv_cong [OF inv])
      (use inv in \<open>simp_all add: room_handler_def handle_broadcast_def run_inv_def split: prod.split\<close>)
  from run_inv_mono [OF this] HandleEv show ?thesis by (simp add: service_step_def newly_accepted_def)
next
  case TickEv
  have "run_inv n k acc (worker_tick D s)"
    using inv kept_flush [OF rec, of n acc s]
    by (simp add: run_inv_def worker_tick_def flush_worker split: worker.split)
  from run_inv_mono [OF this] TickEv show ?thesis by (simp add: service_step_def newly_accepted_def)
next
  case ReceiveEv
  have "run_inv n k acc (worker_receive D s)"
    using inv kept_receive [OF rec, of n acc s] by (simp add: run_inv_def worker_started_receive)
  from run_inv_mono [OF this] ReceiveEv show ?thesis by (simp add: service_step_def newly_accepted_def)
qed

lemma run_inv_run:
  assumes broker: "dep_broker D = redis_broker_ops P zone order" and rec: "dep_SaveBatch D = recording save"
  shows "run_inv n k acc s \<Longrightarrow> k + length es < 2 ^ 64 \<Longrightarrow>
   \<exists>s' acc'. service_run D ord es acc s = Some (s', acc') \<and> run_inv n (k + length es) acc' s'"
proof (induction es arbitrary: k acc s)
  case (Cons e es)
  have "k < 2 ^ 64 - 1" using Cons.prems(2) by simp
  from run_inv_step [OF broker rec Cons.prems(1) this, of ord e] obtain s1 where
    s1: "service_step D ord e s = Some s1" "run_inv n (Suc k) (acc @ newly_accepted D e s) s1" by blast
  from Cons.IH [OF s1(2)] Cons.prems(2) s1(1) show ?case by simp
qed simp

section \<open>Shutting down\<close>

text \<open>Closing an open service: what it leaves behind.\<close>

lemma Close_open:
  assumes broker: "dep_broker D = redis_broker_ops P zone border" and rec: "dep_SaveBatch D = recording save"
    and "map_range border" and inv: "run_inv n k acc s"
  shows "\<exists>err s'. Close D order s = Some (err, s') \<and> sv_worker s' = Finished \<and>
    sv_closeOnce s' \<and> sv_persistClosed s' \<and>
    concat (save_calls s') = acc \<and> sv_subscriptions s' = Map.empty \<and>
    sub_live (sv_broker s') = Map.empty \<and> persist_ok s'"
proof -
  from inv have k: "kept n acc s" and ok: "persist_ok s" and open_s: "\<not> sv_closeOnce s"
    and started: "sv_worker s \<noteq> NotStarted" and b: "broker_inv k (sv_broker s)"
    by (simp_all add: run_inv_def kept_def)
  from close_persistence_ok [OF ok] obtain s1 where
    c: "close_persistence s = Some s1" and s1: "persist_ok s1" "sv_closeOnce s1" "sv_worker s1 = sv_worker s"
    by blast
  from c have br: "sv_broker s1 = sv_broker s"
    by (auto simp: close_persistence_def split: if_splits)
  define s2 where "s2 = worker_drain D s1"
  have fin: "sv_worker s2 = Finished" "chan_buf (sv_persistCh s2) = []" "kept n acc s2"
    using worker_drain_closed [of s1 D] kept_drain [OF rec kept_close [OF k c]] s1 started
    by (simp_all add: s2_def persist_ok_def)
  have flags: "sv_closeOnce s2" "sv_persistClosed s2" "broker_inv k (sv_broker s2)"
    using s1 b br by (simp_all add: s2_def persist_ok_def)
  obtain err1 b1 where cs: "close_subscriptions (dep_broker D) (sv_subscriptions s2)
      (order (dom (sv_subscriptions s2))) None (sv_broker s2) = (err1, b1)" by fastforce
  have b1: "broker_inv k b1"
    by (rule broker_inv_close_subscriptions [OF flags(3) cs [unfolded broker]])
  obtain err2 b2 where cb: "redis_Close P border b1 = (err2, b2)" by fastforce
  have live: "sub_live b2 = Map.empty"
    by (rule redis_Close_live [OF assms(3) _ _ cb]) (use b1 in \<open>simp_all add: broker_inv_def\<close>)
  have "concat (save_calls s2) = acc"
    using fin by (simp add: kept_def conserves_def pending_batch_def)
  moreover have "Close D order s = Some (first_err err1 err2,
      s2\<lparr>sv_subscriptions := Map.empty, sv_broker := b2\<rparr>)"
    using c cs cb open_s
    by (simp add: Close_def s2_def Let_def broker) (simp add: redis_broker_ops_def)
  ultimately show ?thesis
    using fin(1,3) flags(1,2) live by (auto simp: save_calls_def kept_def persist_ok_def)
qed

lemma Close_again: "sv_closeOnce s \<Longrightarrow> Close D order s = Some (None, s)"
  by (simp add: Close_def)

lemma persist_service_sel:
  "sv_broker (persist_service n i u cfg hub heap br r l m) = br"
  "sv_closeOnce (persist_service n i u cfg hub heap br r l m) = False"
  by (simp_all add: persist_service_def StartPersistenceWorker_def NewMessageService_def Let_def)

lemma persist_service_run_inv:
  "run_inv (batch_size n) 0 [] (persist_service n i u cfg hub heap (NewRedisPubSubBroker c) r l m)"
  by (simp add: run_inv_def persist_service_kept persist_service_started broker_inv_new
      persist_service_sel)

text \<open>
  C5. Whatever is sent, subscribed, released, received and flushed on a new service, in any
  order, nothing panics; and closing it then waits for the worker's end, has handed every
  accepted message to \<open>SaveBatch\<close> in the order of acceptance, leaves no room subscription and
  no live subscription of the broker, and closing it again does nothing and reports no error.
\<close>

theorem service_shutdown:
  assumes "dep_broker D = redis_broker_ops P zone border" "dep_SaveBatch D = recording save"
    and "map_range border" "length es < 2 ^ 64"
  shows "\<exists>s acc err s'.
    service_run D ord es [] (persist_service n i u cfg hub heap (NewRedisPubSubBroker c) r l m) =
      Some (s, acc) \<and>
    Close D order s = Some (err, s') \<and> sv_worker s' = Finished \<and>
    concat (save_calls s') = acc \<and> sv_subscriptions s' = Map.empty \<and>
    sub_live (sv_broker s') = Map.empty \<and> Close D order s' = Some (None, s')"
proof -
  have "0 + length es < 2 ^ 64" using assms(4) by simp
  from run_inv_run [OF assms(1,2) persist_service_run_inv this, of ord] obtain s acc where
    run: "service_run D ord es [] (persist_service n i u cfg hub heap (NewRedisPubSubBroker c) r l m) =
      Some (s, acc)" and inv: "run_inv (batch_size n) (0 + length es) acc s" by blast
  from Close_open [OF assms(1-3) inv, of order] run Close_again show ?thesis by blast
qed

theorem service_shutdown_witness:
  "\<exists>s acc err s'.
    service_run demo_deps sorted_list_of_set
      [AcquireEv ''r1'', SendEv ''id-1'' 5 (demo_req '' hi ''), ReceiveEv, ReleaseEv ''r1''] [] demo_service =
      Some (s, acc) \<and>
    Close demo_deps sorted_list_of_set s = Some (err, s') \<and> concat (save_calls s') = acc \<and>
    sub_live (sv_broker s') = Map.empty"
proof -
  have d: "dep_broker demo_deps = redis_broker_ops demo_pubsub 0 sorted_list_of_set"
    by (simp add: demo_deps_def)
  have "length [AcquireEv ''r1'', SendEv ''id-1'' 5 (demo_req '' hi ''), ReceiveEv, ReleaseEv ''r1''] < 2 ^ 64"
    by simp
  from service_shutdown [OF d demo_deps_recording ascending_string this] show ?thesis by blast
qed

end
