(* ===== verification/Auth.thy ===== *)
theory Auth
  imports Go_Time Go_Strings
begin

text \<open>
  internal/auth/jwt.go: issuing and checking the guest tokens. The JWT library is a parameter;
  what the code relies on is stated as the assumptions of a locale, and a small library that
  writes tokens in clear text shows that they can be met.
\<close>

section \<open>Tokens\<close>

record claims =
  cm_UserID :: string
  cm_ExpiresAt :: time
  cm_IssuedAt :: time

datatype jwt_method = HS256 | OtherMethod string

text \<open>
  What \<open>jwt.ParseWithClaims\<close> returns when it reports no error: \<open>pt_Claims\<close> is \<open>None\<close> when the
  claims are not of the type \<open>*Claims\<close>. It asks its key function for the key, given the
  token's signing method. \<open>jwt_NewNumericDate\<close> cuts a time to the precision of the token.
\<close>

record parsed_token =
  pt_Claims :: "claims option"
  pt_Valid :: bool

record jwt_lib =
  jwt_NewNumericDate :: "time \<Rightarrow> time"
  jwt_SignedString :: "jwt_method \<Rightarrow> claims \<Rightarrow> string \<Rightarrow> string result"
  jwt_ParseWithClaims :: "time \<Rightarrow> string \<Rightarrow> (jwt_method \<Rightarrow> string result) \<Rightarrow> parsed_token result"

definition GenerateToken :: "jwt_lib \<Rightarrow> time \<Rightarrow> string \<Rightarrow> string \<Rightarrow> duration \<Rightarrow> string result" where
  "GenerateToken J now secret userID ttl =
     jwt_SignedString J HS256
       \<lparr>cm_UserID = userID, cm_ExpiresAt = jwt_NewNumericDate J (time_Add now ttl),
        cm_IssuedAt = jwt_NewNumericDate J now\<rparr> secret"

definition token_key :: "string \<Rightarrow> jwt_method \<Rightarrow> string result" where
  "token_key secret m = (if m \<noteq> HS256 then Err (ErrMsg ''unexpected token method'') else Ok secret)"

definition ParseToken :: "jwt_lib \<Rightarrow> time \<Rightarrow> string \<Rightarrow> string \<Rightarrow> claims result" where
  "ParseToken J now secret tokenString =
     (case jwt_ParseWithClaims J now tokenString (token_key secret) of
        Inl err \<Rightarrow> Err err
      | Inr parsed \<Rightarrow>
          (case pt_Claims parsed of
             None \<Rightarrow> Err (ErrMsg ''invalid token'')
           | Some c \<Rightarrow>
               if \<not> pt_Valid parsed then Err (ErrMsg ''invalid token'')
               else if cm_UserID c = [] then Err (ErrMsg ''missing user_id'')
               else Ok c))"

section \<open>What the code relies on\<close>

text \<open>
  Parsing succeeds only for a token that was signed, by the method it names, with the key the
  key function gives for that method, and that has not expired; and it gives back the claims
  of such a token.
\<close>

locale jwt =
  fixes J :: jwt_lib
  assumes parse_signed_only: "jwt_ParseWithClaims J now t keyf = Ok p \<Longrightarrow>
      \<exists>m c k. keyf m = Ok k \<and> jwt_SignedString J m c k = Ok t \<and>
        pt_Claims p = Some c \<and> pt_Valid p \<and> now < cm_ExpiresAt c"
    and parse_signed_Ok: "jwt_SignedString J m c k = Ok t \<Longrightarrow> keyf m = Ok k \<Longrightarrow> now < cm_ExpiresAt c \<Longrightarrow>
      jwt_ParseWithClaims J now t keyf = Ok \<lparr>pt_Claims = Some c, pt_Valid = True\<rparr>"
begin

lemma ParseToken_signed:
  assumes "ParseToken J now secret t = Ok c"
  shows "jwt_SignedString J HS256 c secret = Ok t" "now < cm_ExpiresAt c" "cm_UserID c \<noteq> []"
proof -
  obtain p where p: "jwt_ParseWithClaims J now t (token_key secret) = Ok p" "pt_Claims p = Some c"
    and u: "cm_UserID c \<noteq> []"
    using assms by (auto simp: ParseToken_def split: sum.splits option.splits if_splits)
  from parse_signed_only [OF p(1)] p(2) obtain m k where
    s: "token_key secret m = Ok k" "jwt_SignedString J m c k = Ok t" "now < cm_ExpiresAt c" by auto
  from s(1) have "m = HS256" "k = secret" by (auto simp: token_key_def split: if_splits)
  with s u show "jwt_SignedString J HS256 c secret = Ok t" "now < cm_ExpiresAt c" "cm_UserID c \<noteq> []"
    by simp_all
qed

lemma GenerateToken_parses:
  assumes "GenerateToken J now secret u ttl = Ok t" "u \<noteq> []"
    and "now' < jwt_NewNumericDate J (time_Add now ttl)"
  shows "ParseToken J now' secret t = Ok \<lparr>cm_UserID = u,
    cm_ExpiresAt = jwt_NewNumericDate J (time_Add now ttl), cm_IssuedAt = jwt_NewNumericDate J now\<rparr>"
proof -
  have "token_key secret HS256 = Ok secret" by (simp add: token_key_def)
  from parse_signed_Ok [OF assms(1) [unfolded GenerateToken_def], of "token_key secret" now', OF this]
    assms(2,3)
  show ?thesis by (simp add: ParseToken_def)
qed

end

section \<open>A library in clear text\<close>

text \<open>
  The token is the key, the user, the expiry and the issue time, separated by points. It signs
  with HS256 only.
\<close>

fun split_points :: "string \<Rightarrow> string \<Rightarrow> string list" where
  "split_points cur [] = [cur]"
| "split_points cur (c # cs) =
     (if c = CHR ''.'' then cur # split_points [] cs else split_points (cur @ [c]) cs)"

definition clear_token :: "claims \<Rightarrow> string \<Rightarrow> string" where
  "clear_token c k =
     RawURL_encode k @ ''.'' @ RawURL_encode (cm_UserID c) @ ''.'' @
     int_dec (cm_ExpiresAt c) @ ''.'' @ int_dec (cm_IssuedAt c)"

definition read_clear_token :: "string \<Rightarrow> (claims \<times> string) option" where
  "read_clear_token t =
     (case split_points [] t of
        [k, u, e, i] \<Rightarrow>
          (case (parse_signed e, parse_signed i) of
             (Some e', Some i') \<Rightarrow>
               let c = \<lparr>cm_UserID = RawURL_decode u, cm_ExpiresAt = e', cm_IssuedAt = i'\<rparr>
               in if clear_token c (RawURL_decode k) = t then Some (c, RawURL_decode k) else None
           | _ \<Rightarrow> None)
      | _ \<Rightarrow> None)"

definition clear_jwt :: jwt_lib where
  "clear_jwt =
     \<lparr>jwt_NewNumericDate = (\<lambda>t. t div ns_per_s * ns_per_s),
      jwt_SignedString = (\<lambda>m c k. case m of HS256 \<Rightarrow> Ok (clear_token c k)
                                        | OtherMethod x \<Rightarrow> Err (ErrMsg ''unsupported'')),
      jwt_ParseWithClaims = (\<lambda>now t keyf.
        case read_clear_token t of
          None \<Rightarrow> Err (ErrMsg ''token is malformed'')
        | Some (c, k) \<Rightarrow>
            (case keyf HS256 of
               Inl e \<Rightarrow> Err e
             | Inr k' \<Rightarrow>
                 if k' \<noteq> k then Err (ErrMsg ''token signature is invalid'')
                 else if cm_ExpiresAt c \<le> now then Err (ErrMsg ''token is expired'')
                 else Ok \<lparr>pt_Claims = Some c, pt_Valid = True\<rparr>))\<rparr>"

lemma split_points_piece:
  "CHR ''.'' \<notin> set p \<Longrightarrow> split_points cur (p @ CHR ''.'' # rest) = (cur @ p) # split_points [] rest"
  "CHR ''.'' \<notin> set p \<Longrightarrow> split_points cur p = [cur @ p]"
  by (induction p arbitrary: cur) auto

lemma no_point: "CHR ''.'' \<notin> set (RawURL_encode s)" "CHR ''.'' \<notin> set (int_dec i)"
proof -
  have "b64_char n \<noteq> CHR ''.''" for n by (auto simp: b64_char_def char_of_eq_iff take_bit_eq_mod)
  then show "CHR ''.'' \<notin> set (RawURL_encode s)"
    by (induction s rule: RawURL_encode.induct) (auto dest: sym)
  have "\<not> is_digit (CHR ''.'')" by (simp add: is_digit_def)
  then have "CHR ''.'' \<notin> set (nat_dec n)" for n using nat_dec_digits [of n] by (auto simp: list_all_iff)
  then show "CHR ''.'' \<notin> set (int_dec i)" by (simp add: int_dec_def)
qed

lemma read_clear_token: "read_clear_token (clear_token c k) = Some (c, k)"
  by (simp add: read_clear_token_def clear_token_def split_points_piece no_point
      parse_signed_int_dec RawURL_roundtrip Let_def)

lemma read_clear_token_only: "read_clear_token t = Some (c, k) \<Longrightarrow> clear_token c k = t"
  by (auto simp: read_clear_token_def Let_def split: list.splits option.splits if_splits)

lemma clear_jwt_laws: "jwt clear_jwt"
proof
  fix now t keyf p
  assume "jwt_ParseWithClaims clear_jwt now t keyf = Ok p"
  then obtain c k where r: "read_clear_token t = Some (c, k)" "keyf HS256 = Ok k" "now < cm_ExpiresAt c"
    "p = \<lparr>pt_Claims = Some c, pt_Valid = True\<rparr>"
    by (auto simp: clear_jwt_def split: option.splits sum.splits if_splits)
  from read_clear_token_only [OF r(1)] have "jwt_SignedString clear_jwt HS256 c k = Ok t"
    by (simp add: clear_jwt_def)
  with r show "\<exists>m c k. keyf m = Ok k \<and> jwt_SignedString clear_jwt m c k = Ok t \<and>
      pt_Claims p = Some c \<and> pt_Valid p \<and> now < cm_ExpiresAt c" by fastforce
next
  fix m c k t keyf and now :: time
  assume s: "jwt_SignedString clear_jwt m c k = Ok t" and k: "keyf m = Ok k" "now < cm_ExpiresAt c"
  then have "m = HS256" "t = clear_token c k"
    by (auto simp: clear_jwt_def split: jwt_method.splits)
  with k show "jwt_ParseWithClaims clear_jwt now t keyf = Ok \<lparr>pt_Claims = Some c, pt_Valid = True\<rparr>"
    by (simp add: clear_jwt_def read_clear_token)
qed

interpretation clear_jwt: jwt clear_jwt
  by (rule clear_jwt_laws)

section \<open>What the tokens guarantee\<close>

text \<open>
  A token is accepted only when it was signed with HS256 and this server's secret, has not
  expired and names a user: no token with another algorithm, without a signature or signed
  with another secret gets through.
\<close>

lemma ParseToken_sound:
  assumes "jwt J" "ParseToken J now secret t = Ok c"
  shows "jwt_SignedString J HS256 c secret = Ok t \<and> now < cm_ExpiresAt c \<and> cm_UserID c \<noteq> []"
  using jwt.ParseToken_signed [OF assms] by simp

text \<open>
  A token issued for a user is accepted until it expires, and gives back that user.
\<close>

lemma token_roundtrip:
  assumes "jwt J" "GenerateToken J now secret u ttl = Ok t" "u \<noteq> []"
    and "now' < jwt_NewNumericDate J (time_Add now ttl)"
  shows "\<exists>c. ParseToken J now' secret t = Ok c \<and> cm_UserID c = u"
  using jwt.GenerateToken_parses [OF assms] by simp

definition demo_token :: string where
  "demo_token = clear_token \<lparr>cm_UserID = ''u1'', cm_ExpiresAt = 86400000000000, cm_IssuedAt = 0\<rparr> ''key''"

lemma demo_token_issued: "GenerateToken clear_jwt 5 ''key'' ''u1'' (hours 24) = Ok demo_token"
proof -
  have "sint (hours 24) = 86400000000000"
    unfolding hours_def by (subst sint_of_int64) (simp_all add: ns_per_s_def min_int64_def max_int64_def)
  then show ?thesis
    by (simp add: GenerateToken_def clear_jwt_def demo_token_def time_Add_def ns_per_s_def)
qed

lemma ParseToken_sound_example:
  "\<exists>c. ParseToken clear_jwt 1000 ''key'' demo_token = Ok c \<and>
     jwt_SignedString clear_jwt HS256 c ''key'' = Ok demo_token"
proof -
  have "read_clear_token demo_token =
      Some (\<lparr>cm_UserID = ''u1'', cm_ExpiresAt = 86400000000000, cm_IssuedAt = 0\<rparr>, ''key'')"
    by (simp add: demo_token_def read_clear_token)
  then have "\<exists>c. ParseToken clear_jwt 1000 ''key'' demo_token = Ok c"
    by (simp add: ParseToken_def clear_jwt_def token_key_def)
  then obtain c where c: "ParseToken clear_jwt 1000 ''key'' demo_token = Ok c" by blast
  from ParseToken_sound [OF clear_jwt_laws c] c show ?thesis by blast
qed

end
