(* ===== verification/Ws_Handler.thy ===== *)
theory Ws_Handler
  imports Auth Service
begin

text \<open>
  internal/ws/handler.go: the registry of live connections with its shutdown flag, the checks
  before a connection is upgraded, one iteration of the read loop, and the write loop. How the
  goroutines of all connections interleave is the subject of theory System.
\<close>

section \<open>The registry of connections\<close>

text \<open>\<open>ws_active\<close> is the counter of the \<open>sync.WaitGroup\<close>.\<close>

record handler =
  ws_closing :: bool
  ws_clients :: "ptr set"
  ws_active :: int

definition NewHandler :: handler where
  "NewHandler = \<lparr>ws_closing = False, ws_clients = {}, ws_active = 0\<rparr>"

definition isShuttingDown :: "handler \<Rightarrow> bool" where
  "isShuttingDown h = ws_closing h"

definition registerClient :: "ptr \<Rightarrow> handler \<Rightarrow> bool \<times> handler" where
  "registerClient p h =
     (if ws_closing h then (False, h)
      else (True, h\<lparr>ws_clients := insert p (ws_clients h), ws_active := ws_active h + 1\<rparr>))"

definition unregisterClient :: "ptr \<Rightarrow> handler \<Rightarrow> handler" where
  "unregisterClient p h =
     (if p \<notin> ws_clients h then h
      else h\<lparr>ws_clients := ws_clients h - {p}, ws_active := ws_active h - 1\<rparr>)"

text \<open>
  \<open>Shutdown\<close> first sets the flag and copies the registry, under the lock; it then closes the
  clients it copied, and waits until the counter is zero or its context ends.
\<close>

definition shutdown_begin :: "(ptr set \<Rightarrow> ptr list) \<Rightarrow> handler \<Rightarrow> ptr list \<times> handler" where
  "shutdown_begin order h = (order (ws_clients h), h\<lparr>ws_closing := True\<rparr>)"

fun close_clients :: "(ptr \<Rightarrow> go_error option) \<Rightarrow> ptr list \<Rightarrow> client_heap \<Rightarrow> client_heap" where
  "close_clients conn_err [] H = H"
| "close_clients conn_err (p # ps) H =
     close_clients conn_err ps (H(p := snd (client_Close (conn_err p) (H p))))"

text \<open>The result of the final \<open>select\<close>: \<open>None\<close> is the nil error.\<close>

definition shutdown_wait :: "go_error option \<Rightarrow> handler \<Rightarrow> go_error option option" where
  "shutdown_wait ctx_err h =
     (if ws_active h = 0 then Some None
      else case ctx_err of Some e \<Rightarrow> Some (Some e) | None \<Rightarrow> None)"

text \<open>The counter is the size of the registry: it never goes below zero, which would panic.\<close>

definition handler_ok :: "handler \<Rightarrow> bool" where
  "handler_ok h \<longleftrightarrow> finite (ws_clients h) \<and> ws_active h = int (card (ws_clients h))"

lemma handler_ok_new: "handler_ok NewHandler"
  by (simp add: handler_ok_def NewHandler_def)

lemma handler_ok_register:
  "handler_ok h \<Longrightarrow> p \<notin> ws_clients h \<Longrightarrow> handler_ok (snd (registerClient p h))"
  by (simp add: handler_ok_def registerClient_def)

lemma handler_ok_unregister: "handler_ok h \<Longrightarrow> handler_ok (unregisterClient p h)"
  using card_Suc_Diff1 [of "ws_clients h" p] by (auto simp: handler_ok_def unregisterClient_def)

lemma close_clients_other: "p \<notin> set ps \<Longrightarrow> close_clients ce ps H p = H p"
  by (induction ps arbitrary: H) auto

lemma client_Close_again: "cl_once c \<Longrightarrow> client_Close e c = (None, c)"
  by (simp add: client_Close_def)

lemma client_Close_state:
  "cl_once (snd (client_Close e c))" "cl_RoomID (snd (client_Close e c)) = cl_RoomID c"
  "cl_send (snd (client_Close e c)) = cl_send c" "cl_UserID (snd (client_Close e c)) = cl_UserID c"
  by (simp_all add: client_Close_def)

lemma close_clients_closed: "p \<in> set ps \<or> cl_once (H p) \<Longrightarrow> cl_once (close_clients ce ps H p)"
proof (induction ps arbitrary: H)
  case (Cons q ps)
  show ?case
  proof (cases "p \<in> set ps")
    case True
    with Cons.IH show ?thesis by simp
  next
    case False
    with Cons.prems show ?thesis
      by (auto simp: close_clients_other client_Close_state)
  qed
qed simp

text \<open>
  After shutdown has begun no connection is registered any more, the list it closes holds
  every connection registered before, and closing that list leaves each of them closed, once,
  with its context cancelled; so every registered connection is told to end.
\<close>

lemma shutdown_closes_all:
  assumes "map_range order" "handler_ok h" "\<forall>p. close_ok (H p)"
    and "shutdown_begin order h = (ps, h')"
  shows "(\<forall>p. registerClient p h' = (False, h')) \<and> ws_clients h' = ws_clients h \<and>
    (\<forall>p \<in> ws_clients h'. cl_cancelled (close_clients ce ps H p) \<and>
       cl_conn_closes (close_clients ce ps H p) = 1)"
proof -
  from assms(4) have h': "h' = h\<lparr>ws_closing := True\<rparr>" and ps: "ps = order (ws_clients h)"
    by (simp_all add: shutdown_begin_def)
  have set_ps: "set ps = ws_clients h"
    unfolding ps by (rule map_range.range_set [OF assms(1)]) (use assms(2) in \<open>simp add: handler_ok_def\<close>)
  have ok: "\<forall>p. close_ok (close_clients ce qs G p)" if "\<forall>p. close_ok (G p)" for qs and G :: client_heap
    using that by (induction qs arbitrary: G) (simp_all add: close_ok_Close)
  have "cl_cancelled (close_clients ce ps H p) \<and> cl_conn_closes (close_clients ce ps H p) = 1"
    if "p \<in> ws_clients h" for p
    using ok [OF assms(3), of ps] close_clients_closed [of p ps H ce] that set_ps
    by (auto simp: close_ok_def)
  then show ?thesis by (simp add: h' registerClient_def)
qed

lemma shutdown_closes_all_example:
  "cl_cancelled (close_clients (\<lambda>_. None) [Ptr 1, Ptr 2] demo_heap (Ptr 1)) \<and>
   cl_conn_closes (close_clients (\<lambda>_. None) [Ptr 1, Ptr 2] demo_heap (Ptr 1)) = 1"
proof -
  let ?h = "\<lparr>ws_closing = False, ws_clients = {Ptr 1, Ptr 2}, ws_active = 2\<rparr>"
  have ok: "handler_ok ?h" by (simp add: handler_ok_def)
  have "sorted_list_of_set {Ptr 1, Ptr 2} = [Ptr 1, Ptr 2]"
    by (subst sorted_list_of_set_insert) (simp_all add: less_eq_ptr_def)
  then have b: "shutdown_begin sorted_list_of_set ?h = ([Ptr 1, Ptr 2], ?h\<lparr>ws_closing := True\<rparr>)"
    by (simp add: shutdown_begin_def)
  have "\<forall>p. close_ok (demo_heap p)" by (simp add: demo_heap_def close_ok_new)
  from shutdown_closes_all [OF ascending_ptr ok this b, of "\<lambda>_. None"] show ?thesis by simp
qed

section \<open>Before the upgrade\<close>

text \<open>
  What \<open>ServeWS\<close> answers before it upgrades the connection, or the claims it goes on with.
  \<open>roomID\<close> and \<open>token\<close> are the query parameters.
\<close>

record http_reply =
  http_status :: nat
  http_error :: string

definition serve_check ::
    "jwt_lib \<Rightarrow> time \<Rightarrow> string \<Rightarrow> string \<Rightarrow> string \<Rightarrow> handler \<Rightarrow> http_reply + claims" where
  "serve_check J now jwtSecret roomID token h =
     (if isShuttingDown h then Inl \<lparr>http_status = 503, http_error = ''server is shutting down''\<rparr>
      else if roomID = [] \<or> token = []
      then Inl \<lparr>http_status = 400, http_error = ''room_id and token are required''\<rparr>
      else case ParseToken J now jwtSecret token of
             Inl err \<Rightarrow> Inl \<lparr>http_status = 401, http_error = ''invalid token''\<rparr>
           | Inr c \<Rightarrow> Inr c)"



section \<open>The read loop\<close>

text \<open>A reply is offered to the queue of the connection and dropped when the queue is full.\<close>

definition reply :: "ptr \<Rightarrow> ws_outbound \<Rightarrow> ('b, 'h, 'l, 'r) service \<Rightarrow> ('b, 'h, 'l, 'r) service" where
  "reply p msg s = s\<lparr>sv_heap := (sv_heap s)(p := snd (Enqueue msg (sv_heap s p)))\<rparr>"

definition error_reply :: "string \<Rightarrow> ws_outbound" where
  "error_reply e = zero_outbound\<lparr>out_Type := ''error'', out_Error := e\<rparr>"

definition pong_reply :: ws_outbound where
  "pong_reply = zero_outbound\<lparr>out_Type := ''pong''\<rparr>"

text \<open>
  One iteration of the loop for a frame that was read. \<open>None\<close> is a panic.
\<close>

definition client_request :: "string \<Rightarrow> client \<Rightarrow> send_request" where
  "client_request content c =
     \<lparr>req_UserID = cl_UserID c, req_RoomID = cl_RoomID c, req_IP = cl_IP c, req_Content = content\<rparr>"

definition read_message ::
    "('b, 'h, 'l, 'r) deps \<Rightarrow> string \<Rightarrow> time \<Rightarrow> ptr \<Rightarrow> string \<Rightarrow>
     ('b, 'h, 'l, 'r) service \<Rightarrow> ('b, 'h, 'l, 'r) service option" where
  "read_message D newID now p raw s =
     (case unmarshal_inbound raw of
        Inl err \<Rightarrow> Some (reply p (error_reply ''invalid message format'') s)
      | Inr inbound \<Rightarrow>
          if in_Type inbound = ''danmaku'' then
            (case Send D newID now (client_request (in_Content inbound) (sv_heap s p)) s of
               None \<Rightarrow> None
             | Some (Inl err, s') \<Rightarrow> Some (reply p (error_reply (error_text err)) s')
             | Some (Inr msg, s') \<Rightarrow> Some s')
          else if in_Type inbound = ''ping'' then Some (reply p pong_reply s)
          else Some (reply p (error_reply ''unsupported message type'') s))"

lemma reply_frame [simp]:
  "persist_ok (reply p m s) = persist_ok s" "sv_hub (reply p m s) = sv_hub s"
  "sv_subscriptions (reply p m s) = sv_subscriptions s" "sv_broker (reply p m s) = sv_broker s"
  by (simp_all add: reply_def persist_ok_def split: worker.split)

lemma reply_queue:
  assumes "client_open (sv_heap s p)"
  shows "send_queue (sv_heap (reply p m s) q) =
    send_queue (sv_heap s q) @ (if q = p \<and> 0 < send_room (sv_heap s p) then [m] else [])"
  using assms by (simp add: reply_def Enqueue_effect)

text \<open>What the sender is told about a frame.\<close>

definition reply_for ::
    "string \<Rightarrow> broadcast_message result \<Rightarrow> ws_outbound list" where
  "reply_for raw res =
     (case unmarshal_inbound raw of
        Inl _ \<Rightarrow> [error_reply ''invalid message format'']
      | Inr inbound \<Rightarrow>
          if in_Type inbound = ''danmaku''
          then (case res of Inl err \<Rightarrow> [error_reply (error_text err)] | Inr _ \<Rightarrow> [])
          else if in_Type inbound = ''ping'' then [pong_reply]
          else [error_reply ''unsupported message type''])"

text \<open>
  C20. Reading a frame never panics and puts at most one reply into the queue of the connection
  it came from, and nothing into any other queue: an error for a frame that does not decode,
  an error with the text of what was wrong for a danmaku that could not be sent and nothing for
  one that could, a pong for a ping, and an error for any other type.
\<close>

theorem read_message_replies:
  assumes "persist_ok s" "client_open (sv_heap s p)"
  shows "\<exists>res s1 s'. Send D newID now (client_request
        (case unmarshal_inbound raw of Inr i \<Rightarrow> in_Content i | Inl _ \<Rightarrow> []) (sv_heap s p)) s = Some (res, s1) \<and>
    read_message D newID now p raw s = Some s' \<and> persist_ok s' \<and>
    (\<forall>q. send_queue (sv_heap s' q) = send_queue (sv_heap s q) @
       (if q = p \<and> 0 < send_room (sv_heap s p) then reply_for raw res else []))"
proof -
  let ?req = "client_request (case unmarshal_inbound raw of Inr i \<Rightarrow> in_Content i | Inl _ \<Rightarrow> []) (sv_heap s p)"
  obtain lerr s1 perr b where c: "checkLimit D ?req s = (lerr, s1)"
    and pub: "Publish (dep_broker D) (sent_message newID now ?req s) (sv_broker s) = (perr, b)" by fastforce
  from Send_total [OF assms(1) refl c pub] obtain res s2 where
    send: "Send D newID now ?req s = Some (res, s2)" and s2: "persist_ok s2" "sv_heap s2 = sv_heap s"
    by blast
  show ?thesis
  proof (cases "unmarshal_inbound raw")
    case (Inl e)
    with send assms reply_queue [OF assms(2)] show ?thesis
      by (simp add: read_message_def reply_for_def)
  next
    case (Inr i)
    show ?thesis
    proof (cases "in_Type i = ''danmaku''")
      case True
      have "client_open (sv_heap s2 p)" using assms(2) s2(2) by simp
      note q = reply_queue [OF this]
      show ?thesis
        using True Inr send s2 by (cases res) (simp_all add: read_message_def reply_for_def q)
    next
      case False
      with Inr send assms reply_queue [OF assms(2)] show ?thesis
        by (cases "in_Type i = ''ping''") (simp_all add: read_message_def reply_for_def)
    qed
  qed
qed

theorem read_message_replies_witness:
  "\<exists>s'. read_message demo_deps ''id-1'' 5 (Ptr 1) (marshal_inbound \<lparr>in_Type = ''ping'', in_Content = []\<rparr>)
       demo_service = Some s' \<and>
     send_queue (sv_heap s' (Ptr 1)) = [pong_reply] \<and> send_queue (sv_heap s' (Ptr 2)) = []"
proof -
  let ?raw = "marshal_inbound \<lparr>in_Type = ''ping'', in_Content = []\<rparr>"
  have sel: "sv_heap demo_service = demo_heap"
    by (simp add: persist_service_def StartPersistenceWorker_def NewMessageService_def Let_def)
  have op: "client_open (sv_heap demo_service (Ptr 1))" by (simp add: sel demo_heap_open)
  have "sanitize ''ping'' = ''ping''" by (simp add: byte_def)
  then have "reply_for ?raw res = [pong_reply]" for res
    by (simp add: reply_for_def inbound_roundtrip)
  with read_message_replies [OF persist_service_ok op, where D = demo_deps and newID = "''id-1''"
      and now = 5 and raw = ?raw]
  show ?thesis by (auto simp: sel demo_send_room)
qed

section \<open>The write loop\<close>

text \<open>
  The loop selects between the end of its context, its ticker and the send queue; the events
  are the branches taken, with the success of their write, interleaved with the messages other
  goroutines enqueue. When the loop returns it closes the client.
\<close>

datatype pump_event = PumpDone | PumpTick bool | PumpMessage bool | PumpEnqueue ws_outbound

datatype frame = CloseFrame | PingFrame | JsonFrame ws_outbound

record pump =
  pu_client :: client
  pu_frames :: "frame list"
  pu_running :: bool

definition pump_stop :: "go_error option \<Rightarrow> pump \<Rightarrow> pump" where
  "pump_stop conn_err P =
     P\<lparr>pu_client := snd (client_Close conn_err (pu_client P)), pu_running := False\<rparr>"

definition pump_write :: "go_error option \<Rightarrow> frame \<Rightarrow> bool \<Rightarrow> pump \<Rightarrow> pump" where
  "pump_write conn_err f ok P =
     (let P' = P\<lparr>pu_frames := pu_frames P @ [f]\<rparr> in if ok then P' else pump_stop conn_err P')"

definition writePump_step :: "go_error option \<Rightarrow> pump_event \<Rightarrow> pump \<Rightarrow> pump" where
  "writePump_step conn_err e P =
     (case e of
        PumpEnqueue m \<Rightarrow> P\<lparr>pu_client := snd (Enqueue m (pu_client P))\<rparr>
      | PumpDone \<Rightarrow>
          if pu_running P \<and> cl_cancelled (pu_client P)
          then pump_stop conn_err (P\<lparr>pu_frames := pu_frames P @ [CloseFrame]\<rparr>) else P
      | PumpTick ok \<Rightarrow> if pu_running P then pump_write conn_err PingFrame ok P else P
      | PumpMessage ok \<Rightarrow>
          if \<not> pu_running P then P
          else (case chan_recv (cl_send (pu_client P)) of
                  (Received m, ch) \<Rightarrow>
                    pump_write conn_err (JsonFrame m) ok
                      (P\<lparr>pu_client := (pu_client P)\<lparr>cl_send := ch\<rparr>\<rparr>)
                | (RecvClosed, ch) \<Rightarrow> pump_write conn_err (JsonFrame zero_outbound) ok P
                | (RecvBlocks, ch) \<Rightarrow> P))"

definition pump_accepts :: "pump_event \<Rightarrow> pump \<Rightarrow> ws_outbound list" where
  "pump_accepts e P =
     (case e of PumpEnqueue m \<Rightarrow> if fst (Enqueue m (pu_client P)) then [m] else [] | _ \<Rightarrow> [])"

fun writePump :: "go_error option \<Rightarrow> pump_event list \<Rightarrow> ws_outbound list \<Rightarrow> pump \<Rightarrow> pump \<times> ws_outbound list" where
  "writePump conn_err [] acc P = (P, acc)"
| "writePump conn_err (e # es) acc P =
     writePump conn_err es (acc @ pump_accepts e P) (writePump_step conn_err e P)"

definition start_pump :: "client \<Rightarrow> pump" where
  "start_pump c = \<lparr>pu_client = c, pu_frames = [], pu_running = True\<rparr>"

text \<open>\<open>time.NewTicker\<close>, with which the write loop begins, panics for a period that is not positive.\<close>

definition NewTicker :: "duration \<Rightarrow> duration option" where
  "NewTicker d = (if sint d \<le> 0 then None else Some d)"

definition writePump_begin :: "client \<Rightarrow> pump option" where
  "writePump_begin c =
     (case NewTicker (PingPeriod (cl_cfg c)) of None \<Rightarrow> None | Some period \<Rightarrow> Some (start_pump c))"

fun written :: "frame list \<Rightarrow> ws_outbound list" where
  "written [] = []"
| "written (JsonFrame m # fs) = m # written fs"
| "written (f # fs) = written fs"

lemma written_append [simp]: "written (fs @ gs) = written fs @ written gs"
  by (induction fs rule: written.induct) simp_all

text \<open>
  The invariant: what was written and what still waits are, together and in order, what was
  accepted; a loop that has returned has closed its client; a close frame is the last one.
\<close>

definition pump_inv :: "ws_outbound list \<Rightarrow> pump \<Rightarrow> bool" where
  "pump_inv acc P \<longleftrightarrow>
     client_open (pu_client P) \<and> close_ok (pu_client P) \<and>
     written (pu_frames P) @ send_queue (pu_client P) = acc \<and>
     (\<not> pu_running P \<longrightarrow> cl_once (pu_client P)) \<and>
     (pu_running P \<longrightarrow> CloseFrame \<notin> set (pu_frames P)) \<and>
     CloseFrame \<notin> set (butlast (pu_frames P))"

lemma close_client_queue:
  "send_queue (snd (client_Close e c)) = send_queue c" "client_open (snd (client_Close e c)) = client_open c"
  by (simp_all add: send_queue_def client_open_def client_Close_def)

lemma pump_inv_write:
  assumes "pump_inv acc P" "pu_running P" "f \<noteq> CloseFrame"
    and "send_queue (pu_client P) = written [f] @ q" "send_queue c' = q" "client_open c'" "close_ok c'"
  shows "pump_inv acc (pump_write e f ok (P\<lparr>pu_client := c'\<rparr>))"
  using assms
  by (auto simp: pump_inv_def pump_write_def pump_stop_def Let_def close_client_queue
      client_Close_state close_ok_Close butlast_append dest: in_set_butlastD)

lemma pump_inv_step:
  assumes inv: "pump_inv acc P"
  shows "pump_inv (acc @ pump_accepts e P) (writePump_step ce e P)"
proof (cases e)
  case PumpDone
  with inv show ?thesis
    by (auto simp: pump_inv_def writePump_step_def pump_accepts_def pump_stop_def close_client_queue
        client_Close_state close_ok_Close)
next
  case (PumpTick ok)
  show ?thesis
  proof (cases "pu_running P")
    case True
    with pump_inv_write [OF inv True, of PingFrame "send_queue (pu_client P)" "pu_client P" ce ok] inv PumpTick
    show ?thesis by (simp add: writePump_step_def pump_accepts_def pump_inv_def)
  next
    case False
    with PumpTick inv show ?thesis by (simp add: writePump_step_def pump_accepts_def)
  qed
next
  case (PumpMessage ok)
  from inv have op: "client_open (pu_client P)" by (simp add: pump_inv_def)
  show ?thesis
  proof (cases "pu_running P \<and> send_queue (pu_client P) \<noteq> []")
    case True
    then obtain m ms where q: "send_queue (pu_client P) = m # ms" by (cases "send_queue (pu_client P)") auto
    let ?c = "(pu_client P)\<lparr>cl_send := (cl_send (pu_client P))\<lparr>chan_buf := ms\<rparr>\<rparr>"
    have "pump_inv acc (pump_write ce (JsonFrame m) ok (P\<lparr>pu_client := ?c\<rparr>))"
      by (rule pump_inv_write [OF inv]) (use True q op inv in
          \<open>simp_all add: send_queue_def client_open_def chan_open_def close_ok_def pump_inv_def\<close>)
    with PumpMessage True q show ?thesis
      by (simp add: writePump_step_def pump_accepts_def chan_recv_def send_queue_def)
  next
    case False
    with PumpMessage inv op show ?thesis
      by (auto simp: writePump_step_def pump_accepts_def chan_recv_def send_queue_def client_open_def
          chan_open_def)
  qed
next
  case (PumpEnqueue m)
  with inv show ?thesis
    by (auto simp: pump_inv_def writePump_step_def pump_accepts_def Enqueue_effect close_ok_Enqueue
        client_queue.offer_ready Enqueue_other)
qed

lemma writePump_inv: "pump_inv acc P \<Longrightarrow> writePump ce es acc P = (P', acc') \<Longrightarrow> pump_inv acc' P'"
proof (induction es arbitrary: acc P)
  case (Cons e es)
  from Cons.IH [OF pump_inv_step [OF Cons.prems(1)]] Cons.prems(2) show ?case by simp
qed simp

text \<open>
  C23. The write loop sends the messages of the queue in the order they were accepted, each
  once: what it wrote and what still waits are exactly what was accepted. A close frame is
  never followed by another frame, and when the loop has returned its client is closed, its
  connection closed once and its context cancelled, so the read loop ends as well.
\<close>

theorem writePump_fifo:
  assumes "client_open c" "close_ok c" "writePump ce es (send_queue c) (start_pump c) = (P, acc)"
  shows "written (pu_frames P) @ send_queue (pu_client P) = acc \<and>
    CloseFrame \<notin> set (butlast (pu_frames P)) \<and>
    (\<not> pu_running P \<longrightarrow> cl_conn_closes (pu_client P) = 1 \<and> cl_cancelled (pu_client P))"
proof -
  have "pump_inv (send_queue c) (start_pump c)"
    using assms(1,2) by (simp add: pump_inv_def start_pump_def)
  from writePump_inv [OF this assms(3)] show ?thesis by (auto simp: pump_inv_def close_ok_def)
qed

theorem writePump_fifo_witness:
  "\<exists>P acc. writePump None [PumpEnqueue pong_reply, PumpTick True, PumpMessage False, PumpMessage True]
     [] (start_pump (demo_heap (Ptr 1))) = (P, acc) \<and>
     written (pu_frames P) @ send_queue (pu_client P) = acc \<and> acc = [pong_reply] \<and> \<not> pu_running P \<and>
     cl_conn_closes (pu_client P) = 1"
proof -
  let ?es = "[PumpEnqueue pong_reply, PumpTick True, PumpMessage False, PumpMessage True]"
  obtain P acc where w: "writePump None ?es (send_queue (demo_heap (Ptr 1))) (start_pump (demo_heap (Ptr 1))) = (P, acc)"
    by fastforce
  have "client_open (demo_heap (Ptr 1))" "close_ok (demo_heap (Ptr 1))"
    by (simp_all add: demo_heap_open) (simp add: demo_heap_def close_ok_new)
  from writePump_fifo [OF this w] have
    "written (pu_frames P) @ send_queue (pu_client P) = acc"
    "\<not> pu_running P \<longrightarrow> cl_conn_closes (pu_client P) = 1" by auto
  moreover have "\<not> pu_running P \<and> acc = [pong_reply]"
    using w by (simp add: start_pump_def writePump_step_def pump_accepts_def pump_write_def pump_stop_def
        demo_send_room Enqueue_def chan_try_send_def chan_recv_def demo_heap_def NewClient_def make_chan_def
        send_queue_def Let_def) auto
  ultimately show ?thesis using w by (auto simp: demo_send_room)
qed

end
