(* ===== verification/System.thy ===== *)
theory System
  imports Ws_Handler
begin

text \<open>
  The node as a whole: every WebSocket connection runs \<open>ServeWS\<close> in a goroutine of its own, next
  to the goroutines of the subscriptions, the write loops, the persistence worker and the
  shutdown. A state holds the service, the registry of connections and, for every connection,
  the point its \<open>ServeWS\<close> has reached; a step is what one goroutine does between two points at
  which others may run, which is one critical section or one call.
\<close>

section \<open>The points of ServeWS\<close>

datatype 'h phase =
  NoConn | Created | Registered | AcquireFailed | Subscribed | Joined | Serving | ReadEnded
| ClientClosed | Left | Releasing 'h | Released | Uncounted | Ended

text \<open>
  In which of them the connection is registered, holds a room subscription, stands in the hub,
  and is counted by the gauge of active connections.
\<close>

definition registered :: "'h phase \<Rightarrow> bool" where
  "registered x \<longleftrightarrow> (case x of NoConn \<Rightarrow> False | Created \<Rightarrow> False | Ended \<Rightarrow> False | _ \<Rightarrow> True)"

definition holds :: "'h phase \<Rightarrow> bool" where
  "holds x \<longleftrightarrow> (case x of Subscribed \<Rightarrow> True | Joined \<Rightarrow> True | Serving \<Rightarrow> True | ReadEnded \<Rightarrow> True
     | ClientClosed \<Rightarrow> True | Left \<Rightarrow> True | _ \<Rightarrow> False)"

definition in_hub :: "'h phase \<Rightarrow> bool" where
  "in_hub x \<longleftrightarrow> (case x of Joined \<Rightarrow> True | Serving \<Rightarrow> True | ReadEnded \<Rightarrow> True | ClientClosed \<Rightarrow> True
     | _ \<Rightarrow> False)"

definition counted :: "'h phase \<Rightarrow> bool" where
  "counted x \<longleftrightarrow> (case x of Serving \<Rightarrow> True | ReadEnded \<Rightarrow> True | ClientClosed \<Rightarrow> True | Left \<Rightarrow> True
     | Releasing _ \<Rightarrow> True | Released \<Rightarrow> True | _ \<Rightarrow> False)"

fun releasing :: "'h phase \<Rightarrow> 'h option" where
  "releasing (Releasing h) = Some h"
| "releasing _ = None"

lemma phase_simps [simp]:
  "\<not> registered NoConn" "\<not> registered Created" "registered Registered" "registered AcquireFailed"
  "registered Subscribed" "registered Joined" "registered Serving" "registered ReadEnded"
  "registered ClientClosed" "registered Left" "registered (Releasing h)" "registered Released"
  "registered Uncounted" "\<not> registered Ended"
  "\<not> holds NoConn" "\<not> holds Created" "\<not> holds Registered" "\<not> holds AcquireFailed"
  "holds Subscribed" "holds Joined" "holds Serving" "holds ReadEnded" "holds ClientClosed"
  "holds Left" "\<not> holds (Releasing h)" "\<not> holds Released" "\<not> holds Uncounted" "\<not> holds Ended"
  "\<not> in_hub NoConn" "\<not> in_hub Created" "\<not> in_hub Registered" "\<not> in_hub AcquireFailed"
  "\<not> in_hub Subscribed" "in_hub Joined" "in_hub Serving" "in_hub ReadEnded" "in_hub ClientClosed"
  "\<not> in_hub Left" "\<not> in_hub (Releasing h)" "\<not> in_hub Released" "\<not> in_hub Uncounted" "\<not> in_hub Ended"
  "\<not> counted NoConn" "\<not> counted Created" "\<not> counted Registered" "\<not> counted AcquireFailed"
  "\<not> counted Subscribed" "\<not> counted Joined" "counted Serving" "counted ReadEnded"
  "counted ClientClosed" "counted Left" "counted (Releasing h)" "counted Released"
  "\<not> counted Uncounted" "\<not> counted Ended"
  by (simp_all add: registered_def holds_def in_hub_def counted_def)

section \<open>Steps\<close>

record ('b, 'h, 'l, 'r) system =
  sy_srv :: "('b, 'h, 'l, 'r) service"
  sy_ws :: handler
  sy_phase :: "ptr \<Rightarrow> 'h phase"

definition heap_upd :: "ptr \<Rightarrow> client \<Rightarrow> ('b, 'h, 'l, 'r) service \<Rightarrow> ('b, 'h, 'l, 'r) service" where
  "heap_upd p c s = s\<lparr>sv_heap := (sv_heap s)(p := c)\<rparr>"

definition goto ::
    "ptr \<Rightarrow> 'h phase \<Rightarrow> ('b, 'h, 'l, 'r) service \<Rightarrow> ('b, 'h, 'l, 'r) system \<Rightarrow> ('b, 'h, 'l, 'r) system" where
  "goto p x s S = S\<lparr>sy_srv := s, sy_phase := (sy_phase S)(p := x)\<rparr>"

text \<open>The steps of a connection through \<open>ServeWS\<close>; a connection is a newly allocated client.\<close>

inductive serve_step ::
    "('b, 'h, 'l, 'r) deps \<Rightarrow> ptr \<Rightarrow> ('b, 'h, 'l, 'r) system \<Rightarrow> ('b, 'h, 'l, 'r) system \<Rightarrow> bool"
  for D p where
  connect: "sy_phase S p = NoConn \<Longrightarrow>
    serve_step D p S (goto p Created (heap_upd p (NewClient user room ip cfg) (sy_srv S)) S)"
| register: "sy_phase S p = Created \<Longrightarrow> registerClient p (sy_ws S) = (True, ws) \<Longrightarrow>
    serve_step D p S (goto p Registered (sy_srv S) (S\<lparr>sy_ws := ws\<rparr>))"
| refused: "sy_phase S p = Created \<Longrightarrow> registerClient p (sy_ws S) = (False, ws) \<Longrightarrow>
    serve_step D p S (goto p Ended
      (heap_upd p (snd (client_Close ce (sv_heap (sy_srv S) p))) (sy_srv S)) S)"
| acquires: "sy_phase S p = Registered \<Longrightarrow>
    AcquireRoomSubscription D (cl_RoomID (sv_heap (sy_srv S) p)) (sy_srv S) = (None, s) \<Longrightarrow>
    serve_step D p S (goto p Subscribed s S)"
| acquire_error: "sy_phase S p = Registered \<Longrightarrow>
    AcquireRoomSubscription D (cl_RoomID (sv_heap (sy_srv S) p)) (sy_srv S) = (Some e, s) \<Longrightarrow>
    serve_step D p S (goto p AcquireFailed s S)"
| aborts: "sy_phase S p = AcquireFailed \<Longrightarrow>
    serve_step D p S (goto p Uncounted
      (heap_upd p (snd (client_Close ce (sv_heap (sy_srv S) p))) (sy_srv S)) S)"
| joins: "sy_phase S p = Subscribed \<Longrightarrow>
    serve_step D p S (goto p Joined
      ((sy_srv S)\<lparr>sv_hub := snd (Join (sv_heap (sy_srv S)) p (sv_hub (sy_srv S)))\<rparr>) S)"
| counts: "sy_phase S p = Joined \<Longrightarrow>
    serve_step D p S (goto p Serving (with_metrics IncWSConnection (sy_srv S)) S)"
| reads: "sy_phase S p = Serving \<Longrightarrow> read_message D newID now p raw (sy_srv S) = Some s \<Longrightarrow>
    serve_step D p S (goto p Serving s S)"
| read_ends: "sy_phase S p = Serving \<Longrightarrow> serve_step D p S (goto p ReadEnded (sy_srv S) S)"
| closes: "sy_phase S p = ReadEnded \<Longrightarrow>
    serve_step D p S (goto p ClientClosed
      (heap_upd p (snd (client_Close ce (sv_heap (sy_srv S) p))) (sy_srv S)) S)"
| leaves: "sy_phase S p = ClientClosed \<Longrightarrow>
    serve_step D p S (goto p Left
      ((sy_srv S)\<lparr>sv_hub := snd (Leave (sv_heap (sy_srv S)) p (sv_hub (sy_srv S)))\<rparr>) S)"
| releases: "sy_phase S p = Left \<Longrightarrow>
    release_begin (cl_RoomID (sv_heap (sy_srv S) p)) (sy_srv S) = (u, s) \<Longrightarrow>
    serve_step D p S (goto p (case u of None \<Rightarrow> Released | Some h \<Rightarrow> Releasing h) s S)"
| unsubscribes_room: "sy_phase S p = Releasing h \<Longrightarrow> release_finish D h (sy_srv S) = (err, s) \<Longrightarrow>
    serve_step D p S (goto p Released s S)"
| uncounts: "sy_phase S p = Released \<Longrightarrow>
    serve_step D p S (goto p Uncounted (with_metrics DecWSConnection (sy_srv S)) S)"
| unregisters: "sy_phase S p = Uncounted \<Longrightarrow>
    serve_step D p S (goto p Ended (sy_srv S) (S\<lparr>sy_ws := unregisterClient p (sy_ws S)\<rparr>))"

text \<open>
  The other goroutines: a subscription handles a message, a write loop takes a message from a
  queue, a client is closed (by its write loop or by the shutdown), the worker runs, and the
  shutdown begins.
\<close>

inductive other_step ::
    "('b, 'h, 'l, 'r) deps \<Rightarrow> ('b, 'h, 'l, 'r) system \<Rightarrow> ('b, 'h, 'l, 'r) system \<Rightarrow> bool"
  for D where
  broadcasts: "other_step D S (S\<lparr>sy_srv := handle_broadcast order r m n (sy_srv S)\<rparr>)"
| writes: "chan_recv (cl_send (sv_heap (sy_srv S) p)) = (res, ch) \<Longrightarrow>
    other_step D S (S\<lparr>sy_srv := heap_upd p ((sv_heap (sy_srv S) p)\<lparr>cl_send := ch\<rparr>) (sy_srv S)\<rparr>)"
| closed_by_other:
    "other_step D S (S\<lparr>sy_srv := heap_upd p (snd (client_Close ce (sv_heap (sy_srv S) p))) (sy_srv S)\<rparr>)"
| ticks: "other_step D S (S\<lparr>sy_srv := worker_tick D (sy_srv S)\<rparr>)"
| receives: "other_step D S (S\<lparr>sy_srv := worker_receive D (sy_srv S)\<rparr>)"
| shuts_down: "other_step D S (S\<lparr>sy_ws := snd (shutdown_begin order (sy_ws S))\<rparr>)"

definition initial :: "('b, 'h, 'l, 'r) service \<Rightarrow> ('b, 'h, 'l, 'r) system" where
  "initial s = \<lparr>sy_srv = s, sy_ws = NewHandler, sy_phase = (\<lambda>_. NoConn)\<rparr>"

inductive system_reach ::
    "('b, 'h, 'l, 'r) deps \<Rightarrow> ('b, 'h, 'l, 'r) service \<Rightarrow> ('b, 'h, 'l, 'r) system \<Rightarrow> bool"
  for D s0 where
  reach_init: "system_reach D s0 (initial s0)"
| reach_serve: "system_reach D s0 S \<Longrightarrow> serve_step D p S S' \<Longrightarrow> system_reach D s0 S'"
| reach_other: "system_reach D s0 S \<Longrightarrow> other_step D S S' \<Longrightarrow> system_reach D s0 S'"

section \<open>The invariant\<close>

definition conns :: "('h phase \<Rightarrow> bool) \<Rightarrow> ('b, 'h, 'l, 'r) system \<Rightarrow> ptr set" where
  "conns P S = {p. P (sy_phase S p)}"

definition room_of :: "('b, 'h, 'l, 'r) system \<Rightarrow> ptr \<Rightarrow> string" where
  "room_of S p = cl_RoomID (sv_heap (sy_srv S) p)"

definition holders :: "('b, 'h, 'l, 'r) system \<Rightarrow> string multiset" where
  "holders S = image_mset (room_of S) (mset_set (conns holds S))"

definition pending :: "('b, 'h, 'l, 'r) system \<Rightarrow> 'h multiset" where
  "pending S = image_mset (\<lambda>p. the (releasing (sy_phase S p)))
     (mset_set (conns (\<lambda>x. releasing x \<noteq> None) S))"

text \<open>
  Four parts: the started connections are finitely many and the persistence is well-formed; the
  hub holds the connections that are between joining and leaving; the table of subscriptions
  and the broker fit the holders; the registry holds the connections that are registered, and
  the gauge counts those that are counted.
\<close>

definition base_inv :: "('b, 'h, 'l, 'r) system \<Rightarrow> bool" where
  "base_inv S \<longleftrightarrow> finite (conns (\<lambda>x. x \<noteq> NoConn) S) \<and> persist_ok (sy_srv S)"

definition hub_inv :: "('b, 'h, 'l, 'r) system \<Rightarrow> bool" where
  "hub_inv S \<longleftrightarrow>
     hub_ok (sv_heap (sy_srv S)) (sv_hub (sy_srv S)) \<and> joined (sv_hub (sy_srv S)) = conns in_hub S"

definition room_inv ::
    "('b \<Rightarrow> 'h \<rightharpoonup> string) \<Rightarrow> ('b \<Rightarrow> bool) \<Rightarrow> ('b, 'h, 'l, 'r) system \<Rightarrow> bool" where
  "room_inv live broker_ok S \<longleftrightarrow> subs_inv live broker_ok (sy_srv S, holders S, pending S)"

definition registry_inv :: "('b, 'h, 'l, 'r) system \<Rightarrow> bool" where
  "registry_inv S \<longleftrightarrow>
     handler_ok (sy_ws S) \<and> ws_clients (sy_ws S) = conns registered S \<and>
     (\<forall>m. sv_metrics (sy_srv S) = Some m \<longrightarrow>
        wsConnectionsActive m = of_nat (card (conns counted S)))"

section \<open>What a step does to the sets of connections\<close>

lemma conns_goto:
  "conns P (goto p x s S) = (if P x then insert p (conns P S) else conns P S - {p})"
  by (auto simp: conns_def goto_def)

lemma conns_frame [simp]:
  "conns P (S\<lparr>sy_srv := s\<rparr>) = conns P S" "conns P (S\<lparr>sy_ws := w\<rparr>) = conns P S"
  by (simp_all add: conns_def)

lemma goto_sel [simp]:
  "sy_srv (goto p x s S) = s" "sy_ws (goto p x s S) = sy_ws S"
  "sy_phase (goto p x s S) = (sy_phase S)(p := x)"
  by (simp_all add: goto_def)

lemma in_conns [simp]: "q \<in> conns P S \<longleftrightarrow> P (sy_phase S q)"
  by (simp add: conns_def)

lemma conns_finite:
  assumes "finite (conns (\<lambda>x. x \<noteq> NoConn) S)" "\<not> P NoConn"
  shows "finite (conns P S)"
  by (rule finite_subset [OF _ assms(1)]) (use assms(2) in \<open>auto simp: conns_def\<close>)

lemma mset_set_insert_image:
  assumes "finite A" "p \<notin> A" "\<And>q. q \<in> A \<Longrightarrow> g q = f q"
  shows "image_mset g (mset_set (insert p A)) = add_mset (g p) (image_mset f (mset_set A))"
proof -
  have "image_mset g (mset_set A) = image_mset f (mset_set A)"
    by (rule image_mset_cong) (use assms in auto)
  with assms(1,2) show ?thesis by simp
qed

lemma mset_set_remove_image:
  assumes "finite A" "p \<in> A" "\<And>q. q \<in> A \<Longrightarrow> q \<noteq> p \<Longrightarrow> g q = f q"
  shows "image_mset g (mset_set (A - {p})) = image_mset f (mset_set A) - {#f p#}"
proof -
  have "image_mset g (mset_set (A - {p})) = image_mset f (mset_set (A - {p}))"
    by (rule image_mset_cong) (use assms in auto)
  also have "\<dots> = image_mset f (mset_set A) - {#f p#}"
    using mset_set.remove [OF assms(1,2)] by simp
  finally show ?thesis .
qed

definition same_rooms :: "ptr set \<Rightarrow> client_heap \<Rightarrow> client_heap \<Rightarrow> bool" where
  "same_rooms A H H' \<longleftrightarrow> (\<forall>p \<in> A. cl_RoomID (H' p) = cl_RoomID (H p))"

lemma holders_goto:
  assumes fin: "finite (conns holds S)"
    and rooms: "same_rooms (conns holds S) (sv_heap (sy_srv S)) (sv_heap s)"
  shows "\<not> holds (sy_phase S p) \<Longrightarrow> \<not> holds x \<Longrightarrow> holders (goto p x s S) = holders S"
    "holds (sy_phase S p) \<Longrightarrow> holds x \<Longrightarrow> holders (goto p x s S) = holders S"
    "\<not> holds (sy_phase S p) \<Longrightarrow> holds x \<Longrightarrow>
      holders (goto p x s S) = add_mset (cl_RoomID (sv_heap s p)) (holders S)"
    "holds (sy_phase S p) \<Longrightarrow> \<not> holds x \<Longrightarrow>
      holders (goto p x s S) = holders S - {#cl_RoomID (sv_heap (sy_srv S) p)#}"
proof -
  let ?g = "\<lambda>q. cl_RoomID (sv_heap s q)"
  have same: "?g q = room_of S q" if "q \<in> conns holds S" for q
    using that rooms by (simp add: same_rooms_def room_of_def)
  have room: "room_of (goto p x s S) = ?g" by (simp add: room_of_def fun_eq_iff)
  have keep: "image_mset ?g (mset_set (conns holds S)) = holders S"
    unfolding holders_def by (rule image_mset_cong) (use fin same in auto)
  have case_off: "holds x \<Longrightarrow> \<not> holds (sy_phase S p) \<Longrightarrow>
      image_mset ?g (mset_set (insert p (conns holds S))) = add_mset (?g p) (holders S)"
    unfolding holders_def by (rule mset_set_insert_image) (use fin same in auto)
  have case_on: "holds (sy_phase S p) \<Longrightarrow>
      image_mset ?g (mset_set (conns holds S - {p})) = holders S - {#room_of S p#}"
    unfolding holders_def by (rule mset_set_remove_image) (use fin same in auto)
  show "\<not> holds (sy_phase S p) \<Longrightarrow> \<not> holds x \<Longrightarrow> holders (goto p x s S) = holders S"
    using keep by (simp add: holders_def room conns_goto)
  show "holds (sy_phase S p) \<Longrightarrow> holds x \<Longrightarrow> holders (goto p x s S) = holders S"
    using keep by (simp add: holders_def room conns_goto insert_absorb)
  show "\<not> holds (sy_phase S p) \<Longrightarrow> holds x \<Longrightarrow>
      holders (goto p x s S) = add_mset (cl_RoomID (sv_heap s p)) (holders S)"
    using case_off by (simp add: holders_def [of "goto p x s S"] room conns_goto)
  show "holds (sy_phase S p) \<Longrightarrow> \<not> holds x \<Longrightarrow>
      holders (goto p x s S) = holders S - {#cl_RoomID (sv_heap (sy_srv S) p)#}"
    using case_on by (simp add: holders_def [of "goto p x s S"] room conns_goto room_of_def)
qed

lemma pending_goto:
  assumes fin: "finite (conns (\<lambda>x. releasing x \<noteq> None) S)"
  shows "releasing (sy_phase S p) = None \<Longrightarrow> releasing x = None \<Longrightarrow> pending (goto p x s S) = pending S"
    "releasing (sy_phase S p) = None \<Longrightarrow> releasing x = Some h \<Longrightarrow>
      pending (goto p x s S) = add_mset h (pending S)"
    "releasing (sy_phase S p) = Some h \<Longrightarrow> releasing x = None \<Longrightarrow>
      pending (goto p x s S) = pending S - {#h#}"
proof -
  let ?A = "conns (\<lambda>x. releasing x \<noteq> None) S"
  let ?f = "\<lambda>q. the (releasing (sy_phase S q))" and ?g = "\<lambda>q. the (releasing (((sy_phase S)(p := x)) q))"
  show "releasing (sy_phase S p) = None \<Longrightarrow> releasing x = None \<Longrightarrow> pending (goto p x s S) = pending S"
  proof -
    assume n: "releasing (sy_phase S p) = None" "releasing x = None"
    then have "image_mset ?g (mset_set ?A) = image_mset ?f (mset_set ?A)"
      by (intro image_mset_cong) (use fin in auto)
    with n show "pending (goto p x s S) = pending S" by (simp add: pending_def conns_goto)
  qed
  show "releasing (sy_phase S p) = None \<Longrightarrow> releasing x = Some h \<Longrightarrow>
      pending (goto p x s S) = add_mset h (pending S)"
  proof -
    assume n: "releasing (sy_phase S p) = None" "releasing x = Some h"
    have "image_mset ?g (mset_set (insert p ?A)) = add_mset (?g p) (image_mset ?f (mset_set ?A))"
      by (rule mset_set_insert_image) (use fin n in auto)
    with n show "pending (goto p x s S) = add_mset h (pending S)"
      by (simp add: pending_def conns_goto)
  qed
  show "releasing (sy_phase S p) = Some h \<Longrightarrow> releasing x = None \<Longrightarrow>
      pending (goto p x s S) = pending S - {#h#}"
  proof -
    assume n: "releasing (sy_phase S p) = Some h" "releasing x = None"
    have "image_mset ?g (mset_set (?A - {p})) = image_mset ?f (mset_set ?A) - {#?f p#}"
      by (rule mset_set_remove_image) (use fin n in auto)
    with n show "pending (goto p x s S) = pending S - {#h#}"
      by (simp add: pending_def conns_goto)
  qed
qed

section \<open>Steps that leave the sets alone\<close>

definition gauge :: "('b, 'h, 'l, 'r) service \<Rightarrow> int64 option" where
  "gauge s = map_option wsConnectionsActive (sv_metrics s)"

text \<open>
  A calm change keeps the hub, the table, the live subscriptions, the rooms of the clients, the
  gauge and the well-formedness of the persistence.
\<close>

definition calm ::
    "('b \<Rightarrow> 'h \<rightharpoonup> string) \<Rightarrow> ('b \<Rightarrow> bool) \<Rightarrow> ('b, 'h, 'l, 'r) service \<Rightarrow> ('b, 'h, 'l, 'r) service \<Rightarrow> bool" where
  "calm live broker_ok s s' \<longleftrightarrow>
     sv_hub s' = sv_hub s \<and> sv_subscriptions s' = sv_subscriptions s \<and>
     (broker_ok (sv_broker s) \<longrightarrow> broker_ok (sv_broker s') \<and> live (sv_broker s') = live (sv_broker s)) \<and>
     (\<forall>p. cl_RoomID (sv_heap s' p) = cl_RoomID (sv_heap s p)) \<and> gauge s' = gauge s \<and>
     (persist_ok s \<longrightarrow> persist_ok s')"

lemma calm_refl: "calm live bok s s"
  by (simp add: calm_def)

lemma persist_ok_heap [go_frame]: "persist_ok (s\<lparr>sv_heap := H\<rparr>) = persist_ok s"
  by (simp add: persist_ok_def split: worker.split)

lemma calm_heap_upd:
  "cl_RoomID c = cl_RoomID (sv_heap s p) \<Longrightarrow> calm live bok s (heap_upd p c s)"
  by (simp add: calm_def heap_upd_def gauge_def go_frame)

lemma gauge_keeps [simp]:
  "wsConnectionsActive (AddMessageBroadcastDrop n m) = wsConnectionsActive m"
  "wsConnectionsActive (AddMessageBroadcast n m) = wsConnectionsActive m"
  "wsConnectionsActive (IncMessageAccepted m) = wsConnectionsActive m"
  "wsConnectionsActive (IncMessagePublished m) = wsConnectionsActive m"
  "wsConnectionsActive (IncMessageInvalid m) = wsConnectionsActive m"
  "wsConnectionsActive (IncMessageRateLimited scope m) = wsConnectionsActive m"
  "wsConnectionsActive (IncPersistQueued m) = wsConnectionsActive m"
  "wsConnectionsActive (IncPersistDropped m) = wsConnectionsActive m"
  "wsConnectionsActive (IncPersistFailed m) = wsConnectionsActive m"
  by (simp_all add: metrics_defs Let_def)

lemma gauge_with_metrics:
  "(\<And>m. wsConnectionsActive (f m) = wsConnectionsActive m) \<Longrightarrow> gauge (with_metrics f s) = gauge s"
  by (simp add: gauge_def option.map_comp comp_def)

lemma gauge_upd [simp]:
  "gauge (s\<lparr>sv_limiter := l\<rparr>) = gauge s" "gauge (s\<lparr>sv_broker := b\<rparr>) = gauge s"
  "gauge (s\<lparr>sv_persistCh := c\<rparr>) = gauge s" "gauge (s\<lparr>sv_heap := H\<rparr>) = gauge s"
  "gauge (s\<lparr>sv_worker := w\<rparr>) = gauge s" "gauge (s\<lparr>sv_repo := r\<rparr>) = gauge s"
  "gauge (s\<lparr>sv_hub := h\<rparr>) = gauge s" "gauge (s\<lparr>sv_subscriptions := x\<rparr>) = gauge s"
  by (simp_all add: gauge_def)

lemma enqueue_each_rooms: "cl_RoomID (snd (enqueue_each msg ps n H) p) = cl_RoomID (H p)"
  by (induction ps arbitrary: n H) (auto simp: case_prod_beta Enqueue_other)

lemma calm_broadcast: "calm live bok s (handle_broadcast order r m n s)"
proof -
  have "cl_RoomID (snd (BroadcastLocal order r (outbound_of m) (sv_hub s) (sv_heap s)) p) =
    cl_RoomID (sv_heap s p)" for p
    by (simp add: BroadcastLocal_def enqueue_each_rooms split: option.split)
  then show ?thesis
    by (simp add: calm_def handle_broadcast_def case_prod_beta gauge_with_metrics go_frame)
qed

lemma gauge_flush: "gauge (flush D s) = gauge s"
  by (auto simp: flush_def Let_def gauge_with_metrics split: worker.split prod.split)

lemma gauge_receive: "gauge (worker_receive D s) = gauge s"
  by (auto simp: worker_receive_def Let_def gauge_flush split: worker.split prod.split recv_outcome.split)

lemma calm_worker: "calm live bok s (worker_tick D s)" "calm live bok s (worker_receive D s)"
  by (simp_all add: calm_def worker_tick_def gauge_flush gauge_receive persist_ok_flush persist_ok_receive)

lemma gauge_enqueue: "enqueuePersistence d s = Some s' \<Longrightarrow> gauge s' = gauge s"
  by (auto simp: enqueuePersistence_def gauge_with_metrics split: if_splits prod.splits send_outcome.splits)

lemma gauge_Send:
  assumes "Send D newID now req s = Some (res, s')"
  shows "gauge s' = gauge s"
proof -
  obtain lerr s1 perr b where c: "checkLimit D req s = (lerr, s1)"
    and p: "Publish (dep_broker D) (sent_message newID now req s) (sv_broker s) = (perr, b)" by fastforce
  obtain l where s1: "s1 = s\<lparr>sv_limiter := l\<rparr>" using checkLimit_frame [OF c] by blast
  show ?thesis
  proof (cases "valid_content req")
    case False
    with Send_invalid [of req D newID now s] assms show ?thesis
      by (auto simp: valid_content_def not_le gauge_with_metrics)
  next
    case True
    then have v: "TrimSpace (req_Content req) \<noteq> []" "length (TrimSpace (req_Content req)) \<le> 200"
      by (simp_all add: valid_content_def)
    show ?thesis
    proof (cases lerr)
      case (Some e)
      with Send_limited [OF v, of D s e s1 newID now] c assms s1 show ?thesis
        by (auto simp: gauge_with_metrics split: option.splits)
    next
      case None
      let ?s3 = "with_metrics IncMessagePublished ((with_metrics IncMessageAccepted s1)\<lparr>sv_broker := b\<rparr>)"
      have "gauge ?s3 = gauge s" by (simp add: gauge_with_metrics s1)
      moreover note Send_admitted [OF v c [unfolded None] p]
      ultimately show ?thesis
        using assms gauge_enqueue [of _ ?s3] s1
        by (cases perr) (auto simp: gauge_with_metrics map_option_eq_Some dest: sym)
    qed
  qed
qed

context broker_iface
begin

lemma calm_Send:
  assumes "dep_broker D = B" "persist_ok s" "Send D newID now req s = Some (res, s')"
  shows "calm live broker_ok s s'"
proof -
  obtain lerr s1 perr b where c: "checkLimit D req s = (lerr, s1)"
    and p: "Publish (dep_broker D) (sent_message newID now req s) (sv_broker s) = (perr, b)" by fastforce
  have pl: "broker_ok (sv_broker s) \<Longrightarrow> live b = live (sv_broker s) \<and> broker_ok b"
    using publish_live p assms(1) by blast
  from Send_total [OF assms(2) refl c p] assms(3) have
    "persist_ok s'" "sv_subscriptions s' = sv_subscriptions s" "sv_hub s' = sv_hub s" "sv_heap s' = sv_heap s"
    "sv_broker s' = (if valid_content req \<and> lerr = None then b else sv_broker s)" by auto
  with pl gauge_Send [OF assms(3)] show ?thesis by (simp add: calm_def)
qed

lemma calm_reply: "calm live broker_ok s s' \<Longrightarrow> calm live broker_ok s (reply p m s')"
  by (simp add: calm_def reply_def gauge_def Enqueue_other go_frame)

lemma calm_read:
  assumes "dep_broker D = B" "persist_ok s" "read_message D newID now p raw s = Some s'"
  shows "calm live broker_ok s s'"
  using assms(3)
  by (auto simp: read_message_def calm_refl intro!: calm_reply intro: calm_Send [OF assms(1,2)]
      split: sum.splits if_splits option.splits)

end

section \<open>The invariant is kept\<close>

definition system_inv ::
    "('b \<Rightarrow> 'h \<rightharpoonup> string) \<Rightarrow> ('b \<Rightarrow> bool) \<Rightarrow> ('b, 'h, 'l, 'r) system \<Rightarrow> bool" where
  "system_inv live broker_ok S \<longleftrightarrow>
     base_inv S \<and> hub_inv S \<and> room_inv live broker_ok S \<and> registry_inv S"

lemma gauge_inv:
  "(\<forall>m. sv_metrics s = Some m \<longrightarrow> wsConnectionsActive m = x) \<longleftrightarrow> gauge s \<in> {None, Some x}"
  by (cases "sv_metrics s") (auto simp: gauge_def)

lemma hub_ok_rooms:
  assumes "hub_ok H h" "same_rooms (joined h) H H'"
  shows "hub_ok H' h"
  using assms unfolding hub_ok_def same_rooms_def joined_def members_def
  by (auto split: option.splits)

lemma base_goto:
  assumes "base_inv S" "persist_ok s"
  shows "base_inv (goto p x s S)"
  using assms by (simp add: base_inv_def conns_goto)

lemma base_conns_finite: "base_inv S \<Longrightarrow> \<not> P NoConn \<Longrightarrow> finite (conns P S)"
  by (simp add: base_inv_def conns_finite)

lemma same_rooms_calm: "calm live bok s s' \<Longrightarrow> same_rooms A (sv_heap s) (sv_heap s')"
  by (simp add: calm_def same_rooms_def)

text \<open>A connection that moves without entering or leaving the sets, by a calm change.\<close>

lemma calm_step_inv:
  assumes inv: "system_inv live bok S" and calm: "calm live bok (sy_srv S) s"
    and same: "holds x = holds (sy_phase S p)" "in_hub x = in_hub (sy_phase S p)"
      "registered x = registered (sy_phase S p)" "counted x = counted (sy_phase S p)"
      "releasing x = None" "releasing (sy_phase S p) = None"
  shows "system_inv live bok (goto p x s S)"
proof -
  from inv have base: "base_inv S" by (simp add: system_inv_def)
  note rooms = same_rooms_calm [OF calm]
  have c: "conns P (goto p x s S) = conns P S" if "P x = P (sy_phase S p)" for P
    using that by (auto simp: conns_goto)
  have h: "holders (goto p x s S) = holders S"
    using holders_goto(1,2) [OF base_conns_finite [OF base] rooms] same(1) by (cases "holds x") auto
  have q: "pending (goto p x s S) = pending S"
    by (rule pending_goto(1) [OF base_conns_finite [OF base]]) (use same in auto)
  have "base_inv (goto p x s S)"
    by (rule base_goto [OF base]) (use calm base in \<open>simp add: calm_def base_inv_def\<close>)
  moreover have "hub_inv (goto p x s S)"
    using inv calm hub_ok_rooms [OF _ rooms] c [of in_hub] same(2)
    by (auto simp: system_inv_def hub_inv_def calm_def)
  moreover have "room_inv live bok (goto p x s S)"
    using inv calm by (simp add: system_inv_def room_inv_def h q subs_inv_def calm_def)
  moreover have "registry_inv (goto p x s S)"
    using inv calm c [of registered] c [of counted] same(3,4)
    by (simp add: system_inv_def registry_inv_def gauge_inv calm_def)
  ultimately show ?thesis by (simp add: system_inv_def)
qed

lemma calm_other_inv:
  assumes inv: "system_inv live bok S" and calm: "calm live bok (sy_srv S) s"
  shows "system_inv live bok (S\<lparr>sy_srv := s\<rparr>)"
proof -
  have "room_of (S\<lparr>sy_srv := s\<rparr>) = room_of S" using calm by (simp add: room_of_def calm_def fun_eq_iff)
  then have "holders (S\<lparr>sy_srv := s\<rparr>) = holders S" "pending (S\<lparr>sy_srv := s\<rparr>) = pending S"
    by (simp_all add: holders_def pending_def)
  then show ?thesis
    using inv calm hub_ok_rooms [OF _ same_rooms_calm [OF calm]]
    by (auto simp: system_inv_def base_inv_def hub_inv_def room_inv_def registry_inv_def subs_inv_def
        calm_def gauge_inv)
qed

text \<open>The parts of the invariant a step does not touch.\<close>

lemma hub_inv_goto:
  assumes "hub_inv S" "in_hub x = in_hub (sy_phase S p)" "sv_hub s = sv_hub (sy_srv S)"
    and "same_rooms (conns in_hub S) (sv_heap (sy_srv S)) (sv_heap s)"
  shows "hub_inv (goto p x s (S\<lparr>sy_ws := w\<rparr>))"
proof -
  have "conns in_hub (goto p x s (S\<lparr>sy_ws := w\<rparr>)) = conns in_hub S"
    using assms(2) by (auto simp: conns_goto)
  with assms show ?thesis using hub_ok_rooms [of "sv_heap (sy_srv S)" "sv_hub (sy_srv S)"]
    by (simp add: hub_inv_def)
qed

lemma registry_inv_goto:
  assumes "registry_inv S" "registered x = registered (sy_phase S p)"
    and "counted x = counted (sy_phase S p)" "gauge s = gauge (sy_srv S)"
  shows "registry_inv (goto p x s S)"
proof -
  have "conns registered (goto p x s S) = conns registered S" "conns counted (goto p x s S) = conns counted S"
    using assms(2,3) by (auto simp: conns_goto)
  with assms show ?thesis by (simp add: registry_inv_def gauge_inv)
qed

lemma room_inv_goto:
  assumes "base_inv S" "room_inv live bok S" "holds x = holds (sy_phase S p)"
    and "releasing x = None" "releasing (sy_phase S p) = None"
    and "sv_subscriptions s = sv_subscriptions (sy_srv S)" "sv_broker s = sv_broker (sy_srv S)"
    and rooms: "same_rooms (conns holds S) (sv_heap (sy_srv S)) (sv_heap s)"
  shows "room_inv live bok (goto p x s (S\<lparr>sy_ws := w\<rparr>))"
proof -
  have fin: "finite (conns holds S)" "finite (conns (\<lambda>x. releasing x \<noteq> None) S)"
    by (rule base_conns_finite [OF assms(1)]; simp)+
  have "holders (goto p x s S) = holders S"
    using holders_goto(1,2) [OF fin(1) rooms] assms(3) by (cases "holds x") auto
  moreover have "pending (goto p x s S) = pending S" by (rule pending_goto(1) [OF fin(2) assms(5,4)])
  moreover have "holders (goto p x s (S\<lparr>sy_ws := w\<rparr>)) = holders (goto p x s S)"
    "pending (goto p x s (S\<lparr>sy_ws := w\<rparr>)) = pending (goto p x s S)"
    by (simp_all add: holders_def pending_def room_of_def [abs_def] conns_def)
  ultimately show ?thesis using assms(2,6,7) by (simp add: room_inv_def subs_inv_def)
qed

lemma same_rooms_refl: "same_rooms A H H"
  by (simp add: same_rooms_def)

lemma sys_ws_id [simp]: "S\<lparr>sy_ws := sy_ws S\<rparr> = (S :: ('b, 'h, 'l, 'r) system)"
  by simp

lemma system_invD:
  assumes "system_inv live bok S"
  shows "base_inv S" "hub_inv S" "room_inv live bok S" "registry_inv S"
    "finite (conns holds S)" "finite (conns in_hub S)" "finite (conns registered S)"
    "finite (conns counted S)" "finite (conns (\<lambda>x. releasing x \<noteq> None) S)" "persist_ok (sy_srv S)"
  using assms base_conns_finite [of S] by (auto simp: system_inv_def base_inv_def)

lemma inv_connect:
  assumes inv: "system_inv live bok S" and ph: "sy_phase S p = NoConn"
  shows "system_inv live bok (goto p Created (heap_upd p c (sy_srv S)) S)"
proof -
  note I = system_invD [OF inv]
  have rooms: "same_rooms (conns holds S) (sv_heap (sy_srv S)) (sv_heap (heap_upd p c (sy_srv S)))"
    "same_rooms (conns in_hub S) (sv_heap (sy_srv S)) (sv_heap (heap_upd p c (sy_srv S)))"
    using ph by (auto simp: same_rooms_def heap_upd_def)
  show ?thesis
    unfolding system_inv_def
  proof (intro conjI)
    show "base_inv (goto p Created (heap_upd p c (sy_srv S)) S)"
      by (rule base_goto [OF I(1)]) (use I(10) in \<open>simp add: heap_upd_def go_frame\<close>)
    show "hub_inv (goto p Created (heap_upd p c (sy_srv S)) S)"
      using hub_inv_goto [OF I(2), of Created p "heap_upd p c (sy_srv S)" "sy_ws S"] rooms(2) ph
      by (simp add: heap_upd_def)
    show "room_inv live bok (goto p Created (heap_upd p c (sy_srv S)) S)"
      using room_inv_goto [OF I(1,3), of Created p "heap_upd p c (sy_srv S)" "sy_ws S"] rooms(1) ph
      by (simp add: heap_upd_def)
    show "registry_inv (goto p Created (heap_upd p c (sy_srv S)) S)"
      by (rule registry_inv_goto [OF I(4)]) (use ph in \<open>simp_all add: heap_upd_def\<close>)
  qed
qed

lemma inv_register:
  assumes inv: "system_inv live bok S" and ph: "sy_phase S p = Created"
    and reg: "registerClient p (sy_ws S) = (True, ws)"
  shows "system_inv live bok (goto p Registered (sy_srv S) (S\<lparr>sy_ws := ws\<rparr>))"
proof -
  note I = system_invD [OF inv]
  from reg have ws: "ws = (sy_ws S)\<lparr>ws_clients := insert p (ws_clients (sy_ws S)),
      ws_active := ws_active (sy_ws S) + 1\<rparr>"
    by (auto simp: registerClient_def split: if_splits)
  have new: "p \<notin> ws_clients (sy_ws S)" using I(4) ph by (simp add: registry_inv_def)
  have c: "conns counted (goto p Registered (sy_srv S) (S\<lparr>sy_ws := ws\<rparr>)) = conns counted S"
    using ph by (auto simp: conns_goto)
  show ?thesis
    unfolding system_inv_def
  proof (intro conjI)
    show "base_inv (goto p Registered (sy_srv S) (S\<lparr>sy_ws := ws\<rparr>))"
      using I(1,10) by (simp add: base_inv_def conns_goto)
    show "hub_inv (goto p Registered (sy_srv S) (S\<lparr>sy_ws := ws\<rparr>))"
      by (rule hub_inv_goto [OF I(2)]) (use ph in \<open>simp_all add: same_rooms_refl\<close>)
    show "room_inv live bok (goto p Registered (sy_srv S) (S\<lparr>sy_ws := ws\<rparr>))"
      by (rule room_inv_goto [OF I(1,3)]) (use ph in \<open>simp_all add: same_rooms_refl\<close>)
    show "registry_inv (goto p Registered (sy_srv S) (S\<lparr>sy_ws := ws\<rparr>))"
    proof -
      have "handler_ok ws"
        using handler_ok_register [of "sy_ws S" p] I(4) new reg by (simp add: registry_inv_def)
      moreover have "ws_clients ws = insert p (ws_clients (sy_ws S))" by (simp add: ws)
      ultimately show ?thesis
        using I(4) by (simp add: registry_inv_def conns_goto [of registered] c)
    qed
  qed
qed

lemma inv_unregister:
  assumes inv: "system_inv live bok S" and ph: "sy_phase S p = Uncounted"
  shows "system_inv live bok (goto p Ended (sy_srv S) (S\<lparr>sy_ws := unregisterClient p (sy_ws S)\<rparr>))"
    (is "system_inv live bok ?S'")
proof -
  note I = system_invD [OF inv]
  have c: "conns counted ?S' = conns counted S" using ph by (auto simp: conns_goto)
  have in_reg: "p \<in> ws_clients (sy_ws S)" using I(4) ph by (simp add: registry_inv_def)
  show ?thesis
    unfolding system_inv_def
  proof (intro conjI)
    show "base_inv ?S'" using I(1,10) by (simp add: base_inv_def conns_goto)
    show "hub_inv ?S'"
      by (rule hub_inv_goto [OF I(2)]) (use ph in \<open>simp_all add: same_rooms_refl\<close>)
    show "room_inv live bok ?S'"
      by (rule room_inv_goto [OF I(1,3)]) (use ph in \<open>simp_all add: same_rooms_refl\<close>)
    show "registry_inv ?S'"
      using I(4) in_reg handler_ok_unregister [of "sy_ws S" p]
      by (simp add: registry_inv_def conns_goto [of registered] c) (simp add: unregisterClient_def)
  qed
qed

lemma persist_ok_hub [go_frame]: "persist_ok (s\<lparr>sv_hub := h\<rparr>) = persist_ok s"
  by (simp add: persist_ok_def split: worker.split)

text \<open>A step that changes the hub only.\<close>

lemma inv_hub_step:
  assumes inv: "system_inv live bok S"
    and same: "holds x = holds (sy_phase S p)" "registered x = registered (sy_phase S p)"
      "counted x = counted (sy_phase S p)" "releasing x = None" "releasing (sy_phase S p) = None"
    and hub: "hub_ok (sv_heap (sy_srv S)) h" "joined h = conns in_hub (goto p x s S)"
    and s: "s = (sy_srv S)\<lparr>sv_hub := h\<rparr>"
  shows "system_inv live bok (goto p x s S)"
proof -
  note I = system_invD [OF inv]
  show ?thesis
    unfolding system_inv_def
  proof (intro conjI)
    show "base_inv (goto p x s S)" by (rule base_goto [OF I(1)]) (simp add: s go_frame I(10))
    show "hub_inv (goto p x s S)" using hub s by (simp add: hub_inv_def)
    show "room_inv live bok (goto p x s S)"
      using room_inv_goto [OF I(1,3) same(1,4,5), of s "sy_ws S"] s by (simp add: same_rooms_refl)
    show "registry_inv (goto p x s S)"
      by (rule registry_inv_goto [OF I(4) same(2,3)]) (simp add: s)
  qed
qed

lemma inv_join:
  assumes inv: "system_inv live bok S" and ph: "sy_phase S p = Subscribed"
  shows "system_inv live bok (goto p Joined
    ((sy_srv S)\<lparr>sv_hub := snd (Join (sv_heap (sy_srv S)) p (sv_hub (sy_srv S)))\<rparr>) S)"
proof (rule inv_hub_step [OF inv, where h = "snd (Join (sv_heap (sy_srv S)) p (sv_hub (sy_srv S)))"])
  from inv have h: "hub_ok (sv_heap (sy_srv S)) (sv_hub (sy_srv S))"
    "joined (sv_hub (sy_srv S)) = conns in_hub S" by (simp_all add: system_inv_def hub_inv_def)
  show "hub_ok (sv_heap (sy_srv S)) (snd (Join (sv_heap (sy_srv S)) p (sv_hub (sy_srv S))))"
    by (rule hub_ok_Join [OF h(1)])
  show "joined (snd (Join (sv_heap (sy_srv S)) p (sv_hub (sy_srv S)))) = conns in_hub
      (goto p Joined ((sy_srv S)\<lparr>sv_hub := snd (Join (sv_heap (sy_srv S)) p (sv_hub (sy_srv S)))\<rparr>) S)"
    by (simp add: joined_Join [OF h(1)] h(2) conns_goto)
qed (simp_all add: ph)

lemma inv_leave:
  assumes inv: "system_inv live bok S" and ph: "sy_phase S p = ClientClosed"
  shows "system_inv live bok (goto p Left
    ((sy_srv S)\<lparr>sv_hub := snd (Leave (sv_heap (sy_srv S)) p (sv_hub (sy_srv S)))\<rparr>) S)"
proof (rule inv_hub_step [OF inv, where h = "snd (Leave (sv_heap (sy_srv S)) p (sv_hub (sy_srv S)))"])
  from inv have h: "hub_ok (sv_heap (sy_srv S)) (sv_hub (sy_srv S))"
    "joined (sv_hub (sy_srv S)) = conns in_hub S" by (simp_all add: system_inv_def hub_inv_def)
  show "hub_ok (sv_heap (sy_srv S)) (snd (Leave (sv_heap (sy_srv S)) p (sv_hub (sy_srv S))))"
    by (rule hub_ok_Leave [OF h(1)])
  show "joined (snd (Leave (sv_heap (sy_srv S)) p (sv_hub (sy_srv S)))) = conns in_hub
      (goto p Left ((sy_srv S)\<lparr>sv_hub := snd (Leave (sv_heap (sy_srv S)) p (sv_hub (sy_srv S)))\<rparr>) S)"
    by (simp add: joined_Leave [OF h(1)] h(2) conns_goto)
qed (simp_all add: ph)

text \<open>The gauge goes up and down with the connections it counts.\<close>

lemma inv_gauge_step:
  assumes inv: "system_inv live bok S"
    and same: "holds x = holds (sy_phase S p)" "in_hub x = in_hub (sy_phase S p)"
      "registered x = registered (sy_phase S p)" "releasing x = None" "releasing (sy_phase S p) = None"
    and f: "\<And>m. wsConnectionsActive m = of_nat (card (conns counted S)) \<Longrightarrow>
      wsConnectionsActive (f m) = of_nat (card (conns counted (goto p x (with_metrics f (sy_srv S)) S)))"
  shows "system_inv live bok (goto p x (with_metrics f (sy_srv S)) S)"
proof -
  note I = system_invD [OF inv]
  have r: "conns registered (goto p x (with_metrics f (sy_srv S)) S) = conns registered S"
    using same(3) by (auto simp: conns_goto)
  show ?thesis
    unfolding system_inv_def
  proof (intro conjI)
    show "base_inv (goto p x (with_metrics f (sy_srv S)) S)"
      by (rule base_goto [OF I(1)]) (simp add: go_frame I(10))
    show "hub_inv (goto p x (with_metrics f (sy_srv S)) S)"
      using hub_inv_goto [OF I(2) same(2), of "with_metrics f (sy_srv S)" "sy_ws S"]
      by (simp add: same_rooms_refl)
    show "room_inv live bok (goto p x (with_metrics f (sy_srv S)) S)"
      using room_inv_goto [OF I(1,3) same(1,4,5), of "with_metrics f (sy_srv S)" "sy_ws S"]
      by (simp add: same_rooms_refl)
    show "registry_inv (goto p x (with_metrics f (sy_srv S)) S)"
      using I(4) f r by (auto simp: registry_inv_def)
  qed
qed

lemma inv_count:
  assumes inv: "system_inv live bok S" and ph: "sy_phase S p = Joined"
  shows "system_inv live bok (goto p Serving (with_metrics IncWSConnection (sy_srv S)) S)"
proof (rule inv_gauge_step [OF inv])
  fix m :: metrics assume "wsConnectionsActive m = (of_nat (card (conns counted S)) :: int64)"
  moreover have "p \<notin> conns counted S" using ph by simp
  ultimately show "wsConnectionsActive (IncWSConnection m) =
      of_nat (card (conns counted (goto p Serving (with_metrics IncWSConnection (sy_srv S)) S)))"
    using system_invD(8) [OF inv] by (simp add: IncWSConnection_def conns_goto)
qed (simp_all add: ph)

lemma inv_uncount:
  assumes inv: "system_inv live bok S" and ph: "sy_phase S p = Released"
  shows "system_inv live bok (goto p Uncounted (with_metrics DecWSConnection (sy_srv S)) S)"
proof (rule inv_gauge_step [OF inv])
  fix m :: metrics assume m: "wsConnectionsActive m = (of_nat (card (conns counted S)) :: int64)"
  have "p \<in> conns counted S" using ph by simp
  from card_Suc_Diff1 [OF system_invD(8) [OF inv] this]
  have "of_nat (card (conns counted S)) = (of_nat (Suc (card (conns counted S - {p}))) :: int64)" by simp
  with m show "wsConnectionsActive (DecWSConnection m) =
      of_nat (card (conns counted (goto p Uncounted (with_metrics DecWSConnection (sy_srv S)) S)))"
    by (simp add: DecWSConnection_def conns_goto)
qed (simp_all add: ph)

text \<open>A step that changes the table and the broker only.\<close>

lemma inv_room_step:
  assumes inv: "system_inv live bok S"
    and same: "in_hub x = in_hub (sy_phase S p)" "registered x = registered (sy_phase S p)"
      "counted x = counted (sy_phase S p)"
    and s: "sv_hub s = sv_hub (sy_srv S)" "sv_heap s = sv_heap (sy_srv S)" "gauge s = gauge (sy_srv S)"
      "persist_ok s"
    and rooms: "subs_inv live bok (s, holders (goto p x s S), pending (goto p x s S))"
  shows "system_inv live bok (goto p x s S)"
proof -
  note I = system_invD [OF inv]
  show ?thesis
    unfolding system_inv_def
  proof (intro conjI)
    show "base_inv (goto p x s S)" by (rule base_goto [OF I(1) s(4)])
    show "hub_inv (goto p x s S)"
      using hub_inv_goto [OF I(2) same(1), of s "sy_ws S"] s(1,2) by (simp add: same_rooms_refl)
    show "room_inv live bok (goto p x s S)" using rooms by (simp add: room_inv_def)
    show "registry_inv (goto p x s S)" by (rule registry_inv_goto [OF I(4) same(2,3) s(3)])
  qed
qed

lemma Acquire_table:
  assumes "AcquireRoomSubscription D r s = (err, s')"
  shows "\<exists>b subs. s' = s\<lparr>sv_broker := b, sv_subscriptions := subs\<rparr>"
proof (cases "sv_subscriptions s r")
  case None
  obtain res b where sub: "Subscribe (dep_broker D) r (sv_broker s) = (res, b)" by fastforce
  show ?thesis
  proof (cases res)
    case (Inl e)
    with assms None sub have s': "s' = s\<lparr>sv_broker := b\<rparr>" by (simp add: AcquireRoomSubscription_def)
    show ?thesis unfolding s' by (rule exI [of _ b], rule exI [of _ "sv_subscriptions s"]) simp
  next
    case (Inr h)
    with assms None sub have "s' = s\<lparr>sv_broker := b,
        sv_subscriptions := (sv_subscriptions s)(r \<mapsto> \<lparr>rs_refs = 1, rs_unsubscribe = h\<rparr>)\<rparr>"
      by (simp add: AcquireRoomSubscription_def)
    then show ?thesis by blast
  qed
next
  case (Some e)
  with assms have s': "s' = s\<lparr>sv_subscriptions := (sv_subscriptions s)(r \<mapsto> e\<lparr>rs_refs := rs_refs e + 1\<rparr>)\<rparr>"
    by (simp add: AcquireRoomSubscription_def)
  show ?thesis unfolding s' by (rule exI [of _ "sv_broker s"], rule exI) simp
qed

lemma table_calm:
  assumes "\<exists>b subs. s' = s\<lparr>sv_broker := b, sv_subscriptions := subs\<rparr>" "persist_ok s"
  shows "sv_hub s' = sv_hub s" "sv_heap s' = sv_heap s" "gauge s' = gauge s" "persist_ok s'"
proof -
  obtain b subs where s': "s' = s\<lparr>sv_broker := b, sv_subscriptions := subs\<rparr>" using assms(1) by blast
  show "sv_hub s' = sv_hub s" "sv_heap s' = sv_heap s" "gauge s' = gauge s" "persist_ok s'"
    unfolding s' using assms(2) by (simp_all add: go_frame)
qed

lemmas Acquire_calm = table_calm [OF Acquire_table]

lemma release_begin_calm:
  assumes "release_begin r s = (h, s')" "persist_ok s"
  shows "sv_hub s' = sv_hub s" "sv_heap s' = sv_heap s" "gauge s' = gauge s" "persist_ok s'"
proof -
  obtain subs where s': "s' = s\<lparr>sv_subscriptions := subs\<rparr>"
    using release_begin_table [OF assms(1)] by blast
  show "sv_hub s' = sv_hub s" "sv_heap s' = sv_heap s" "gauge s' = gauge s" "persist_ok s'"
    unfolding s' using assms(2) by (simp_all add: go_frame)
qed

lemma release_finish_calm:
  assumes "release_finish D h s = (e, s')" "persist_ok s"
  shows "sv_hub s' = sv_hub s" "sv_heap s' = sv_heap s" "gauge s' = gauge s" "persist_ok s'"
  using assms by (auto simp: release_finish_def go_frame split: prod.splits)

context broker_iface
begin

lemma inv_acquire:
  assumes D: "dep_broker D = B" and inv: "system_inv live broker_ok S" and ph: "sy_phase S p = Registered"
    and acq: "AcquireRoomSubscription D (cl_RoomID (sv_heap (sy_srv S) p)) (sy_srv S) = (err, s)"
  shows "system_inv live broker_ok (goto p (if err = None then Subscribed else AcquireFailed) s S)"
proof (rule inv_room_step [OF inv])
  note I = system_invD [OF inv]
  note c = Acquire_calm [OF acq I(10)]
  have rooms: "same_rooms (conns holds S) (sv_heap (sy_srv S)) (sv_heap s)"
    using c(2) by (simp add: same_rooms_refl)
  have "subs_inv live broker_ok (sy_srv S, holders S, pending S)" using I(3) by (simp add: room_inv_def)
  note n = subs_inv_acquire [OF D this acq]
  show "subs_inv live broker_ok (s, holders (goto p (if err = None then Subscribed else AcquireFailed) s S),
      pending (goto p (if err = None then Subscribed else AcquireFailed) s S))"
    using n c(2) holders_goto(1,3) [OF I(5) rooms, of p] pending_goto(1) [OF I(9), of p] ph
    by (cases "err = None") simp_all
  show "sv_hub s = sv_hub (sy_srv S)" "sv_heap s = sv_heap (sy_srv S)" "gauge s = gauge (sy_srv S)"
    "persist_ok s" by (rule c)+
qed (use ph in simp_all)

lemma inv_release_begin:
  assumes inv: "system_inv live broker_ok S" and ph: "sy_phase S p = Left"
    and rel: "release_begin (cl_RoomID (sv_heap (sy_srv S) p)) (sy_srv S) = (u, s)"
  shows "system_inv live broker_ok (goto p (case u of None \<Rightarrow> Released | Some h \<Rightarrow> Releasing h) s S)"
proof (rule inv_room_step [OF inv])
  note I = system_invD [OF inv]
  note c = release_begin_calm [OF rel I(10)]
  have rooms: "same_rooms (conns holds S) (sv_heap (sy_srv S)) (sv_heap s)"
    using c(2) by (simp add: same_rooms_refl)
  have si: "subs_inv live broker_ok (sy_srv S, holders S, pending S)" using I(3) by (simp add: room_inv_def)
  have "room_of S p \<in># holders S" unfolding holders_def using I(5) ph by auto
  then have "cl_RoomID (sv_heap (sy_srv S) p) \<in># holders S" by (simp add: room_of_def)
  note n = subs_inv_release_begin [OF si this rel]
  show "subs_inv live broker_ok (s, holders (goto p (case u of None \<Rightarrow> Released | Some h \<Rightarrow> Releasing h) s S),
      pending (goto p (case u of None \<Rightarrow> Released | Some h \<Rightarrow> Releasing h) s S))"
    using n holders_goto(4) [OF I(5) rooms, of p] pending_goto(1,2) [OF I(9), of p] ph
    by (cases u) simp_all
  show "sv_hub s = sv_hub (sy_srv S)" "sv_heap s = sv_heap (sy_srv S)" "gauge s = gauge (sy_srv S)"
    "persist_ok s" by (rule c)+
qed (use ph in \<open>simp_all split: option.split\<close>)

lemma inv_release_finish:
  assumes D: "dep_broker D = B" and inv: "system_inv live broker_ok S" and ph: "sy_phase S p = Releasing h"
    and rel: "release_finish D h (sy_srv S) = (e, s)"
  shows "system_inv live broker_ok (goto p Released s S)"
proof (rule inv_room_step [OF inv])
  note I = system_invD [OF inv]
  note c = release_finish_calm [OF rel I(10)]
  have rooms: "same_rooms (conns holds S) (sv_heap (sy_srv S)) (sv_heap s)"
    using c(2) by (simp add: same_rooms_refl)
  have si: "subs_inv live broker_ok (sy_srv S, holders S, pending S)" using I(3) by (simp add: room_inv_def)
  have "h \<in># pending S" unfolding pending_def using I(9) ph
    by (auto simp: image_iff intro!: bexI [of _ p])
  note n = subs_inv_release_finish [OF D si this rel]
  show "subs_inv live broker_ok (s, holders (goto p Released s S), pending (goto p Released s S))"
    using n holders_goto(1) [OF I(5) rooms, of p] pending_goto(3) [OF I(9), of p] ph by simp
  show "sv_hub s = sv_hub (sy_srv S)" "sv_heap s = sv_heap (sy_srv S)" "gauge s = gauge (sy_srv S)"
    "persist_ok s" by (rule c)+
qed (use ph in simp_all)

lemma inv_serve_step:
  assumes D: "dep_broker D = B" and step: "serve_step D p S S'" and inv: "system_inv live broker_ok S"
  shows "system_inv live broker_ok S'"
  using step
proof cases
  case (connect user room ip cfg)
  with inv_connect [OF inv] show ?thesis by simp
next
  case (register ws)
  with inv_register [OF inv] show ?thesis by simp
next
  case (refused ws ce)
  show ?thesis unfolding refused(1)
    by (rule calm_step_inv [OF inv calm_heap_upd]) (use refused in \<open>simp_all add: client_Close_state\<close>)
next
  case (acquires s)
  with inv_acquire [OF D inv, of p None s] show ?thesis by simp
next
  case (acquire_error e s)
  with inv_acquire [OF D inv, of p "Some e" s] show ?thesis by simp
next
  case (aborts ce)
  show ?thesis unfolding aborts(1)
    by (rule calm_step_inv [OF inv calm_heap_upd]) (use aborts in \<open>simp_all add: client_Close_state\<close>)
next
  case joins
  with inv_join [OF inv] show ?thesis by simp
next
  case counts
  with inv_count [OF inv] show ?thesis by simp
next
  case (reads newID now raw s)
  show ?thesis unfolding reads(1)
    by (rule calm_step_inv [OF inv calm_read [OF D system_invD(10) [OF inv] reads(3)]])
      (use reads in simp_all)
next
  case read_ends
  show ?thesis unfolding read_ends(1)
    by (rule calm_step_inv [OF inv calm_refl]) (use read_ends in simp_all)
next
  case (closes ce)
  show ?thesis unfolding closes(1)
    by (rule calm_step_inv [OF inv calm_heap_upd]) (use closes in \<open>simp_all add: client_Close_state\<close>)
next
  case leaves
  with inv_leave [OF inv] show ?thesis by simp
next
  case (releases u s)
  with inv_release_begin [OF inv, of p u s] show ?thesis by simp
next
  case (unsubscribes_room h err s)
  with inv_release_finish [OF D inv, of p h err s] show ?thesis by simp
next
  case uncounts
  with inv_uncount [OF inv] show ?thesis by simp
next
  case unregisters
  with inv_unregister [OF inv] show ?thesis by simp
qed

lemma inv_other_step:
  assumes step: "other_step D S S'" and inv: "system_inv live broker_ok S"
  shows "system_inv live broker_ok S'"
  using step
proof cases
  case (broadcasts order r m n)
  show ?thesis unfolding broadcasts by (rule calm_other_inv [OF inv calm_broadcast])
next
  case (writes p res ch)
  show ?thesis unfolding writes(1) by (rule calm_other_inv [OF inv calm_heap_upd]) simp
next
  case (closed_by_other p ce)
  show ?thesis unfolding closed_by_other
    by (rule calm_other_inv [OF inv calm_heap_upd]) (simp add: client_Close_state)
next
  case ticks
  show ?thesis unfolding ticks by (rule calm_other_inv [OF inv calm_worker(1)])
next
  case receives
  show ?thesis unfolding receives by (rule calm_other_inv [OF inv calm_worker(2)])
next
  case (shuts_down order)
  have "room_of S' = room_of S" unfolding shuts_down by (simp add: room_of_def fun_eq_iff)
  then have "holders S' = holders S" "pending S' = pending S"
    unfolding holders_def pending_def by (simp_all add: shuts_down)
  then show ?thesis
    using inv system_invD(7) [OF inv] unfolding shuts_down
    by (simp add: system_inv_def base_inv_def hub_inv_def room_inv_def registry_inv_def
        shutdown_begin_def handler_ok_def)
qed

lemma inv_reach:
  assumes D: "dep_broker D = B" and reach: "system_reach D s0 S"
    and init: "system_inv live broker_ok (initial s0)"
  shows "system_inv live broker_ok S"
  using reach
proof induction
  case reach_init
  show ?case by (rule init)
next
  case (reach_serve S p S')
  then show ?case using inv_serve_step [OF D] by blast
next
  case (reach_other S S')
  then show ?case using inv_other_step by blast
qed

end

section \<open>The node on the Redis broker\<close>

definition fresh_node :: "(('c, 'p) redis_broker, ptr, 'l, 'r) service \<Rightarrow> bool" where
  "fresh_node s \<longleftrightarrow> fresh_service s \<and> sv_hub s = NewHub \<and> persist_ok s \<and> gauge s \<in> {None, Some 0}"

lemma fresh_node_inv:
  assumes "fresh_node s"
  shows "system_inv sub_live fresh_ptrs (initial s)"
proof -
  have none: "conns P (initial s) = {}" if "\<not> P NoConn" for P
    using that by (auto simp: conns_def initial_def)
  have sets: "conns (\<lambda>x. x \<noteq> NoConn) (initial s) = {}" "conns holds (initial s) = {}"
    "conns in_hub (initial s) = {}" "conns registered (initial s) = {}" "conns counted (initial s) = {}"
    "conns (\<lambda>x. releasing x \<noteq> None) (initial s) = {}"
    by (rule none; simp)+
  have "holders (initial s) = {#}" "pending (initial s) = {#}"
    unfolding holders_def pending_def sets by simp_all
  with assms fresh_service_inv [of s] sets show ?thesis
    by (simp add: system_inv_def base_inv_def hub_inv_def room_inv_def registry_inv_def fresh_node_def
        initial_def handler_ok_new hub_ok_new joined_new gauge_inv) (simp add: NewHandler_def)
qed

lemma redis_node_inv:
  assumes "dep_broker D = redis_broker_ops P zone order" "fresh_node s0" "system_reach D s0 S"
  shows "system_inv sub_live fresh_ptrs S"
  by (rule redis_broker.inv_reach [OF assms(1,3) fresh_node_inv [OF assms(2)]])

lemma count_holders:
  "finite (conns holds S) \<Longrightarrow> count (holders S) r = card {p \<in> conns holds S. room_of S p = r}"
  unfolding holders_def
  by (subst count_image_mset)
    (auto simp: vimage_def Int_def conj_commute intro!: arg_cong [of _ _ card])

text \<open>
  C2. However the goroutines of the node interleave, the parts agree: the registry holds the
  connections between registering and unregistering and its counter is their number; the hub
  holds those between joining and leaving; the count of a room's subscription is the number of
  connections that acquired the room and have not begun to release it, and a room without any
  has no entry; and the gauge is the number of connections that were counted.
\<close>

theorem node_consistent:
  assumes "dep_broker D = redis_broker_ops P zone order" "fresh_node s0" "system_reach D s0 S"
  shows "ws_clients (sy_ws S) = conns registered S \<and> ws_active (sy_ws S) = int (card (conns registered S)) \<and>
    joined (sv_hub (sy_srv S)) = conns in_hub S \<and>
    map_option rs_refs (sv_subscriptions (sy_srv S) r) =
      (let n = card {p \<in> conns holds S. room_of S p = r} in if n = 0 then None else Some (int n)) \<and>
    gauge (sy_srv S) \<in> {None, Some (of_nat (card (conns counted S)))}"
proof -
  note I = system_invD [OF redis_node_inv [OF assms]]
  from I(3) have rel: "subs_rel (sv_subscriptions (sy_srv S)) (sub_live (sv_broker (sy_srv S)))
      (holders S) (pending S)" by (simp add: room_inv_def subs_inv_def)
  have "map_option rs_refs (sv_subscriptions (sy_srv S) r) =
      (if count (holders S) r = 0 then None else Some (int (count (holders S) r)))"
    using subs_relD(1-3) [OF rel, of r] by (cases "sv_subscriptions (sy_srv S) r") (auto simp: not_in_iff)
  then show ?thesis
    using I(2,4) by (simp add: Let_def count_holders [OF I(5)] hub_inv_def registry_inv_def handler_ok_def gauge_inv)
qed

text \<open>
  C18. A connection that is being served stands in the hub under its room, and its room has a
  live subscription that nobody is about to end: a message published to the room while the
  connection is served has a handler and finds the connection.
\<close>

theorem served_connection_reachable:
  assumes "dep_broker D = redis_broker_ops P zone order" "fresh_node s0" "system_reach D s0 S"
    and "sy_phase S p = Serving"
  shows "p \<in> members (room_of S p) (sv_hub (sy_srv S)) \<and>
    (\<exists>h. sub_live (sv_broker (sy_srv S)) h = Some (room_of S p) \<and> h \<notin># pending S)"
proof -
  note I = system_invD [OF redis_node_inv [OF assms(1-3)]]
  from I(3) have rel: "subs_rel (sv_subscriptions (sy_srv S)) (sub_live (sv_broker (sy_srv S)))
      (holders S) (pending S)" by (simp add: room_inv_def subs_inv_def)
  from I(2) have h: "hub_ok (sv_heap (sy_srv S)) (sv_hub (sy_srv S))"
    "joined (sv_hub (sy_srv S)) = conns in_hub S" by (simp_all add: hub_inv_def)
  have "p \<in> members (room_of S p) (sv_hub (sy_srv S))"
    unfolding members_room [OF h(1)] using h(2) assms(4) by (simp add: room_of_def)
  moreover have "room_of S p \<in># holders S" unfolding holders_def using I(5) assms(4) by auto
  then obtain e where "sv_subscriptions (sy_srv S) (room_of S p) = Some e"
    using subs_relD(1) [OF rel] by (cases "sv_subscriptions (sy_srv S) (room_of S p)") auto
  with subs_relD(4,5) [OF rel this] have
    "\<exists>h. sub_live (sv_broker (sy_srv S)) h = Some (room_of S p) \<and> h \<notin># pending S" by blast
  ultimately show ?thesis by blast
qed

text \<open>When no connection is registered, nothing of them is left.\<close>

lemma unregistered_leave_nothing:
  assumes "dep_broker D = redis_broker_ops P zone order" "fresh_node s0" "system_reach D s0 S"
    and "\<forall>p. \<not> registered (sy_phase S p)"
  shows "ws_clients (sy_ws S) = {} \<and> ws_active (sy_ws S) = 0 \<and>
    hub_rooms (sv_hub (sy_srv S)) = Map.empty \<and> sv_subscriptions (sy_srv S) = Map.empty \<and>
    sub_live (sv_broker (sy_srv S)) = Map.empty \<and> gauge (sy_srv S) \<in> {None, Some 0}"
proof -
  note I = system_invD [OF redis_node_inv [OF assms(1-3)]]
  have none: "conns Q S = {}" if "\<And>x. Q x \<Longrightarrow> registered x" for Q
    using that assms(4) by (auto simp: conns_def)
  have sets: "conns holds S = {}" "conns in_hub S = {}" "conns registered S = {}" "conns counted S = {}"
    "conns (\<lambda>x. releasing x \<noteq> None) S = {}" by (rule none; auto split: phase.splits simp: registered_def holds_def in_hub_def counted_def elim: releasing.elims)+
  have "holders S = {#}" "pending S = {#}" unfolding holders_def pending_def sets by simp_all
  with I(3) have rel: "subs_rel (sv_subscriptions (sy_srv S)) (sub_live (sv_broker (sy_srv S))) {#} {#}"
    by (simp add: room_inv_def subs_inv_def)
  have subs: "sv_subscriptions (sy_srv S) r = None" for r
    using subs_relD(2) [OF rel, of r] by (cases "sv_subscriptions (sy_srv S) r") auto
  have live: "sub_live (sv_broker (sy_srv S)) h = None" for h
    using subs_relD(8) [OF rel, of h] subs by (cases "sub_live (sv_broker (sy_srv S)) h") auto
  from I(2) sets have hub: "hub_ok (sv_heap (sy_srv S)) (sv_hub (sy_srv S))"
    "joined (sv_hub (sy_srv S)) = {}" by (simp_all add: hub_inv_def)
  have "hub_rooms (sv_hub (sy_srv S)) r = None" for r
  proof (cases "hub_rooms (sv_hub (sy_srv S)) r")
    case (Some cs)
    with hub(1) have "cs \<noteq> {}" by (auto simp: hub_ok_def)
    moreover have "cs = members r (sv_hub (sy_srv S))" using Some by (simp add: members_def)
    then have "cs \<subseteq> joined (sv_hub (sy_srv S))" by (auto simp: joined_def)
    ultimately show ?thesis using hub(2) by simp
  qed simp
  with subs live sets I(4) show ?thesis
    by (auto simp: registry_inv_def handler_ok_def gauge_inv fun_eq_iff)
qed

text \<open>
  Once every connection has ended nothing of them is left: the registry is empty and its
  counter zero, the hub has no room, no room subscription is kept, the broker has no live
  subscription, and the gauge is back to zero.
\<close>

lemma ended_connections_leave_nothing:
  assumes "dep_broker D = redis_broker_ops P zone order" "fresh_node s0" "system_reach D s0 S"
    and "\<forall>p. sy_phase S p \<in> {NoConn, Ended}"
  shows "ws_clients (sy_ws S) = {} \<and> ws_active (sy_ws S) = 0 \<and>
    hub_rooms (sv_hub (sy_srv S)) = Map.empty \<and> sv_subscriptions (sy_srv S) = Map.empty \<and>
    sub_live (sv_broker (sy_srv S)) = Map.empty \<and> gauge (sy_srv S) \<in> {None, Some 0}"
proof -
  have "\<not> registered (sy_phase S p)" for p using spec [OF assms(4), of p] by auto
  then show ?thesis using unregistered_leave_nothing [OF assms(1-3)] by blast
qed

section \<open>Shutdown\<close>

text \<open>How far a connection is from its end.\<close>

fun rank :: "'h phase \<Rightarrow> nat" where
  "rank Registered = 11"
| "rank AcquireFailed = 2"
| "rank Subscribed = 10"
| "rank Joined = 9"
| "rank Serving = 8"
| "rank ReadEnded = 7"
| "rank ClientClosed = 6"
| "rank Left = 5"
| "rank (Releasing h) = 4"
| "rank Released = 3"
| "rank Uncounted = 1"
| "rank _ = 0"

lemma serve_progress:
  assumes "registered (sy_phase S p)"
  shows "\<exists>x s w. serve_step D p S (goto p x s (S\<lparr>sy_ws := w\<rparr>)) \<and> rank x < rank (sy_phase S p) \<and>
    (registered x \<or> x = Ended)"
proof -
  have id: "S = S\<lparr>sy_ws := sy_ws S\<rparr>" by simp
  show ?thesis
  proof (cases "sy_phase S p")
    case Registered
    obtain err s where a: "AcquireRoomSubscription D (cl_RoomID (sv_heap (sy_srv S) p)) (sy_srv S) = (err, s)"
      by fastforce
    show ?thesis
    proof (cases err)
      case None
      with serve_step.acquires [OF Registered, of D s] a id show ?thesis
        by (intro exI [of _ Subscribed] exI [of _ s] exI [of _ "sy_ws S"]) (simp add: Registered)
    next
      case (Some e)
      with serve_step.acquire_error [OF Registered, of D e s] a show ?thesis
        by (intro exI [of _ AcquireFailed] exI [of _ s] exI [of _ "sy_ws S"]) (simp add: Registered)
    qed
  next
    case AcquireFailed
    with serve_step.aborts [OF AcquireFailed, of D None] show ?thesis
      by (intro exI [of _ Uncounted] exI exI [of _ "sy_ws S"] conjI) simp_all
  next
    case Subscribed
    with serve_step.joins [OF Subscribed, of D] show ?thesis
      by (intro exI [of _ Joined] exI exI [of _ "sy_ws S"] conjI) simp_all
  next
    case Joined
    with serve_step.counts [OF Joined, of D] show ?thesis
      by (intro exI [of _ Serving] exI exI [of _ "sy_ws S"] conjI) simp_all
  next
    case Serving
    with serve_step.read_ends [OF Serving, of D] show ?thesis
      by (intro exI [of _ ReadEnded] exI exI [of _ "sy_ws S"] conjI) simp_all
  next
    case ReadEnded
    with serve_step.closes [OF ReadEnded, of D None] show ?thesis
      by (intro exI [of _ ClientClosed] exI exI [of _ "sy_ws S"] conjI) simp_all
  next
    case ClientClosed
    with serve_step.leaves [OF ClientClosed, of D] show ?thesis
      by (intro exI [of _ Left] exI exI [of _ "sy_ws S"] conjI) simp_all
  next
    case Left
    obtain u s where r: "release_begin (cl_RoomID (sv_heap (sy_srv S) p)) (sy_srv S) = (u, s)" by fastforce
    from serve_step.releases [OF Left r, of D] show ?thesis
      by (intro exI [of _ "case u of None \<Rightarrow> Released | Some h \<Rightarrow> Releasing h"] exI [of _ s]
          exI [of _ "sy_ws S"] conjI) (simp_all add: Left split: option.split)
  next
    case (Releasing h)
    obtain e s where r: "release_finish D h (sy_srv S) = (e, s)" by fastforce
    from serve_step.unsubscribes_room [OF Releasing r] show ?thesis
      by (intro exI [of _ Released] exI [of _ s] exI [of _ "sy_ws S"] conjI) (simp_all add: Releasing)
  next
    case Released
    with serve_step.uncounts [OF Released, of D] show ?thesis
      by (intro exI [of _ Uncounted] exI exI [of _ "sy_ws S"] conjI) simp_all
  next
    case Uncounted
    with serve_step.unregisters [OF Uncounted, of D] show ?thesis
      by (intro exI [of _ Ended] exI exI conjI) simp_all
  qed (use assms in simp_all)
qed

definition total_rank :: "('b, 'h, 'l, 'r) system \<Rightarrow> nat" where
  "total_rank S = (\<Sum>p \<in> conns registered S. rank (sy_phase S p))"

lemma total_rank_less:
  assumes fin: "finite (conns registered S)" and p: "registered (sy_phase S p)"
    and x: "rank x < rank (sy_phase S p)" "registered x \<or> x = Ended"
  shows "total_rank (goto p x s (S\<lparr>sy_ws := w\<rparr>)) < total_rank S"
proof -
  let ?A = "conns registered S"
  have split: "total_rank S = rank (sy_phase S p) + (\<Sum>q \<in> ?A - {p}. rank (sy_phase S q))"
    unfolding total_rank_def by (rule sum.remove [OF fin]) (use p in simp)
  have rest: "(\<Sum>q \<in> ?A - {p}. rank (((sy_phase S)(p := x)) q)) = (\<Sum>q \<in> ?A - {p}. rank (sy_phase S q))"
    by (rule sum.cong) auto
  show ?thesis
  proof (cases "registered x")
    case True
    have "insert p ?A = ?A" using p by (simp add: insert_absorb)
    then have "total_rank (goto p x s (S\<lparr>sy_ws := w\<rparr>)) =
        (\<Sum>q \<in> ?A. rank (((sy_phase S)(p := x)) q))"
      using True by (simp add: total_rank_def conns_goto)
    also have "\<dots> = rank x + (\<Sum>q \<in> ?A - {p}. rank (sy_phase S q))"
      using sum.remove [OF fin, of p "\<lambda>q. rank (((sy_phase S)(p := x)) q)"] p rest by simp
    finally show ?thesis using split x(1) by simp
  next
    case False
    then have "total_rank (goto p x s (S\<lparr>sy_ws := w\<rparr>)) = (\<Sum>q \<in> ?A - {p}. rank (((sy_phase S)(p := x)) q))"
      by (simp add: total_rank_def conns_goto)
    with rest split x(1) show ?thesis by simp
  qed
qed

lemma drain:
  assumes D: "dep_broker D = redis_broker_ops P zone order"
  shows "system_inv sub_live fresh_ptrs S \<Longrightarrow>
    \<exists>S'. (\<lambda>S S'. \<exists>p. serve_step D p S S')\<^sup>*\<^sup>* S S' \<and> conns registered S' = {} \<and>
      system_inv sub_live fresh_ptrs S'"
proof (induction "total_rank S" arbitrary: S rule: less_induct)
  case less
  show ?case
  proof (cases "conns registered S = {}")
    case True
    with less.prems show ?thesis by blast
  next
    case False
    then obtain p where p: "registered (sy_phase S p)" by auto
    from serve_progress [OF p, of D] obtain x s w where
      step: "serve_step D p S (goto p x s (S\<lparr>sy_ws := w\<rparr>))" and
      x: "rank x < rank (sy_phase S p)" "registered x \<or> x = Ended" by blast
    let ?S1 = "goto p x s (S\<lparr>sy_ws := w\<rparr>)"
    have inv1: "system_inv sub_live fresh_ptrs ?S1"
      by (rule redis_broker.inv_serve_step [OF D step less.prems])
    from less.hyps [OF total_rank_less [OF system_invD(7) [OF less.prems] p x] inv1]
    obtain S' where "(\<lambda>S S'. \<exists>p. serve_step D p S S')\<^sup>*\<^sup>* ?S1 S'" "conns registered S' = {}"
      "system_inv sub_live fresh_ptrs S'" by blast
    with step show ?thesis
      by (metis (mono_tags, lifting) converse_rtranclp_into_rtranclp)
  qed
qed


text \<open>
  Once shutdown has begun no step of any connection registers a connection: the registry
  only loses members, and shutdown stays in force.
\<close>

lemma no_connection_after_shutdown:
  assumes "serve_step D p S S'" "ws_closing (sy_ws S)"
  shows "ws_clients (sy_ws S') \<subseteq> ws_clients (sy_ws S) \<and> ws_closing (sy_ws S') \<and>
    sy_phase S' p \<noteq> Registered"
  using assms(1)
proof cases
  case (register ws)
  with assms(2) show ?thesis by (simp add: registerClient_def)
next
  case (releases u s)
  with assms(2) show ?thesis by (cases u) simp_all
qed (use assms(2) in \<open>auto simp: unregisterClient_def\<close>)

subsection \<open>An example node\<close>

definition demo_node ::
    "((nat, nat) redis_broker, ptr, kv, danmaku list list \<times> danmaku list) service" where
  "demo_node = persist_service 2 500000000 ''node-1'' demo_limits NewHub demo_heap
     (NewRedisPubSubBroker 0) [] kv_empty (Some new_metrics)"

lemma demo_node_fresh: "fresh_node demo_node"
proof -
  have "sv_subscriptions demo_node = Map.empty" "sv_broker demo_node = NewRedisPubSubBroker 0"
    "sv_hub demo_node = NewHub" "gauge demo_node = Some 0"
    by (simp_all add: demo_node_def persist_service_def StartPersistenceWorker_def NewMessageService_def
        gauge_def new_metrics_def Let_def)
  then show ?thesis
    unfolding fresh_node_def fresh_service_def by (auto simp: demo_node_def persist_service_ok)
qed

lemma demo_node_broker:
  "dep_broker demo_deps = redis_broker_ops demo_pubsub 0 sorted_list_of_set"
  by (simp add: demo_deps_def)

lemma demo_acquire_any: "\<exists>s'. AcquireRoomSubscription demo_deps r s = (None, s')"
  by (simp add: AcquireRoomSubscription_def demo_deps_def redis_broker_ops_def redis_Subscribe_def
      demo_pubsub_def Let_def split: option.split)

text \<open>A connection is created, registered, subscribed, joined and counted.\<close>

lemma demo_created:
  "\<exists>S. system_reach demo_deps demo_node S \<and> sy_phase S (Ptr 1) = Created \<and> \<not> ws_closing (sy_ws S)"
proof -
  let ?S0 = "initial demo_node"
  have ph: "sy_phase ?S0 (Ptr 1) = NoConn" by (simp add: initial_def)
  let ?S1 = "goto (Ptr 1) Created (heap_upd (Ptr 1) (NewClient ''u1'' ''r1'' ''127.0.0.1'' demo_cfg) (sy_srv ?S0)) ?S0"
  have "system_reach demo_deps demo_node ?S1"
    by (rule reach_serve [OF reach_init serve_step.connect [where S = ?S0, OF ph]])
  moreover have "\<not> ws_closing (sy_ws ?S1)" by (simp add: initial_def NewHandler_def)
  moreover have "sy_phase ?S1 (Ptr 1) = Created" by simp
  ultimately show ?thesis by blast
qed

lemma demo_serving: "\<exists>S. system_reach demo_deps demo_node S \<and> sy_phase S (Ptr 1) = Serving"
proof -
  let ?R = "system_reach demo_deps demo_node" and ?p = "Ptr 1"
  obtain S1 where 1: "?R S1" "sy_phase S1 ?p = Created" "\<not> ws_closing (sy_ws S1)"
    using demo_created by blast
  then obtain ws where r: "registerClient ?p (sy_ws S1) = (True, ws)" by (simp add: registerClient_def)
  let ?S2 = "goto ?p Registered (sy_srv S1) (S1\<lparr>sy_ws := ws\<rparr>)"
  have 2: "?R ?S2" by (rule reach_serve [OF 1(1) serve_step.register [OF 1(2) r]])
  have p2: "sy_phase ?S2 ?p = Registered" by simp
  obtain s where a: "AcquireRoomSubscription demo_deps (cl_RoomID (sv_heap (sy_srv ?S2) ?p)) (sy_srv ?S2) = (None, s)"
    using demo_acquire_any by blast
  let ?S3 = "goto ?p Subscribed s ?S2"
  have 3: "?R ?S3" by (rule reach_serve [OF 2 serve_step.acquires [OF p2 a]])
  have p3: "sy_phase ?S3 ?p = Subscribed" by simp
  note 4 = reach_serve [OF 3 serve_step.joins [OF p3]]
  let ?S4 = "goto ?p Joined ((sy_srv ?S3)\<lparr>sv_hub := snd (Join (sv_heap (sy_srv ?S3)) ?p (sv_hub (sy_srv ?S3)))\<rparr>) ?S3"
  have p4: "sy_phase ?S4 ?p = Joined" by simp
  note 5 = reach_serve [OF 4 serve_step.counts [OF p4]]
  have "sy_phase (goto ?p Serving (with_metrics IncWSConnection (sy_srv ?S4)) ?S4) ?p = Serving" by simp
  with 5 show ?thesis by blast
qed

theorem served_connection_reachable_witness:
  "\<exists>S. system_reach demo_deps demo_node S \<and>
     Ptr 1 \<in> members (room_of S (Ptr 1)) (sv_hub (sy_srv S)) \<and>
     (\<exists>h. sub_live (sv_broker (sy_srv S)) h = Some (room_of S (Ptr 1)))"
proof -
  obtain S where S: "system_reach demo_deps demo_node S" "sy_phase S (Ptr 1) = Serving"
    using demo_serving by blast
  from served_connection_reachable [OF demo_node_broker demo_node_fresh S] S(1) show ?thesis by blast
qed

theorem node_consistent_witness:
  "\<exists>S. system_reach demo_deps demo_node S \<and> Ptr 1 \<in> ws_clients (sy_ws S) \<and>
     Ptr 1 \<in> joined (sv_hub (sy_srv S))"
proof -
  obtain S where S: "system_reach demo_deps demo_node S" "sy_phase S (Ptr 1) = Serving"
    using demo_serving by blast
  from node_consistent [OF demo_node_broker demo_node_fresh S(1), of "''r1''"] S show ?thesis
    by (intro exI [of _ S]) simp
qed

lemma ended_connections_leave_nothing_example:
  "hub_rooms (sv_hub (sy_srv (initial demo_node))) = Map.empty \<and>
   ws_active (sy_ws (initial demo_node)) = 0"
proof -
  have "\<forall>p. sy_phase (initial demo_node) p \<in> {NoConn, Ended}" by (simp add: initial_def)
  from ended_connections_leave_nothing [OF demo_node_broker demo_node_fresh reach_init this]
  show ?thesis by simp
qed


end
