(* ===== verification/Api.thy ===== *)
theory Api
  imports Ws_Handler Wire
begin

text \<open>
  internal/api/router.go: the HTTP endpoints. A handler is a function from what the framework
  extracts from the request to the response; the framework's routing and JSON rendering are not
  modelled.
\<close>

section \<open>Responses\<close>

text \<open>
  The bodies the handlers write. \<open>expires_in\<close> is \<open>ttl.Seconds()\<close>, kept as an exact fraction.
\<close>

datatype http_body =
  JSON_error string
| JSON_status string
| JSON_token string rat
| JSON_data "danmaku list"
| Text string
| Data string string

record http_response =
  rsp_status :: nat
  rsp_body :: http_body

definition healthz :: http_response where
  "healthz = \<lparr>rsp_status = 200, rsp_body = JSON_status ''ok''\<rparr>"

definition metricsHandler :: "metrics option \<Rightarrow> http_response" where
  "metricsHandler metricsCollector =
     (case metricsCollector of
        None \<Rightarrow> \<lparr>rsp_status = 503, rsp_body = Text (''metrics collector unavailable'' @ [newline])\<rparr>
      | Some m \<Rightarrow> \<lparr>rsp_status = 200,
                   rsp_body = Data ''text/plain; version=0.0.4; charset=utf-8'' (PrometheusText m)\<rparr>)"

text \<open>\<open>ShouldBindJSON\<close> decodes the first JSON value of the body of the request.\<close>

definition guest_field :: "string \<Rightarrow> json \<Rightarrow> string \<Rightarrow> string option" where
  "guest_field k j userID =
     (if k = ''user_id'' then store_string (\<lambda>f x. f x) j userID else Some userID)"

definition bind_guest :: "string \<Rightarrow> string result" where
  "bind_guest body =
     (case json_decode body of
        None \<Rightarrow> Err json_error
      | Some j \<Rightarrow> (case store_struct guest_field j [] of None \<Rightarrow> Err json_error | Some u \<Rightarrow> Ok u))"

definition guestTokenHandler ::
    "jwt_lib \<Rightarrow> time \<Rightarrow> string \<Rightarrow> duration \<Rightarrow> string \<Rightarrow> http_response" where
  "guestTokenHandler J now secret ttl body =
     (case bind_guest body of
        Inl err \<Rightarrow> \<lparr>rsp_status = 400, rsp_body = JSON_error ''user_id is required''\<rparr>
      | Inr userID \<Rightarrow>
          if userID = [] then \<lparr>rsp_status = 400, rsp_body = JSON_error ''user_id is required''\<rparr>
          else case GenerateToken J now secret userID ttl of
                 Inl err \<Rightarrow> \<lparr>rsp_status = 500, rsp_body = JSON_error ''failed to generate token''\<rparr>
               | Inr token \<Rightarrow>
                   \<lparr>rsp_status = 200,
                    rsp_body = JSON_token token (of_int (sint ttl) / of_int ns_per_s)\<rparr>)"

text \<open>
  The text the framework writes for the bodies of this endpoint, with the keys in order.
  \<open>encoding/json\<close> writes the shortest decimal fraction that denotes the number of seconds; below
  \<open>10 ^ 15\<close> nanoseconds this is the exact one without trailing zeros.
\<close>

definition guest_text :: "http_body \<Rightarrow> string" where
  "guest_text body =
     (case body of
        JSON_error e \<Rightarrow> json_object [(''error'', json_quote e)]
      | JSON_token token secs \<Rightarrow>
          let ns = nat \<lfloor>secs * of_int ns_per_s\<rfloor> in
          json_object [(''expires_in'', nat_dec (ns div 10 ^ 9) @ fmtFrac ns 9), (''token'', json_quote token)]
      | _ \<Rightarrow> [])"

text \<open>The number of messages asked for: 50 unless the query names an integer.\<close>

definition query_limit :: "string \<Rightarrow> int64" where
  "query_limit q =
     (if q = [] then 50 else case strconv_Atoi q of Some n \<Rightarrow> n | None \<Rightarrow> 50)"

text \<open>The cursor: the zero time without one, \<open>None\<close> for a text that is not RFC 3339.\<close>

definition query_before :: "string \<Rightarrow> time option" where
  "query_before q = (if q = [] then Some zero_time else Parse_RFC3339 q)"

definition historyHandler ::
    "('b, 'h, 'l, 'r) deps \<Rightarrow> time \<Rightarrow> string \<Rightarrow> string \<Rightarrow> string \<Rightarrow>
     ('b, 'h, 'l, 'r) service \<Rightarrow> http_response" where
  "historyHandler D now roomID q_limit q_before s =
     (if roomID = [] then \<lparr>rsp_status = 400, rsp_body = JSON_error ''room_id is required''\<rparr>
      else
        let limit = query_limit q_limit in
        case query_before q_before of
          None \<Rightarrow> \<lparr>rsp_status = 400, rsp_body = JSON_error ''before must be RFC3339''\<rparr>
        | Some before \<Rightarrow>
            (case ListHistory D now roomID limit before s of
               (history, Some err) \<Rightarrow> \<lparr>rsp_status = 500, rsp_body = JSON_error ''failed to query history''\<rparr>
             | (history, None) \<Rightarrow> \<lparr>rsp_status = 200, rsp_body = JSON_data history\<rparr>))"

section \<open>Routes\<close>

datatype endpoint = StaticExamples | Healthz | MetricsEndpoint | GuestToken | History | WebSocket

definition NewRouter :: "(string \<times> string \<times> endpoint) list" where
  "NewRouter =
     [(''GET'', ''/examples/*filepath'', StaticExamples),
      (''HEAD'', ''/examples/*filepath'', StaticExamples),
      (''GET'', ''/healthz'', Healthz),
      (''GET'', ''/metrics'', MetricsEndpoint),
      (''POST'', ''/api/v1/auth/guest'', GuestToken),
      (''GET'', ''/api/v1/rooms/:room_id/messages'', History),
      (''GET'', ''/ws'', WebSocket)]"

section \<open>Guest tokens open connections\<close>

lemma bind_guest_object: "bind_guest (json_object [(''user_id'', json_quote u)]) = Ok (sanitize u)"
proof -
  let ?ms = "[str_member ''user_id'' u]"
  have "list_all (\<lambda>(k, v, j). text_of v j) ?ms" using str_member_text by simp
  then have "json_decode (json_object (map (\<lambda>(k, v, j). (k, v)) ?ms)) =
      Some (JObj (map (\<lambda>(k, v, j). (sanitize k, j)) ?ms))"
    by (intro json_decode_object(2)) simp_all
  then show ?thesis by (simp add: bind_guest_def store_struct_def str_member_def guest_field_def)
qed

text \<open>
  A guest who asks for a token with a user id gets either a server error or a token with
  which, until it expires, the WebSocket endpoint accepts a connection to any room, as that
  user; a request without a user id gets 400 and no token.
\<close>

lemma guest_token_usable:
  assumes "jwt J" "guestTokenHandler J now secret ttl body = rsp" "rsp_status rsp = 200"
    and "now' < jwt_NewNumericDate J (time_Add now ttl)" "roomID \<noteq> []" "\<not> ws_closing h"
    and "\<forall>t c. jwt_SignedString J HS256 c secret = Ok t \<longrightarrow> t \<noteq> []"
  shows "\<exists>u token c. bind_guest body = Ok u \<and> u \<noteq> [] \<and>
    rsp_body rsp = JSON_token token (of_int (sint ttl) / of_int ns_per_s) \<and>
    serve_check J now' secret roomID token h = Inr c \<and> cm_UserID c = u"
proof -
  from assms(2,3) obtain u token where u: "bind_guest body = Ok u" "u \<noteq> []"
    and g: "GenerateToken J now secret u ttl = Ok token"
    and b: "rsp_body rsp = JSON_token token (of_int (sint ttl) / of_int ns_per_s)"
    by (auto simp: guestTokenHandler_def split: sum.splits if_splits)
  from g assms(7) have "token \<noteq> []" by (auto simp: GenerateToken_def)
  with jwt.GenerateToken_parses [OF assms(1) g u(2) assms(4)] assms(5,6) u b show ?thesis
    by (simp add: serve_check_def isShuttingDown_def)
qed

lemma guest_token_usable_example:
  "\<exists>token c. rsp_body (guestTokenHandler clear_jwt 5 ''key'' (hours 24) (json_object [(''user_id'', json_quote ''u1'')])) = JSON_token token 86400 \<and>
     serve_check clear_jwt 1000 ''key'' ''r1'' token NewHandler = Inr c \<and> cm_UserID c = ''u1''"
proof -
  have h: "sint (hours 24) = 86400000000000"
    unfolding hours_def by (subst sint_of_int64) (simp_all add: ns_per_s_def min_int64_def max_int64_def)
  have s: "rsp_status (guestTokenHandler clear_jwt 5 ''key'' (hours 24) (json_object [(''user_id'', json_quote ''u1'')])) = 200"
    by (simp add: guestTokenHandler_def bind_guest_object byte_def demo_token_issued)
  have e: "1000 < jwt_NewNumericDate clear_jwt (time_Add 5 (hours 24))"
    by (simp add: clear_jwt_def time_Add_def ns_per_s_def h)
  have n: "\<forall>t c. jwt_SignedString clear_jwt HS256 c ''key'' = Ok t \<longrightarrow> t \<noteq> []"
    by (auto simp: clear_jwt_def clear_token_def)
  have o: "\<not> ws_closing NewHandler" by (simp add: NewHandler_def)
  from guest_token_usable [OF clear_jwt_laws refl s e _ o n, of "''r1''"] show ?thesis
    by (auto simp: h ns_per_s_def bind_guest_object byte_def)
qed

section \<open>The history endpoint\<close>



section \<open>Reading the history over HTTP\<close>

text \<open>
  A reader that fetches page after page, passing the \<open>created_at\<close> text of the last message it
  got as the next cursor, until a page comes back empty. \<open>zone\<close> is the time zone of the server.
\<close>

fun http_history ::
    "('b, 'h, 'l, 'r) deps \<Rightarrow> int \<Rightarrow> time \<Rightarrow> string \<Rightarrow> string \<Rightarrow> ('b, 'h, 'l, 'r) service \<Rightarrow> nat \<Rightarrow> string \<Rightarrow>
     danmaku list" where
  "http_history D zone now roomID q_limit s 0 q_before = []"
| "http_history D zone now roomID q_limit s (Suc fuel) q_before =
     (case rsp_body (historyHandler D now roomID q_limit q_before s) of
        JSON_data page \<Rightarrow>
          if page = [] then []
          else page @
            (case marshal_time zone (dm_CreatedAt (last page)) of
               Some cursor \<Rightarrow> http_history D zone now roomID q_limit s fuel cursor
             | None \<Rightarrow> [])
      | _ \<Rightarrow> [])"

lemma marshal_time_nonempty: "marshal_time zone t \<noteq> Some []"
  by (auto simp: marshal_time_def Let_def split: prod.splits if_splits)

text \<open>The cursor text denotes the time it was made from, so the two readers agree.\<close>

lemma http_history_pages:
  assumes "\<forall>now room l before r. dep_ListByRoom D now room l before r = ListByRoom T now room l before (tb r)"
    and "roomID \<noteq> []" "query_before q_before = Some before"
    and "\<forall>m. dm_RoomID m = roomID \<longrightarrow> m \<in># rows (tb (sv_repo s)) \<longrightarrow> marshal_time zone (dm_CreatedAt m) \<noteq> None"
    and "message_table T rows"
  shows "http_history D zone now roomID q_limit s fuel q_before =
    read_history T now roomID (query_limit q_limit) (tb (sv_repo s)) fuel before"
  using assms(3)
proof (induction fuel arbitrary: q_before before)
  case (Suc fuel)
  obtain page err where l: "ListByRoom T now roomID (query_limit q_limit) before (tb (sv_repo s)) = (page, err)"
    by fastforce
  have body: "rsp_body (historyHandler D now roomID q_limit q_before s) =
    (case err of Some e \<Rightarrow> JSON_error ''failed to query history'' | None \<Rightarrow> JSON_data page)"
    using assms(1,2) Suc.prems l by (simp add: historyHandler_def ListHistory_def split: option.splits)
  show ?case
  proof (cases "err = None \<and> page \<noteq> []")
    case False
    with body l show ?thesis by (cases err) auto
  next
    case True
    with l have p: "ListByRoom T now roomID (query_limit q_limit) before (tb (sv_repo s)) = (page, None)" by simp
    from message_table.ListByRoom_page_cutoff [OF assms(5) p] obtain rest where
      r: "mset (page @ rest) = filter_mset (\<lambda>m. dm_RoomID m = roomID \<and>
        dm_CreatedAt m < history_cutoff now before) (rows (tb (sv_repo s)))" by blast
    have "last page \<in># mset (page @ rest)" using True by simp
    then have "last page \<in># rows (tb (sv_repo s))" "dm_RoomID (last page) = roomID"
      unfolding r by simp_all
    with assms(4) obtain cursor where c: "marshal_time zone (dm_CreatedAt (last page)) = Some cursor"
      by blast
    then have "query_before cursor = Some (dm_CreatedAt (last page))"
      using marshal_time_nonempty [of zone "dm_CreatedAt (last page)"]
      by (auto simp: query_before_def Parse_marshal_time)
    from Suc.IH [OF this] show ?thesis using True body p c by simp
  qed
qed simp



end
