(* ===== verification/Go_Url.thy ===== *)
theory Go_Url
  imports Json
begin

text \<open>
  The query strings of net/url: escaping a value, unescaping it, and looking a key up. A value
  that was escaped into a query is found again unchanged.
\<close>

section \<open>Escaping\<close>

definition query_unreserved :: "char \<Rightarrow> bool" where
  "query_unreserved c \<longleftrightarrow>
     is_digit c \<or> c \<in> {CHR ''-'', CHR ''.'', CHR ''_'', CHR ''~''} \<or>
     (let l = byte (lower_ascii c) in 97 \<le> l \<and> l \<le> 122)"

text \<open>The characters with a meaning in a query are not among them.\<close>

lemma query_reserved [simp]:
  "\<not> query_unreserved CHR ''%''" "\<not> query_unreserved CHR ''+''" "\<not> query_unreserved CHR ''&''"
  "\<not> query_unreserved CHR ''=''" "\<not> query_unreserved CHR '';''" "\<not> query_unreserved CHR ''#''"
  "\<not> query_unreserved CHR ''?''"
  by code_simp+

definition upper_hex :: "nat \<Rightarrow> char" where
  "upper_hex n = (if n < 10 then char_of (48 + n) else char_of (55 + n))"

fun QueryEscape :: "string \<Rightarrow> string" where
  "QueryEscape [] = []"
| "QueryEscape (c # s) =
     (if query_unreserved c then [c]
      else if c = CHR '' '' then ''+''
      else [CHR ''%'', upper_hex (byte c div 16), upper_hex (byte c mod 16)]) @ QueryEscape s"

fun QueryUnescape :: "string \<Rightarrow> string option" where
  "QueryUnescape [] = Some []"
| "QueryUnescape (c # s) =
     (if c = CHR ''%'' then
        (case s of
           a # b # t \<Rightarrow>
             (case (hex_val a, hex_val b) of
                (Some i, Some j) \<Rightarrow> map_option (\<lambda>u. char_of (i * 16 + j) # u) (QueryUnescape t)
              | _ \<Rightarrow> None)
         | _ \<Rightarrow> None)
      else if c = CHR ''+'' then map_option (\<lambda>u. CHR '' '' # u) (QueryUnescape s)
      else map_option (\<lambda>u. c # u) (QueryUnescape s))"

lemma upper_hex:
  assumes "n < 16"
  shows "hex_val (upper_hex n) = Some n" "query_unreserved (upper_hex n)"
proof -
  have "list_all (\<lambda>n. hex_val (upper_hex n) = Some n \<and> query_unreserved (upper_hex n)) [0..<16]"
    by code_simp
  with assms show "hex_val (upper_hex n) = Some n" "query_unreserved (upper_hex n)"
    by (simp_all add: list_all_iff)
qed

lemma byte_nibbles: "char_of (byte c div 16 * 16 + byte c mod 16) = c"
  by simp

lemma QueryUnescape_Escape: "QueryUnescape (QueryEscape s) = Some s"
proof (induction s)
  case (Cons c s)
  have u: "query_unreserved c \<Longrightarrow> c \<noteq> CHR ''%'' \<and> c \<noteq> CHR ''+''"
    by auto
  have "byte c div 16 < 16" by (simp add: div_less_iff_less_mult)
  with Cons u show ?case by (auto simp: upper_hex byte_nibbles)
qed simp

text \<open>An escaped value contains no character with a meaning in a query.\<close>

lemma QueryEscape_chars: "c \<in> set (QueryEscape s) \<Longrightarrow> query_unreserved c \<or> c = CHR ''+'' \<or> c = CHR ''%''"
proof (induction s)
  case (Cons a s)
  have "byte a div 16 < 16" by (simp add: div_less_iff_less_mult)
  with Cons show ?case by (auto simp: upper_hex split: if_splits)
qed simp

lemma QueryEscape_safe: "set (QueryEscape s) \<inter> {CHR ''&'', CHR ''='', CHR '';'', CHR ''#'', CHR ''?''} = {}"
  by (auto dest!: QueryEscape_chars)

section \<open>Looking a key up\<close>

definition cut :: "char \<Rightarrow> string \<Rightarrow> string \<times> string" where
  "cut c s = (takeWhile (\<lambda>x. x \<noteq> c) s, drop 1 (dropWhile (\<lambda>x. x \<noteq> c) s))"

lemma cut_at: "c \<notin> set k \<Longrightarrow> cut c (k @ c # s) = (k, s)"
  by (induction k) (auto simp: cut_def)

lemma cut_none: "c \<notin> set k \<Longrightarrow> cut c k = (k, [])"
  by (induction k) (auto simp: cut_def)

text \<open>The pieces between ampersands.\<close>

fun split_amp :: "string \<Rightarrow> string \<Rightarrow> string list" where
  "split_amp acc [] = [rev acc]"
| "split_amp acc (c # s) = (if c = CHR ''&'' then rev acc # split_amp [] s else split_amp (c # acc) s)"

text \<open>
  The key and value of a piece; a piece that is empty, holds a semicolon or does not unescape is
  left out.
\<close>

definition query_pair :: "string \<Rightarrow> (string \<times> string) option" where
  "query_pair p =
     (if p = [] \<or> CHR '';'' \<in> set p then None
      else case cut (CHR ''='') p of
        (k, v) \<Rightarrow>
          (case (QueryUnescape k, QueryUnescape v) of
             (Some k', Some v') \<Rightarrow> Some (k', v')
           | _ \<Rightarrow> None))"

text \<open>\<open>c.Query(key)\<close>: the first value of the key, or the empty text.\<close>

definition query_get :: "string \<Rightarrow> string \<Rightarrow> string" where
  "query_get q key =
     (case map_of (List.map_filter query_pair (split_amp [] q)) key of None \<Rightarrow> [] | Some v \<Rightarrow> v)"

text \<open>The query of a URL: what stands between its first question mark and its fragment.\<close>

definition url_query :: "string \<Rightarrow> string" where
  "url_query u = snd (cut (CHR ''?'') (fst (cut (CHR ''#'') u)))"

lemma split_amp_piece:
  "CHR ''&'' \<notin> set p \<Longrightarrow> split_amp acc (p @ CHR ''&'' # s) = (rev acc @ p) # split_amp [] s"
  "CHR ''&'' \<notin> set p \<Longrightarrow> split_amp acc p = [rev acc @ p]"
  by (induction p arbitrary: acc) auto

lemma query_pair_escaped:
  assumes "k \<noteq> []" "list_all query_unreserved k"
  shows "query_pair (k @ CHR ''='' # QueryEscape v) = Some (k, v)"
proof -
  have k: "CHR ''='' \<notin> set k" "CHR '';'' \<notin> set k"
    using assms(2) by (auto simp: list_all_iff)
  have "QueryUnescape k = Some k" using assms(2)
    by (induction k) auto
  then show ?thesis
    using assms(1) k QueryEscape_safe [of v]
    by (auto simp: query_pair_def cut_at QueryUnescape_Escape)
qed

end
