(* ===== verification/Load_Test.thy ===== *)
theory Load_Test
  imports Go_Url Wire Api Go_Float
begin

text \<open>
  scripts/load/ws_load.go: the load generator. Workers ask for a guest token, open a connection,
  send a message at every tick and match what they receive with what was sent to measure the
  delay; at the end the counters and the percentiles of the delays are reported.
\<close>

section \<open>Samples of errors and delays\<close>

record error_samples =
  es_max :: int64
  es_list :: "string list"

definition newErrorSamples :: "int64 \<Rightarrow> error_samples" where
  "newErrorSamples m = \<lparr>es_max = (if sint m \<le> 0 then 5 else m), es_list = []\<rparr>"

definition es_add :: "string \<Rightarrow> error_samples \<Rightarrow> error_samples" where
  "es_add s e =
     (if s = [] then e
      else if sint (es_max e) \<le> int (length (es_list e)) then e
      else e\<lparr>es_list := es_list e @ [s]\<rparr>)"

definition es_values :: "error_samples \<Rightarrow> string list" where
  "es_values e = es_list e"

text \<open>\<open>Duration.Microseconds\<close> truncates towards zero.\<close>

definition duration_Microseconds :: "duration \<Rightarrow> int64" where
  "duration_Microseconds d = word_of_int (sint d sdiv 1000)"

record latency_store =
  lat_values :: "int64 list"

definition lat_add :: "duration \<Rightarrow> latency_store \<Rightarrow> latency_store" where
  "lat_add d l =
     (let us = duration_Microseconds d in
      if sint us < 0 then l else l\<lparr>lat_values := lat_values l @ [us]\<rparr>)"

definition lat_snapshot :: "latency_store \<Rightarrow> int64 list" where
  "lat_snapshot l = lat_values l"

section \<open>State\<close>

record load_stats =
  connectedOK :: int64
  connectFailed :: int64
  sentOK :: int64
  sendFailed :: int64
  received :: int64
  readErrors :: int64
  rateLimited :: int64
  authFailed :: int64
  authReqSuccess :: int64

definition zero_stats :: load_stats where
  "zero_stats =
     \<lparr>connectedOK = 0, connectFailed = 0, sentOK = 0, sendFailed = 0, received = 0, readErrors = 0,
      rateLimited = 0, authFailed = 0, authReqSuccess = 0\<rparr>"

text \<open>\<open>inflight\<close> maps the content of a message that was not echoed yet to the time it was sent.\<close>

record load_state =
  ld_stats :: load_stats
  ld_lats :: latency_store
  ld_inflight :: "string \<rightharpoonup> time"
  ld_errs :: error_samples

definition load_init :: load_state where
  "load_init =
     \<lparr>ld_stats = zero_stats, ld_lats = \<lparr>lat_values = []\<rparr>, ld_inflight = Map.empty,
      ld_errs = newErrorSamples 8\<rparr>"

definition with_stats :: "(load_stats \<Rightarrow> load_stats) \<Rightarrow> load_state \<Rightarrow> load_state" where
  "with_stats f s = s\<lparr>ld_stats := f (ld_stats s)\<rparr>"

definition with_error :: "string \<Rightarrow> load_state \<Rightarrow> load_state" where
  "with_error e s = s\<lparr>ld_errs := es_add e (ld_errs s)\<rparr>"

section \<open>HTTP requests\<close>

text \<open>
  \<open>hc.Do\<close> gives an error or a response: its status, the body as far as it can be read, and the
  error met after that, if any.
\<close>

record load_reply =
  rp_status :: nat
  rp_body :: string
  rp_err :: "go_error option"

definition TrimRight_slash :: "string \<Rightarrow> string" where
  "TrimRight_slash s = rev (dropWhile (\<lambda>c. c = CHR ''/'') (rev s))"

text \<open>\<open>io.ReadAll(io.LimitReader(body, n))\<close>.\<close>

definition read_limited :: "nat \<Rightarrow> load_reply \<Rightarrow> string \<times> go_error option" where
  "read_limited n r =
     (take n (rp_body r), if length (rp_body r) < n then rp_err r else None)"

definition auth_field :: "string \<Rightarrow> json \<Rightarrow> string \<Rightarrow> string option" where
  "auth_field k j token = (if k = ''token'' then store_string (\<lambda>f t. f t) j token else Some token)"

definition getToken :: "(string \<Rightarrow> string \<Rightarrow> load_reply result) \<Rightarrow> string \<Rightarrow> string \<Rightarrow> string result" where
  "getToken post baseHTTP userID =
     (let payload = json_object [(''user_id'', json_quote userID)] in
      case post (TrimRight_slash baseHTTP @ ''/api/v1/auth/guest'') payload of
        Inl err \<Rightarrow> Err err
      | Inr resp \<Rightarrow>
          if rp_status resp \<noteq> 200
          then Err (ErrMsg (''auth status='' @ nat_dec (rp_status resp) @ '' body='' @
                 fst (read_limited 1024 resp)))
          else (case json_decode (rp_body resp) of
              None \<Rightarrow> Err json_error
            | Some j \<Rightarrow>
                (case store_struct auth_field j [] of
                   None \<Rightarrow> Err json_error
                 | Some token \<Rightarrow>
                     if token = [] then Err (ErrMsg ''empty token'') else Ok token)))"

definition contains :: "string \<Rightarrow> string \<Rightarrow> bool" where
  "contains s p \<longleftrightarrow> list_ex (prefix p) (suffixes s)"

definition preflight :: "(string \<Rightarrow> load_reply result) \<Rightarrow> string \<Rightarrow> go_error option" where
  "preflight get baseHTTP =
     (case get (TrimRight_slash baseHTTP @ ''/healthz'') of
        Inl err \<Rightarrow> Some err
      | Inr resp \<Rightarrow>
          if rp_status resp \<noteq> 200
          then Some (ErrMsg (''healthz status='' @ nat_dec (rp_status resp) @ '' body='' @
                 fst (read_limited 512 resp)))
          else (case read_limited 512 resp of
              (_, Some err) \<Rightarrow> Some err
            | (body, None) \<Rightarrow>
                if contains body ''ok'' then None else Some (ErrMsg ''healthz unexpected response'')))"

section \<open>The worker\<close>

definition load_user :: "nat \<Rightarrow> string" where
  "load_user idx = ''u-load-'' @ nat_dec idx"

definition load_room :: "string \<Rightarrow> nat \<Rightarrow> nat \<Rightarrow> string" where
  "load_room roomPrefix roomCount idx = roomPrefix @ nat_dec (idx mod roomCount)"

definition ws_url :: "string \<Rightarrow> string \<Rightarrow> string \<Rightarrow> string" where
  "ws_url wsBase roomID token =
     TrimRight_slash wsBase @ ''/ws?room_id='' @ QueryEscape roomID @ ''&token='' @ QueryEscape token"

text \<open>
  The worker up to its connection; it goes on when the first result is true. \<open>dial\<close> is the
  WebSocket dialer.
\<close>

definition worker_begin ::
    "(string \<Rightarrow> string \<Rightarrow> load_reply result) \<Rightarrow> (string \<Rightarrow> go_error option) \<Rightarrow> string \<Rightarrow> string \<Rightarrow>
     string \<Rightarrow> nat \<Rightarrow> nat \<Rightarrow> load_state \<Rightarrow> bool \<times> load_state" where
  "worker_begin post dial baseHTTP wsBase roomPrefix roomCount idx s =
     (case getToken post baseHTTP (load_user idx) of
        Inl err \<Rightarrow>
          (False, with_error (''auth: '' @ error_text err)
             (with_stats (\<lambda>st. st\<lparr>authFailed := authFailed st + 1\<rparr>) s))
      | Inr token \<Rightarrow>
          (let s1 = with_stats (\<lambda>st. st\<lparr>authReqSuccess := authReqSuccess st + 1\<rparr>) s in
           case dial (ws_url wsBase (load_room roomPrefix roomCount idx) token) of
             Some err \<Rightarrow>
               (False, with_error (''connect: '' @ error_text err)
                  (with_stats (\<lambda>st. st\<lparr>connectFailed := connectFailed st + 1\<rparr>) s1))
           | None \<Rightarrow> (True, with_stats (\<lambda>st. st\<lparr>connectedOK := connectedOK st + 1\<rparr>) s1)))"

section \<open>Receiving\<close>

record load_inbound =
  li_Type :: string
  li_UserID :: string
  li_Content :: string
  li_Error :: string

definition zero_load_inbound :: load_inbound where
  "zero_load_inbound = \<lparr>li_Type = [], li_UserID = [], li_Content = [], li_Error = []\<rparr>"

definition load_field :: "string \<Rightarrow> json \<Rightarrow> load_inbound \<Rightarrow> load_inbound option" where
  "load_field k j m =
     (if k = ''type'' then store_string li_Type_update j m
      else if k = ''user_id'' then store_string li_UserID_update j m
      else if k = ''content'' then store_string li_Content_update j m
      else if k = ''error'' then store_string li_Error_update j m
      else Some m)"

definition unmarshal_load :: "string \<Rightarrow> load_inbound result" where
  "unmarshal_load raw =
     (case json_parse raw of
        None \<Rightarrow> Err json_error
      | Some j \<Rightarrow>
          (case store_struct load_field j zero_load_inbound of
             None \<Rightarrow> Err json_error
           | Some m \<Rightarrow> Ok m))"

text \<open>
  \<open>strings.ToLower\<close>, as far as a search for ASCII letters can tell: besides the ASCII capitals the
  only characters with an ASCII lower case are the dotted capital I and the Kelvin sign.
\<close>

fun ascii_lower :: "string \<Rightarrow> string" where
  "ascii_lower [] = []"
| "ascii_lower (a # s) =
     (if a = CHR 0xC4 \<and> s \<noteq> [] \<and> hd s = CHR 0xB0 then CHR ''i'' # ascii_lower (tl s)
      else if a = CHR 0xE2 \<and> take 2 s = [CHR 0x84, CHR 0xAA] then CHR ''k'' # ascii_lower (drop 2 s)
      else lower_ascii a # ascii_lower s)"

text \<open>
  One round of the reading goroutine: \<open>frame\<close> is the result of \<open>ReadMessage\<close>, \<open>ended\<close> whether the
  context had ended, \<open>now\<close> the clock. The goroutine goes on when the first result is true.
\<close>

definition reader_step :: "bool \<Rightarrow> time \<Rightarrow> string result \<Rightarrow> load_state \<Rightarrow> bool \<times> load_state" where
  "reader_step ended now frame s =
     (case frame of
        Inl err \<Rightarrow>
          if ended then (False, s)
          else (False, with_error (''read: '' @ error_text err)
             (with_stats (\<lambda>st. st\<lparr>readErrors := readErrors st + 1\<rparr>) s))
      | Inr raw \<Rightarrow>
          (case unmarshal_load raw of
             Inl _ \<Rightarrow> (True, s)
           | Inr msg \<Rightarrow>
               if li_Type msg = ''danmaku'' then
                 (let s1 = with_stats (\<lambda>st. st\<lparr>received := received st + 1\<rparr>) s in
                  case ld_inflight s1 (li_Content msg) of
                    None \<Rightarrow> (True, s1)
                  | Some sentAt \<Rightarrow>
                      (True, s1\<lparr>ld_inflight := (ld_inflight s1)(li_Content msg := None),
                               ld_lats := lat_add (word_of_int (now - sentAt)) (ld_lats s1)\<rparr>))
               else if li_Type msg = ''error'' then
                 (if contains (ascii_lower (li_Error msg)) ''limit''
                  then (True, with_stats (\<lambda>st. st\<lparr>rateLimited := rateLimited st + 1\<rparr>) s)
                  else (True, s))
               else (True, s)))"

section \<open>Sending\<close>

text \<open>
  A tick stores the content before it is written; the result of the write comes later, and other
  goroutines may run in between.
\<close>

definition load_content :: "nat \<Rightarrow> nat \<Rightarrow> time \<Rightarrow> string" where
  "load_content idx seq now = ''load|'' @ load_user idx @ ''|'' @ nat_dec seq @ ''|'' @ int_dec now"

definition send_begin :: "string \<Rightarrow> time \<Rightarrow> load_state \<Rightarrow> load_state" where
  "send_begin content now s = s\<lparr>ld_inflight := (ld_inflight s)(content \<mapsto> now)\<rparr>"

definition send_end :: "string \<Rightarrow> go_error option \<Rightarrow> load_state \<Rightarrow> bool \<times> load_state" where
  "send_end content err s =
     (case err of
        Some e \<Rightarrow>
          (let s1 = with_stats (\<lambda>st. st\<lparr>sendFailed := sendFailed st + 1\<rparr>) s in
           (False, with_error (''send: '' @ error_text e)
              (s1\<lparr>ld_inflight := (ld_inflight s1)(content := None)\<rparr>)))
      | None \<Rightarrow> (True, with_stats (\<lambda>st. st\<lparr>sentOK := sentOK st + 1\<rparr>) s))"

section \<open>The report\<close>

text \<open>
  The index is computed in floating point. \<open>None\<close> is a panic; a percentage outside of 1 to 99
  gives an end of the list.
\<close>

definition percentile :: "int64 list \<Rightarrow> int \<Rightarrow> int64 option" where
  "percentile xs p =
     (if xs = [] then Some 0
      else if p \<le> 0 then Some (hd xs)
      else if 100 \<le> p then Some (last xs)
      else
        let idx = nat_of_float (float_div (float_mult (float_of_nat (length xs - 1)) (float_of_nat (nat p))) 100)
        in if idx < length xs then Some (xs ! idx) else None)"

definition formatUS :: "int64 \<Rightarrow> string" where
  "formatUS us = duration_String (us * 1000)"

text \<open>\<open>fmt\<close> with the verb \<open>%.2f\<close>: the exact value rounded to two decimals, ties to even.\<close>

definition fixed2 :: "float64 \<Rightarrow> string" where
  "fixed2 v =
     (let n = nat (round_even (\<bar>v\<bar> * 100)) in
      (if v < 0 then ''-'' else []) @ nat_dec (n div 100) @ ''.'' @ pad_digits 2 (n mod 100))"

definition round_signed :: "rat \<Rightarrow> float64" where
  "round_signed r = (if r < 0 then - round_float (- r) else round_float r)"

definition duration_Seconds :: "duration \<Rightarrow> float64" where
  "duration_Seconds d =
     round_signed (round_signed (of_int (sint d sdiv 10 ^ 9)) +
       round_signed (round_signed (of_int (sint d smod 10 ^ 9)) / 10 ^ 9))"

text \<open>\<open>float64(n) / elapsed.Seconds()\<close>; a division by zero gives an infinity or no number.\<close>

definition rate_text :: "int64 \<Rightarrow> duration \<Rightarrow> string" where
  "rate_text n elapsed =
     (if duration_Seconds elapsed = 0
      then (if n = 0 then ''NaN'' else if sint n < 0 then ''-Inf'' else ''+Inf'')
      else fixed2 (round_signed (round_signed (of_int (sint n)) / duration_Seconds elapsed)))"

definition Truncate_ms :: "duration \<Rightarrow> duration" where
  "Truncate_ms d = word_of_int (sint d - sint d smod 10 ^ 6)"

definition int64_dec :: "int64 \<Rightarrow> string" where
  "int64_dec n = int_dec (sint n)"

text \<open>The lines that are printed; \<open>None\<close> is a panic.\<close>

definition report_head :: "duration \<Rightarrow> load_state \<Rightarrow> string list" where
  "report_head elapsed s =
     (let st = ld_stats s in
      [[], ''=== Summary ==='', ''elapsed: '' @ duration_String (Truncate_ms elapsed),
       ''auth success: '' @ int64_dec (authReqSuccess st) @ '', auth failed: '' @ int64_dec (authFailed st),
       ''connected: '' @ int64_dec (connectedOK st) @ '', connect failed: '' @ int64_dec (connectFailed st),
       ''sent ok: '' @ int64_dec (sentOK st) @ '', send failed: '' @ int64_dec (sendFailed st) @
         '', send rps: '' @ rate_text (sentOK st) elapsed,
       ''received: '' @ int64_dec (received st) @ '', recv rps: '' @ rate_text (received st) elapsed,
       ''rate-limited responses: '' @ int64_dec (rateLimited st),
       ''read errors: '' @ int64_dec (readErrors st),
       ''inflight(not echoed yet): '' @ nat_dec (card (dom (ld_inflight s)))] @
      (if es_values (ld_errs s) = [] then []
       else ''sample errors:'' # map (\<lambda>line. ''  - '' @ line) (es_values (ld_errs s))))"

definition report :: "duration \<Rightarrow> load_state \<Rightarrow> string list option" where
  "report elapsed s =
     (let latVals = sort_key sint (lat_snapshot (ld_lats s)) in
      if latVals = [] then Some (report_head elapsed s @ [''latency samples: 0''])
      else case (percentile latVals 50, percentile latVals 95, percentile latVals 99) of
          (Some p50, Some p95, Some p99) \<Rightarrow>
            Some (report_head elapsed s @
              [''latency samples: '' @ nat_dec (length latVals), ''latency p50: '' @ formatUS p50,
               ''latency p95: '' @ formatUS p95, ''latency p99: '' @ formatUS p99,
               ''latency max: '' @ formatUS (last latVals)])
        | _ \<Rightarrow> None)"

section \<open>Arguments\<close>

definition args_ok :: "int64 \<Rightarrow> duration \<Rightarrow> duration \<Rightarrow> int64 \<Rightarrow> bool" where
  "args_ok clients duration sendInterval roomCount \<longleftrightarrow>
     \<not> (sint clients \<le> 0 \<or> sint duration \<le> 0 \<or> sint sendInterval \<le> 0 \<or> sint roomCount \<le> 0)"

section \<open>Percentiles\<close>

lemma round_quotient:
  assumes "a < 2 ^ 46 * 100"
  shows "nat_of_float (float_div (of_nat a) 100) = a div 100"
proof -
  define q r where "q = a div 100" and "r = a mod 100"
  have a: "a = 100 * q + r" "r \<le> 99" by (simp_all add: q_def r_def less_Suc_eq_le [symmetric])
  let ?v = "of_nat a / 100 :: rat"
  let ?m = "int (128 * q + 127)"
  have q: "q < 2 ^ 46" using assms unfolding q_def by (subst less_mult_imp_div_less) simp_all
  then have "128 * q + 127 < 2 ^ 53" by simp
  then have "int (128 * q + 127) < int (2 ^ 53)" by (simp only: of_nat_less_iff)
  then have m: "0 \<le> ?m" "?m < 2 ^ 53" by simp_all
  have w: "of_int ?m * 2 powi (- 7) = (of_nat q + 127 / 128 :: rat)"
    by (simp add: power_int_minus field_simps)
  have lo: "of_nat q \<le> ?v" and hi: "?v \<le> of_nat q + 127 / 128"
    using a(2) unfolding a(1) by (simp_all add: field_simps)
  have "q < 2 ^ 53" using a assms by simp
  then have "of_nat q \<le> round_float ?v" using round_float_mono [OF lo] by (simp add: round_float_int)
  moreover have "round_float ?v \<le> of_nat q + 127 / 128"
    using round_float_mono [OF hi] round_float_exact [OF m, of "- 7"] unfolding w by simp
  ultimately have "\<lfloor>round_float ?v\<rfloor> = int q" by (simp add: floor_eq_iff)
  then show ?thesis by (simp add: nat_of_float_def float_div_def q_def)
qed

lemma percentile_index:
  assumes "xs \<noteq> []" "length xs \<le> 2 ^ 46" "p \<le> 100"
  shows "percentile xs (int p) = Some (xs ! ((length xs - 1) * p div 100))"
proof -
  let ?x = "length xs - 1"
  have x: "?x < 2 ^ 46" using assms(1,2) by (cases xs) simp_all
  consider "p = 0" | "p = 100" | "0 < p" "p < 100" using assms(3) by linarith
  then show ?thesis
  proof cases
    case 1
    with assms(1) show ?thesis by (simp add: percentile_def hd_conv_nth)
  next
    case 2
    with assms(1) show ?thesis by (simp add: percentile_def last_conv_nth)
  next
    case 3
    have "?x * p \<le> ?x * 100" using 3 by (intro mult_le_mono2) simp
    also have "\<dots> < 2 ^ 46 * 100" using x by simp
    finally have a: "?x * p < 2 ^ 46 * 100" .
    then have a53: "?x * p < 2 ^ 53" by simp
    have i: "?x * p div 100 < length xs"
    proof -
      have "?x * p div 100 \<le> ?x * 100 div 100" using 3 by (intro div_le_mono) simp
      then show ?thesis using assms(1) by (cases xs) simp_all
    qed
    have "?x < 2 ^ 53" "p < 2 ^ 53" using x 3 by simp_all
    then have "float_mult (float_of_nat ?x) (float_of_nat p) = of_nat (?x * p)"
      using round_float_int [OF a53] by (simp add: float_mult_def float_of_nat_def round_float_int)
    with 3 assms(1) i round_quotient [OF a] show ?thesis by (simp add: percentile_def)
  qed
qed

text \<open>
  C33. The floating point index of a percentile is exact: for any list of up to \<open>2 ^ 46\<close> delays
  and any percentage from 0 to 100 it is the integer quotient \<open>(n - 1) * p div 100\<close>, so it never
  leaves the list, and the delay reported has at least that many delays before it that are not
  longer.
\<close>

theorem percentile_exact:
  assumes "xs \<noteq> []" "length xs \<le> 2 ^ 46" "p \<le> 100"
  shows "percentile xs (int p) = Some (xs ! ((length xs - 1) * p div 100))"
  by (rule percentile_index [OF assms])

theorem percentile_exact_witness: "percentile [10, 20, 30, 40] 95 = Some (30 :: int64)"
  using percentile_exact [of "[10, 20, 30, 40 :: int64]" 95] by simp

text \<open>
  \<open>v\<close> is among the values at the rank of \<open>p\<close> percent: more than that share of the others is not
  larger, and at least the rest of them is not smaller.
\<close>

definition at_rank :: "nat \<Rightarrow> int64 \<Rightarrow> int64 list \<Rightarrow> bool" where
  "at_rank p v xs \<longleftrightarrow> v \<in> set xs \<and>
     (length xs - 1) * p < 100 * length (filter (\<lambda>x. sint x \<le> sint v) xs) \<and>
     (length xs - 1) * (100 - p) \<le> 100 * (length (filter (\<lambda>x. sint v \<le> sint x) xs) - 1)"

lemma sorted_rank:
  assumes "sorted (map f xs)" "i < length xs"
  shows "i < length (filter (\<lambda>x. f x \<le> f (xs ! i)) xs)" "length xs - i \<le> length (filter (\<lambda>x. f (xs ! i) \<le> f x) xs)"
proof -
  have le: "f (xs ! j) \<le> f (xs ! k)" if "j \<le> k" "k < length xs" for j k
    using sorted_nth_mono [OF assms(1), of j k] that by simp
  have "{..i} \<subseteq> {j. j < length xs \<and> f (xs ! j) \<le> f (xs ! i)}" using le assms(2) by auto
  from card_mono [OF _ this] show "i < length (filter (\<lambda>x. f x \<le> f (xs ! i)) xs)"
    by (simp add: length_filter_conv_card Suc_le_eq)
  have "{i..<length xs} \<subseteq> {j. j < length xs \<and> f (xs ! i) \<le> f (xs ! j)}" using le by auto
  from card_mono [OF _ this] show "length xs - i \<le> length (filter (\<lambda>x. f (xs ! i) \<le> f x) xs)"
    by (simp add: length_filter_conv_card)
qed

lemma index_at_rank:
  assumes "sorted (map sint xs)" "mset xs = mset ys" "xs \<noteq> []" "p \<le> 100"
  shows "at_rank p (xs ! ((length xs - 1) * p div 100)) ys"
proof -
  let ?n = "length xs - 1" and ?i = "(length xs - 1) * p div 100"
  have "?i \<le> ?n * 100 div 100" using assms(4) by (intro div_le_mono mult_le_mono2)
  then have i: "?i < length xs" using assms(3) by (cases xs) simp_all
  have f: "length (filter Q ys) = length (filter Q xs)" for Q
    using assms(2) by (metis mset_filter size_mset)
  have l: "length ys = length xs" using assms(2) by (metis size_mset)
  note r = sorted_rank [OF assms(1) i]
  have "?n * p < 100 * (?i + 1)"
    using div_mult_mod_eq [of "?n * p" 100] mod_less_divisor [of 100 "?n * p"] by simp
  also have "\<dots> \<le> 100 * length (filter (\<lambda>x. sint x \<le> sint (xs ! ?i)) xs)" using r(1) by simp
  finally have lo: "?n * p < 100 * length (filter (\<lambda>x. sint x \<le> sint (xs ! ?i)) xs)" .
  have d: "?n * (100 - p) \<le> 100 * (?n - ?i)"
    using div_times_less_eq_dividend [of "?n * p" 100] by (simp add: diff_mult_distrib2 mult.commute)
  have "?n - ?i \<le> length (filter (\<lambda>x. sint (xs ! ?i) \<le> sint x) xs) - 1" using r(2) by linarith
  then have hi: "?n * (100 - p) \<le> 100 * (length (filter (\<lambda>x. sint (xs ! ?i) \<le> sint x) xs) - 1)"
    using d by (meson le_trans mult_le_mono2)
  have "xs ! ?i \<in> set ys" using nth_mem [OF i] assms(2) mset_eq_setD by blast
  with lo hi show ?thesis unfolding at_rank_def f l by simp
qed

text \<open>
  For up to \<open>2 ^ 46\<close> delays the report is printed without a panic, and the delays it shows
  are in order and at their ranks: half of the other delays are not longer than the first one
  and half not shorter, likewise for 95 and 99 percent, and no delay is longer than the last.
\<close>

lemma report_latencies:
  assumes "lat_snapshot (ld_lats s) = vs" "length vs \<le> 2 ^ 46"
  shows "case vs of
      [] \<Rightarrow> report elapsed s = Some (report_head elapsed s @ [''latency samples: 0''])
    | _ \<Rightarrow> (\<exists>p50 p95 p99 mx.
        report elapsed s = Some (report_head elapsed s @
          [''latency samples: '' @ nat_dec (length vs), ''latency p50: '' @ formatUS p50,
           ''latency p95: '' @ formatUS p95, ''latency p99: '' @ formatUS p99,
           ''latency max: '' @ formatUS mx]) \<and>
        sint p50 \<le> sint p95 \<and> sint p95 \<le> sint p99 \<and> sint p99 \<le> sint mx \<and>
        at_rank 50 p50 vs \<and> at_rank 95 p95 vs \<and> at_rank 99 p99 vs \<and>
        mx \<in> set vs \<and> (\<forall>v \<in> set vs. sint v \<le> sint mx))"
proof (cases "vs = []")
  case True
  with assms(1) show ?thesis by (simp add: report_def)
next
  case False
  define xs where "xs = sort_key sint vs"
  let ?n = "length xs - 1"
  have xs: "xs \<noteq> []" "length xs \<le> 2 ^ 46" "sorted (map sint xs)" "mset xs = mset vs"
    using False assms(2) by (simp_all add: xs_def) (metis length_0_conv length_sort)
  have i: "?n * p div 100 \<le> ?n" if "p \<le> 100" for p
    using div_le_mono [OF mult_le_mono2 [OF that], of ?n 100] by simp
  have le: "sint (xs ! j) \<le> sint (xs ! k)" if "j \<le> k" "k \<le> ?n" for j k
  proof -
    have "k < length xs" using that(2) xs(1) by (cases xs) simp_all
    with sorted_nth_mono [OF xs(3) that(1)] that(1) show ?thesis by simp
  qed
  have idx: "?n * 50 div 100 \<le> ?n * 95 div 100" "?n * 95 div 100 \<le> ?n * 99 div 100"
    by (intro div_le_mono; simp)+
  note p = percentile_index [OF xs(1,2), of 50] percentile_index [OF xs(1,2), of 95]
    percentile_index [OF xs(1,2), of 99]
  have rep: "report elapsed s = Some (report_head elapsed s @
      [''latency samples: '' @ nat_dec (length vs), ''latency p50: '' @ formatUS (xs ! (?n * 50 div 100)),
       ''latency p95: '' @ formatUS (xs ! (?n * 95 div 100)), ''latency p99: '' @ formatUS (xs ! (?n * 99 div 100)),
       ''latency max: '' @ formatUS (xs ! ?n)])"
    using xs(1) p by (simp add: report_def assms(1) xs_def [symmetric] last_conv_nth) (simp add: xs_def)
  have "\<forall>v \<in> set vs. sint v \<le> sint (xs ! ?n)"
  proof
    fix v assume "v \<in> set vs"
    then have "v \<in> set xs" using xs(4) by (metis set_mset_mset)
    then obtain j where "j < length xs" "v = xs ! j" by (auto simp: in_set_conv_nth)
    then show "sint v \<le> sint (xs ! ?n)" by (simp add: le)
  qed
  moreover have "xs ! ?n \<in> set vs" using xs(1,4) by (metis set_mset_mset last_conv_nth last_in_set)
  moreover have "sint (xs ! (?n * 50 div 100)) \<le> sint (xs ! (?n * 95 div 100))"
    "sint (xs ! (?n * 95 div 100)) \<le> sint (xs ! (?n * 99 div 100))"
    "sint (xs ! (?n * 99 div 100)) \<le> sint (xs ! ?n)"
    by (rule le; (rule idx | rule order_refl | (rule i, simp)))+
  moreover have "at_rank 50 (xs ! (?n * 50 div 100)) vs" "at_rank 95 (xs ! (?n * 95 div 100)) vs"
    "at_rank 99 (xs ! (?n * 99 div 100)) vs"
    by (rule index_at_rank [OF xs(3,4,1)]; simp)+
  moreover obtain v vs' where "vs = v # vs'" using False by (cases vs) simp_all
  ultimately show ?thesis using rep by (simp only: list.case) blast
qed

lemma report_latencies_example:
  "\<exists>lines. report (seconds 20) (load_init\<lparr>ld_lats := \<lparr>lat_values = [40, 10, 30]\<rparr>\<rparr>) = Some lines \<and>
     last lines = ''latency max: '' @ formatUS 40"
proof -
  have v: "lat_snapshot (ld_lats (load_init\<lparr>ld_lats := \<lparr>lat_values = [40, 10, 30]\<rparr>\<rparr>)) = [40, 10, 30]"
    by (simp add: lat_snapshot_def)
  have l: "length [40, 10, 30 :: int64] \<le> 2 ^ 46" by simp
  from report_latencies [OF v l, of "seconds 20", unfolded list.case] obtain p50 p95 p99 mx where
    r: "report (seconds 20) (load_init\<lparr>ld_lats := \<lparr>lat_values = [40, 10, 30]\<rparr>\<rparr>) =
      Some (report_head (seconds 20) (load_init\<lparr>ld_lats := \<lparr>lat_values = [40, 10, 30]\<rparr>\<rparr>) @
        [''latency samples: '' @ nat_dec (length [40, 10, 30 :: int64]), ''latency p50: '' @ formatUS p50,
         ''latency p95: '' @ formatUS p95, ''latency p99: '' @ formatUS p99, ''latency max: '' @ formatUS mx])"
    and m: "mx \<in> set [40, 10, 30]" "\<forall>v \<in> set [40, 10, 30 :: int64]. sint v \<le> sint mx" by blast
  from m have "mx = 40" by auto
  with r show ?thesis by simp
qed

end
