(* ===== verification/Delivery.thy ===== *)
theory Delivery
  imports Load_Test
begin

text \<open>
  The way of a message from a frame of one client to the frames of the others: read by the
  sender's node, published to Redis as JSON, read by the subscription of another node, put into
  the queues of that node's connections, and written to them as JSON. The last step is read here
  by the client of the load generator, which has the format of an independent reader.
\<close>

section \<open>What a client reads\<close>

lemma store_load_member:
  "store_members load_field (map (\<lambda>(k, v, j). (sanitize k, j)) [str_member ''type'' s]) x =
     Some (x\<lparr>li_Type := sanitize s\<rparr>)"
  "store_members load_field (map (\<lambda>(k, v, j). (sanitize k, j)) [time_member ''timestamp'' ts]) x = Some x"
  by (simp_all add: str_member_def time_member_def load_field_def)

lemma store_load_ignored:
  assumes "k \<in> {''message_id'', ''room_id'', ''node_id''}"
  shows "store_members load_field (map (\<lambda>(k, v, j). (sanitize k, j)) (opt_member k s)) x = Some x"
  using assms by (auto simp: opt_member_def str_member_def load_field_def)

lemma store_load_opt:
  "store_members load_field (map (\<lambda>(k, v, j). (sanitize k, j)) (opt_member ''user_id'' s)) x =
     Some (if s = [] then x else x\<lparr>li_UserID := sanitize s\<rparr>)"
  "store_members load_field (map (\<lambda>(k, v, j). (sanitize k, j)) (opt_member ''content'' s)) x =
     Some (if s = [] then x else x\<lparr>li_Content := sanitize s\<rparr>)"
  "store_members load_field (map (\<lambda>(k, v, j). (sanitize k, j)) (opt_member ''error'' s)) x =
     Some (if s = [] then x else x\<lparr>li_Error := sanitize s\<rparr>)"
  by (simp_all add: opt_member_def str_member_def load_field_def)

text \<open>A field that is left out is read as the empty text, which is what it held.\<close>

lemma load_reads_outbound:
  assumes "marshal_outbound zone m = Ok text"
  shows "unmarshal_load text =
    Ok \<lparr>li_Type = sanitize (out_Type m), li_UserID = sanitize (out_UserID m),
        li_Content = sanitize (out_Content m), li_Error = sanitize (out_Error m)\<rparr>"
proof -
  obtain ts where p: "json_parse text =
      Some (JObj (map (\<lambda>(k, v, j). (sanitize k, j)) (outbound_members ts m)))"
    by (rule outbound_parse [OF assms])
  have "store_members load_field (map (\<lambda>(k, v, j). (sanitize k, j)) (outbound_members ts m))
      zero_load_inbound =
    Some \<lparr>li_Type = sanitize (out_Type m), li_UserID = sanitize (out_UserID m),
        li_Content = sanitize (out_Content m), li_Error = sanitize (out_Error m)\<rparr>"
    unfolding outbound_members_def map_append store_members_append
    by (simp only: store_load_member store_load_opt store_load_ignored insert_iff option.case simp_thms)
      (simp add: zero_load_inbound_def)
  with p show ?thesis by (simp add: unmarshal_load_def store_struct_def)
qed

section \<open>From the sender's frame to the other nodes\<close>

lemma Send_valid_utf8:
  assumes "unmarshal_inbound raw = Ok inb"
    and "Send D newID now (client_request (in_Content inb) c) s = Some (Ok msg, s')"
    and "list_all valid_utf8 [newID, cl_RoomID c, cl_UserID c, sv_nodeID s]"
  shows "valid_broadcast msg"
  using assms(3) inbound_valid [OF assms(1)] valid_TrimSpace
  unfolding Send_sent(2) [OF assms(2)]
  by (simp add: valid_broadcast_def sent_message_def client_request_def)

text \<open>
  C3. A message that a client's frame carries reaches the clients of the other nodes unchanged.
  When \<open>Send\<close> returns it, its text was handed to Redis on the channel of the sender's room; a
  node that receives this text gives exactly this message to its handler; the handler puts it
  into the queue of every connection of the room with space; and a client that is sent it reads
  the type of a message, the sender's user, no error, and the content of the frame without the
  white space around it. The ids have to be valid UTF-8; the content of a frame always is.
\<close>

theorem danmaku_reaches_clients:
  assumes "unmarshal_inbound raw = Ok inb"
    and "Send D newID now (client_request (in_Content inb) c) s = Some (Ok msg, s')"
    and "list_all valid_utf8 [newID, cl_RoomID c, cl_UserID c, sv_nodeID s]"
    and "dep_broker D = redis_broker_ops P zone visit"
    and "map_range order" "hub_ok (sv_heap t) (sv_hub t)" "\<forall>p. client_open (sv_heap t p)"
    and "marshal_outbound zone' (outbound_of msg) = Ok text"
  shows "(\<exists>payload. fst (ps_Publish P (channelName (cl_RoomID c)) payload (rb_client (sv_broker s))) = None \<and>
      sub_loop [Incoming payload] = (True, [msg])) \<and>
    (\<forall>p \<in> members (cl_RoomID c) (sv_hub t). 0 < send_room (sv_heap t p) \<longrightarrow>
      send_queue (sv_heap (room_handler order (cl_RoomID c) msg t) p) =
        send_queue (sv_heap t p) @ [outbound_of msg]) \<and>
    unmarshal_load text =
      Ok \<lparr>li_Type = ''danmaku'', li_UserID = cl_UserID c, li_Content = TrimSpace (in_Content inb),
          li_Error = []\<rparr>"
proof -
  note msg = Send_sent(2) [OF assms(2)]
  have v: "valid_broadcast msg" by (rule Send_valid_utf8 [OF assms(1-3)])
  have room: "bc_RoomID msg = cl_RoomID c" by (simp add: msg sent_message_def client_request_def)
  have "fst (redis_Publish P zone msg (sv_broker s)) = None"
    using Send_sent(3) [OF assms(2)] by (simp add: assms(4) redis_broker_ops_def)
  then obtain payload where m: "marshal_broadcast zone msg = Ok payload"
    and p: "fst (ps_Publish P (channelName (cl_RoomID c)) payload (rb_client (sv_broker s))) = None"
    by (auto simp: redis_Publish_def room split: sum.splits prod.splits)
  have "sub_loop [Incoming payload] = (True, [msg])"
    using broadcast_roundtrip [OF m]
    by (simp add: sub_loop_def sub_branch_def sanitize_valid_broadcast [OF v])
  moreover have "send_queue (sv_heap (room_handler order (cl_RoomID c) msg t) q) =
      send_queue (sv_heap t q) @ [outbound_of msg]"
    if "q \<in> members (cl_RoomID c) (sv_hub t)" "0 < send_room (sv_heap t q)" for q
    using that assms(7) by (simp add: room_handler_def room_handler_effect [OF assms(5-7)] Enqueue_effect)
  moreover have "sanitize (bc_UserID msg) = cl_UserID c"
      "sanitize (bc_Content msg) = TrimSpace (in_Content inb)"
    using v by (simp_all add: valid_broadcast_def valid_utf8_def)
      (simp_all add: msg sent_message_def client_request_def)
  then have "unmarshal_load text = Ok \<lparr>li_Type = ''danmaku'', li_UserID = cl_UserID c,
      li_Content = TrimSpace (in_Content inb), li_Error = []\<rparr>"
    by (simp add: load_reads_outbound [OF assms(8)] outbound_of_def zero_outbound_def byte_def)
  ultimately show ?thesis using p by blast
qed

theorem danmaku_reaches_clients_witness:
  "\<exists>msg text. marshal_outbound 0 (outbound_of msg) = Ok text \<and> sv_nodeID demo_service = bc_NodeID msg \<and>
     send_queue (sv_heap (room_handler sorted_list_of_set ''r1'' msg demo_service) (Ptr 2)) = [outbound_of msg] \<and>
     unmarshal_load text =
       Ok \<lparr>li_Type = ''danmaku'', li_UserID = ''u1'', li_Content = ''hi'', li_Error = []\<rparr>"
proof -
  let ?in = "\<lparr>in_Type = ''danmaku'', in_Content = '' hi ''\<rparr>"
  let ?c = "demo_heap (Ptr 1)"
  let ?msg = "sent_message ''id-1'' 5 (demo_req '' hi '') demo_service"
  have raw: "unmarshal_inbound (marshal_inbound ?in) = Ok ?in" by (simp add: inbound_roundtrip byte_def)
  have req: "client_request (in_Content ?in) ?c = demo_req '' hi ''"
    by (simp add: client_request_def demo_req_def demo_heap_def NewClient_def)
  obtain l where c: "checkLimit demo_deps (demo_req '' hi '') demo_service =
      (None, demo_service\<lparr>sv_limiter := l\<rparr>)" using demo_check by blast
  obtain b where p: "Publish (dep_broker demo_deps) ?msg (sv_broker demo_service) = (None, b)"
    by (rule demo_sent)
  obtain s' where s: "Send demo_deps ''id-1'' 5 (demo_req '' hi '') demo_service = Some (Ok ?msg, s')"
    using Send_total [OF persist_service_ok refl c p] demo_valid by auto
  have u: "list_all valid_utf8 [''id-1'', cl_RoomID ?c, cl_UserID ?c, sv_nodeID demo_service]"
    by (simp add: demo_heap_def NewClient_def persist_service_def StartPersistenceWorker_def
        NewMessageService_def Let_def valid_utf8_def byte_def)
  have d: "dep_broker demo_deps = redis_broker_ops demo_pubsub 0 sorted_list_of_set"
    by (simp add: demo_deps_def)
  have h: "hub_ok (sv_heap demo_service) (sv_hub demo_service)"
    "\<forall>p. client_open (sv_heap demo_service p)"
    by (simp_all add: demo_service_sel demo_hub_ok demo_heap_open)
  have "out_Timestamp (outbound_of ?msg) = 5" by (simp add: outbound_of_def sent_message_def)
  then obtain reply where t: "marshal_outbound 0 (outbound_of ?msg) = Ok reply"
    using marshal_time_epoch [of 5] by (auto simp: marshal_outbound_def)
  have s': "Send demo_deps ''id-1'' 5 (client_request (in_Content ?in) ?c) demo_service = Some (Ok ?msg, s')"
    unfolding req by (rule s)
  have ids: "cl_RoomID ?c = ''r1''" "cl_UserID ?c = ''u1''" by (simp_all add: demo_heap_def NewClient_def)
  have hi: "TrimSpace (in_Content ?in) = ''hi''" using demo_valid(2) by (simp add: demo_req_def)
  note * = danmaku_reaches_clients [OF raw s' u d ascending_ptr h t, unfolded ids hi demo_service_sel demo_members
      demo_send_room append.simps]
  have "sv_nodeID demo_service = bc_NodeID ?msg" by (simp only: sent_message_def broadcast_message.simps)
  moreover have "send_queue (sv_heap (room_handler sorted_list_of_set ''r1'' ?msg demo_service) (Ptr 2)) =
      [outbound_of ?msg]" using * zero_less_numeral by blast
  ultimately show ?thesis using * t by blast
qed

section \<open>A load worker gets its connection\<close>

text \<open>The token is found in the text of the response.\<close>

lemma getToken_guest:
  assumes "post (TrimRight_slash base @ ''/api/v1/auth/guest'') (json_object [(''user_id'', json_quote u)]) =
      Ok \<lparr>rp_status = 200, rp_body = guest_text (JSON_token token secs), rp_err = None\<rparr>"
    and "valid_utf8 token" "token \<noteq> []"
  shows "getToken post base u = Ok token"
proof -
  define ns where "ns = nat \<lfloor>secs * of_int ns_per_s\<rfloor>"
  let ?n = "nat_dec (ns div 10 ^ 9) @ fmtFrac ns 9"
  let ?ms = "[(''expires_in'', ?n, JNum ?n), str_member ''token'' token]"
  obtain ds j where "fmtFrac ns 9 = (if ds = [] then [] else CHR ''.'' # ds)" "list_all is_digit ds"
    by (rule fmtFrac_digits)
  then have "text_of ?n (JNum ?n)" by (rule text_of_number)
  then have "list_all (\<lambda>(k, v, j). text_of v j) ?ms" using str_member_text by simp
  then have "json_decode (json_object (map (\<lambda>(k, v, j). (k, v)) ?ms)) =
      Some (JObj (map (\<lambda>(k, v, j). (sanitize k, j)) ?ms))"
    by (intro json_decode_object(2)) simp_all
  then have "json_decode (guest_text (JSON_token token secs)) =
      Some (JObj [(''expires_in'', JNum ?n), (''token'', JStr (json_chars token) token)])"
    using assms(2) by (simp add: guest_text_def str_member_def ns_def [symmetric] Let_def valid_utf8_def byte_def)
  moreover have "fold_key ''expires_in'' = ''expires_in''" "fold_key ''token'' = ''token''"
    by (simp_all add: fold_key.simps lower_ascii_def)
  ultimately show ?thesis
    using assms(1,3) by (simp add: getToken_def store_struct_def auth_field_def)
qed

text \<open>The query of the URL the worker dials.\<close>

lemma ws_url_query:
  assumes "CHR ''?'' \<notin> set wsBase" "CHR ''#'' \<notin> set wsBase"
  shows "query_get (url_query (ws_url wsBase room token)) ''room_id'' = room"
    "query_get (url_query (ws_url wsBase room token)) ''token'' = token"
proof -
  let ?r = "''room_id='' @ QueryEscape room" and ?t = "''token='' @ QueryEscape token"
  let ?b = "TrimRight_slash wsBase @ ''/ws''"
  have sub: "set (TrimRight_slash wsBase) \<subseteq> set wsBase"
    by (auto simp: TrimRight_slash_def dest: set_dropWhileD)
  have u: "ws_url wsBase room token = ?b @ CHR ''?'' # ?r @ CHR ''&'' # ?t"
    by (simp add: ws_url_def)
  have h: "CHR ''#'' \<notin> set (ws_url wsBase room token)" and m: "CHR ''?'' \<notin> set ?b"
    unfolding u using sub assms QueryEscape_safe [of room] QueryEscape_safe [of token] by auto
  have q: "url_query (ws_url wsBase room token) = ?r @ CHR ''&'' # ?t"
    unfolding url_query_def cut_none [OF h] fst_conv unfolding u cut_at [OF m] snd_conv by (rule refl)
  have a: "CHR ''&'' \<notin> set ?r" "CHR ''&'' \<notin> set ?t"
    using QueryEscape_safe [of room] QueryEscape_safe [of token] by auto
  have "split_amp [] (?r @ CHR ''&'' # ?t) = [?r, ?t]"
    unfolding split_amp_piece(1) [OF a(1)] split_amp_piece(2) [OF a(2)] by simp
  moreover have "list_all query_unreserved ''room_id''" "list_all query_unreserved ''token''" by code_simp+
  then have "query_pair ?r = Some (''room_id'', room)" "query_pair ?t = Some (''token'', token)"
    using query_pair_escaped [of "''room_id''" room] query_pair_escaped [of "''token''" token] by simp_all
  ultimately show "query_get (url_query (ws_url wsBase room token)) ''room_id'' = room"
    "query_get (url_query (ws_url wsBase room token)) ''token'' = token"
    by (simp_all only: q query_get_def List.map_filter_simps) simp_all
qed

text \<open>
  The two endpoints as the worker meets them: a request to the guest endpoint is answered by its
  handler, and dialling succeeds when the checks before the upgrade do.
\<close>

definition guest_server ::
    "jwt_lib \<Rightarrow> time \<Rightarrow> string \<Rightarrow> duration \<Rightarrow> string \<Rightarrow> string \<Rightarrow> load_reply result" where
  "guest_server J now secret ttl url body =
     (let rsp = guestTokenHandler J now secret ttl body in
      Ok \<lparr>rp_status = rsp_status rsp, rp_body = guest_text (rsp_body rsp), rp_err = None\<rparr>)"

definition ws_server :: "jwt_lib \<Rightarrow> time \<Rightarrow> string \<Rightarrow> handler \<Rightarrow> string \<Rightarrow> go_error option" where
  "ws_server J now secret h url =
     (let q = url_query url in
      case serve_check J now secret (query_get q ''room_id'') (query_get q ''token'') h of
        Inl _ \<Rightarrow> Some (ErrMsg ''websocket: bad handshake'')
      | Inr _ \<Rightarrow> None)"

lemma load_user_valid: "valid_utf8 (load_user idx)" "load_user idx \<noteq> []"
  using plain_valid [of "load_user idx"] plain_digits [OF nat_dec_digits]
  by (simp_all add: load_user_def char_simps)


lemma clear_token_valid: "valid_utf8 (clear_token c k)" "clear_token c k \<noteq> []"
proof -
  have "byte (b64_char i) < 128" for i by (auto simp: b64_char_def byte_def)
  then have e: "list_all (\<lambda>c. byte c < 128) (RawURL_encode s)" for s
    by (induction s rule: RawURL_encode.induct) simp_all
  have "list_all (\<lambda>c. byte c < 128) (nat_dec n)" for n
    using plain_digits [OF nat_dec_digits [of n]] by (simp add: plain_def list_all_iff)
  then have "list_all (\<lambda>c. byte c < 128) (clear_token c k)"
    using e by (simp add: clear_token_def int_dec_def byte_def)
  then show "valid_utf8 (clear_token c k)" by (intro valid_ascii) (simp add: list_all_iff)
  show "clear_token c k \<noteq> []" by (simp add: clear_token_def)
qed


end
