(* ===== verification/Load_Run.thy ===== *)
theory Load_Run
  imports Delivery
begin

text \<open>
  The load generator as a whole: every worker sends from one goroutine and receives in another,
  and all of them share the counters, the samples and the table of messages in flight. A step is
  one access to the shared variables; sending is two, as the write to the connection lies in
  between. The invariant accounts for every message.
\<close>

section \<open>Contents\<close>

text \<open>The text before a bar, and no number contains one.\<close>

lemma bar_split:
  assumes "a @ CHR ''|'' # s = b @ CHR ''|'' # t" "CHR ''|'' \<notin> set a" "CHR ''|'' \<notin> set b"
  shows "a = b \<and> s = t"
  using cut_at [OF assms(2), of s] cut_at [OF assms(3), of t] unfolding assms(1) by simp

lemma no_bar: "CHR ''|'' \<notin> set (nat_dec n)"
  using nat_dec_digits [of n] by (auto simp: list_all_iff is_digit_def)

text \<open>No content is sent twice, by one worker or by two.\<close>

lemma load_content_inj:
  assumes "load_content i k t = load_content i' k' t'"
  shows "i = i' \<and> k = k'"
proof -
  have e: "nat_dec i @ CHR ''|'' # (nat_dec k @ CHR ''|'' # int_dec t) =
      nat_dec i' @ CHR ''|'' # (nat_dec k' @ CHR ''|'' # int_dec t')"
    using assms by (simp add: load_content_def load_user_def)
  from bar_split [OF e no_bar no_bar] have i: "nat_dec i = nat_dec i'"
    and r: "nat_dec k @ CHR ''|'' # int_dec t = nat_dec k' @ CHR ''|'' # int_dec t'" by simp_all
  from bar_split [OF r no_bar no_bar] i show ?thesis by (simp add: nat_dec_inj)
qed

section \<open>The system\<close>

text \<open>
  \<open>ly_seq\<close> is the next number of each worker, \<open>ly_writing\<close> what it is writing, \<open>ly_started\<close> and
  \<open>ly_running\<close> the workers that were started and those in their sending loop. The other three are not part of the program: the contents
  stored so far, those matched by a reader, and those taken back after a failed write.
\<close>

record load_sys =
  ly_state :: load_state
  ly_started :: "nat set"
  ly_running :: "nat set"
  ly_seq :: "nat \<Rightarrow> nat"
  ly_writing :: "nat \<rightharpoonup> string"
  ly_stored :: "string set"
  ly_matched :: "string set"
  ly_dropped :: "string set"

definition load_sys_init :: load_sys where
  "load_sys_init =
     \<lparr>ly_state = load_init, ly_started = {}, ly_running = {}, ly_seq = (\<lambda>_. 0),
      ly_writing = Map.empty, ly_stored = {}, ly_matched = {}, ly_dropped = {}\<rparr>"

definition sys_connect ::
    "(string \<Rightarrow> string \<Rightarrow> load_reply result) \<Rightarrow> (string \<Rightarrow> go_error option) \<Rightarrow> string \<Rightarrow> string \<Rightarrow>
     string \<Rightarrow> nat \<Rightarrow> nat \<Rightarrow> load_sys \<Rightarrow> load_sys" where
  "sys_connect post dial baseHTTP wsBase roomPrefix roomCount idx y =
     (case worker_begin post dial baseHTTP wsBase roomPrefix roomCount idx (ly_state y) of
        (ok, s) \<Rightarrow>
          y\<lparr>ly_state := s, ly_started := insert idx (ly_started y),
            ly_running := (if ok then insert idx (ly_running y) else ly_running y)\<rparr>)"

text \<open>The clock is read twice, for the text and for the table.\<close>

definition sys_tick :: "nat \<Rightarrow> time \<Rightarrow> time \<Rightarrow> load_sys \<Rightarrow> load_sys" where
  "sys_tick idx now now' y =
     (let content = load_content idx (ly_seq y idx) now in
      y\<lparr>ly_state := send_begin content now' (ly_state y), ly_seq := (ly_seq y)(idx := Suc (ly_seq y idx)),
        ly_writing := (ly_writing y)(idx \<mapsto> content), ly_stored := insert content (ly_stored y)\<rparr>)"

definition sys_written :: "nat \<Rightarrow> string \<Rightarrow> go_error option \<Rightarrow> load_sys \<Rightarrow> load_sys" where
  "sys_written idx content err y =
     (case send_end content err (ly_state y) of
        (ok, s) \<Rightarrow>
          y\<lparr>ly_state := s, ly_running := (if ok then ly_running y else ly_running y - {idx}),
            ly_writing := (ly_writing y)(idx := None),
            ly_dropped := ly_dropped y \<union> (dom (ld_inflight (ly_state y)) - dom (ld_inflight s))\<rparr>)"

definition sys_read :: "bool \<Rightarrow> time \<Rightarrow> string result \<Rightarrow> load_sys \<Rightarrow> load_sys" where
  "sys_read ended now frame y =
     (let s = snd (reader_step ended now frame (ly_state y)) in
      y\<lparr>ly_state := s,
        ly_matched := ly_matched y \<union> (dom (ld_inflight (ly_state y)) - dom (ld_inflight s))\<rparr>)"

inductive load_step :: "load_sys \<Rightarrow> load_sys \<Rightarrow> bool" where
  connects: "load_step y (sys_connect post dial baseHTTP wsBase roomPrefix roomCount idx y)"
    if "idx \<notin> ly_started y"
| ticks: "load_step y (sys_tick idx now now' y)"
    if "idx \<in> ly_running y" "ly_writing y idx = None"
| writes: "load_step y (sys_written idx content err y)"
    if "ly_writing y idx = Some content"
| reads: "load_step y (sys_read ended now frame y)"

inductive load_reach :: "load_sys \<Rightarrow> bool" where
  load_reach_init: "load_reach load_sys_init"
| load_reach_step: "load_reach y \<Longrightarrow> load_step y y' \<Longrightarrow> load_reach y'"

section \<open>Every message is accounted for\<close>

definition parts :: "'a set \<Rightarrow> 'a set \<Rightarrow> 'a set \<Rightarrow> 'a set \<Rightarrow> bool" where
  "parts S A B C \<longleftrightarrow> A \<union> B \<union> C = S \<and> A \<inter> B = {} \<and> A \<inter> C = {} \<and> B \<inter> C = {}"

lemma parts_insert: "parts S A B C \<Longrightarrow> x \<notin> S \<Longrightarrow> parts (insert x S) (insert x A) B C"
  unfolding parts_def by blast

lemma parts_move:
  assumes "parts S A B C" "A' \<subseteq> A"
  shows "parts S A' (B \<union> (A - A')) C" "parts S A' B (C \<union> (A - A'))"
  using assms unfolding parts_def by blast+

lemma parts_card:
  assumes "parts S A B C" "finite S"
  shows "card A + card B + card C = card S"
proof -
  have "finite A" "finite B" "finite C" using assms unfolding parts_def by auto
  then show ?thesis
    using assms(1) card_Un_disjoint [of A B] card_Un_disjoint [of "A \<union> B" C]
    unfolding parts_def by (auto simp: Int_Un_distrib2)
qed

definition load_inv :: "load_sys \<Rightarrow> bool" where
  "load_inv y \<longleftrightarrow>
     finite (ly_stored y) \<and> finite (dom (ly_writing y)) \<and>
     (\<forall>c \<in> ly_stored y. \<exists>i k t. c = load_content i k t \<and> k < ly_seq y i) \<and>
     parts (ly_stored y) (dom (ld_inflight (ly_state y))) (ly_matched y) (ly_dropped y)"

definition load_counts :: "load_sys \<Rightarrow> nat \<Rightarrow> nat \<Rightarrow> nat \<Rightarrow> bool" where
  "load_counts y sent failed recv \<longleftrightarrow>
     sentOK (ld_stats (ly_state y)) = of_nat sent \<and> sendFailed (ld_stats (ly_state y)) = of_nat failed \<and>
     received (ld_stats (ly_state y)) = of_nat recv \<and>
     sent + failed + card (dom (ly_writing y)) = card (ly_stored y) \<and>
     length (lat_values (ld_lats (ly_state y))) \<le> card (ly_matched y) \<and> card (ly_matched y) \<le> recv \<and>
     card (ly_dropped y) \<le> failed"

subsection \<open>What the operations change\<close>

definition errs_ok :: "load_state \<Rightarrow> bool" where
  "errs_ok s \<longleftrightarrow> es_max (ld_errs s) = 8 \<and> length (es_list (ld_errs s)) \<le> 8"

lemma with_simps [simp]:
  "ld_stats (with_stats f s) = f (ld_stats s)" "ld_lats (with_stats f s) = ld_lats s"
  "ld_inflight (with_stats f s) = ld_inflight s" "ld_errs (with_stats f s) = ld_errs s"
  "ld_stats (with_error e s) = ld_stats s" "ld_lats (with_error e s) = ld_lats s"
  "ld_inflight (with_error e s) = ld_inflight s" "errs_ok (with_stats f s) = errs_ok s"
  by (simp_all add: with_stats_def with_error_def errs_ok_def)

lemma errs_ok_with_error [simp]: "errs_ok s \<Longrightarrow> errs_ok (with_error e s)"
  by (auto simp: errs_ok_def with_error_def es_add_def)

lemma worker_begin_frame:
  assumes "worker_begin post dial baseHTTP wsBase roomPrefix roomCount idx s = (ok, s')"
  shows "ld_inflight s' = ld_inflight s" "ld_lats s' = ld_lats s"
    "sentOK (ld_stats s') = sentOK (ld_stats s)" "sendFailed (ld_stats s') = sendFailed (ld_stats s)"
    "received (ld_stats s') = received (ld_stats s)" "errs_ok s \<Longrightarrow> errs_ok s'"
  using assms by (auto simp: worker_begin_def Let_def split: sum.splits option.splits)

lemma send_end_effect:
  assumes "send_end content err s = (ok, s')"
  shows "ld_lats s' = ld_lats s" "received (ld_stats s') = received (ld_stats s)" "errs_ok s \<Longrightarrow> errs_ok s'"
    "sentOK (ld_stats s') = sentOK (ld_stats s) + (if err = None then 1 else 0)"
    "sendFailed (ld_stats s') = sendFailed (ld_stats s) + (if err = None then 0 else 1)"
    "ld_inflight s' = (if err = None then ld_inflight s else (ld_inflight s)(content := None))"
    "ok = (err = None)"
  using assms by (auto simp: send_end_def Let_def errs_ok_def with_error_def with_stats_def es_add_def split: option.splits)

lemma lat_add_length: "length (lat_values (lat_add d l)) \<le> Suc (length (lat_values l))"
  by (simp add: lat_add_def Let_def)

text \<open>A reader takes at most one message out of the table, and counts it as received.\<close>

lemma reader_step_effect:
  assumes s': "s' = snd (reader_step ended now frame s)"
  obtains (same) "ld_inflight s' = ld_inflight s" "ld_lats s' = ld_lats s"
      "sentOK (ld_stats s') = sentOK (ld_stats s)" "sendFailed (ld_stats s') = sendFailed (ld_stats s)"
      "received (ld_stats s') \<in> {received (ld_stats s), received (ld_stats s) + 1}" "errs_ok s \<Longrightarrow> errs_ok s'"
    | (match) c where "ld_inflight s c \<noteq> None"
      "ld_inflight s' = (ld_inflight s)(c := None)"
      "length (lat_values (ld_lats s')) \<le> Suc (length (lat_values (ld_lats s)))"
      "sentOK (ld_stats s') = sentOK (ld_stats s)" "sendFailed (ld_stats s') = sendFailed (ld_stats s)"
      "received (ld_stats s') = received (ld_stats s) + 1" "errs_ok s \<Longrightarrow> errs_ok s'"
proof (cases frame)
  case (Inl err)
  show thesis
    by (rule same) (simp_all add: s' reader_step_def Inl)
next
  case (Inr raw)
  show thesis
  proof (cases "unmarshal_load raw")
    case (Inl e)
    show thesis by (rule same) (simp_all add: s' reader_step_def Inr Inl)
  next
    case msg: (Inr msg)
    show thesis
    proof (cases "li_Type msg = ''danmaku'' \<and> ld_inflight s (li_Content msg) \<noteq> None")
      case True
      then obtain t where "li_Type msg = ''danmaku''" "ld_inflight s (li_Content msg) = Some t" by blast
      then show thesis
        by (intro match [of "li_Content msg"])
          (simp_all add: s' reader_step_def Inr msg Let_def lat_add_length errs_ok_def with_stats_def)
    next
      case False
      then show thesis
        by (intro same) (auto simp: s' reader_step_def Inr msg Let_def)
    qed
  qed
qed

subsection \<open>The invariant\<close>

definition load_account :: "load_sys \<Rightarrow> bool" where
  "load_account y \<longleftrightarrow>
     load_inv y \<and> errs_ok (ly_state y) \<and> (\<exists>sent failed recv. load_counts y sent failed recv)"

lemma load_account_init: "load_account load_sys_init"
proof -
  have "load_counts load_sys_init 0 0 0"
    by (simp add: load_counts_def load_sys_init_def load_init_def zero_stats_def)
  then show ?thesis
    unfolding load_account_def
    by (auto simp: load_inv_def parts_def load_sys_init_def load_init_def errs_ok_def newErrorSamples_def)
qed

lemma load_account_connect:
  assumes "load_account y"
  shows "load_account (sys_connect post dial baseHTTP wsBase roomPrefix roomCount idx y)"
proof -
  obtain ok s where w: "worker_begin post dial baseHTTP wsBase roomPrefix roomCount idx (ly_state y) = (ok, s)"
    by fastforce
  let ?y = "sys_connect post dial baseHTTP wsBase roomPrefix roomCount idx y"
  have "load_counts y sent failed recv \<Longrightarrow> load_counts ?y sent failed recv" for sent failed recv
    by (simp add: load_counts_def sys_connect_def w worker_begin_frame [OF w])
  moreover have "load_inv y \<Longrightarrow> load_inv ?y"
    by (simp add: load_inv_def sys_connect_def w worker_begin_frame [OF w])
  moreover have "errs_ok (ly_state y) \<Longrightarrow> errs_ok (ly_state ?y)"
    by (simp add: sys_connect_def w worker_begin_frame [OF w])
  ultimately show ?thesis using assms unfolding load_account_def by blast
qed

text \<open>The content of a tick is new.\<close>

lemma tick_fresh:
  assumes "load_inv y"
  shows "load_content idx (ly_seq y idx) now \<notin> ly_stored y"
proof
  assume "load_content idx (ly_seq y idx) now \<in> ly_stored y"
  with assms obtain i k t where "load_content idx (ly_seq y idx) now = load_content i k t" "k < ly_seq y i"
    unfolding load_inv_def by blast
  then have "idx = i" "ly_seq y idx = k" "k < ly_seq y i" using load_content_inj by blast+
  then show False by simp
qed

lemma load_account_tick:
  assumes "load_account y" "ly_writing y idx = None"
  shows "load_account (sys_tick idx now now' y)"
proof -
  let ?c = "load_content idx (ly_seq y idx) now" and ?y = "sys_tick idx now now' y"
  have inv: "load_inv y" using assms(1) by (simp add: load_account_def)
  have new: "?c \<notin> ly_stored y" by (rule tick_fresh [OF inv])
  have sets: "ly_stored ?y = insert ?c (ly_stored y)" "ly_matched ?y = ly_matched y"
    "ly_dropped ?y = ly_dropped y" "ly_seq ?y = (ly_seq y)(idx := Suc (ly_seq y idx))"
    "dom (ly_writing ?y) = insert idx (dom (ly_writing y))"
    "dom (ld_inflight (ly_state ?y)) = insert ?c (dom (ld_inflight (ly_state y)))"
    "ld_stats (ly_state ?y) = ld_stats (ly_state y)" "ld_lats (ly_state ?y) = ld_lats (ly_state y)"
    "ld_errs (ly_state ?y) = ld_errs (ly_state y)"
    by (simp_all add: sys_tick_def send_begin_def Let_def)
  have "\<exists>i k t. c = load_content i k t \<and> k < ly_seq ?y i" if c: "c \<in> insert ?c (ly_stored y)" for c
  proof -
    obtain i k t where "c = load_content i k t" "k < ly_seq y i \<or> i = idx \<and> k = ly_seq y idx"
      using c inv unfolding load_inv_def by blast
    moreover from this have "k < ly_seq ?y i" by (auto simp: sets)
    ultimately show ?thesis by blast
  qed
  then have "load_inv ?y"
    using inv new unfolding load_inv_def sets by (simp add: parts_insert)
  moreover have "idx \<notin> dom (ly_writing y)" using assms(2) by auto
  then have "load_counts y sent failed recv \<Longrightarrow> load_counts ?y sent failed recv" for sent failed recv
    using inv new unfolding load_counts_def sets load_inv_def by simp
  ultimately show ?thesis using assms(1) unfolding load_account_def errs_ok_def sets by blast
qed

lemma load_account_written:
  assumes "load_account y" "ly_writing y idx = Some content"
  shows "load_account (sys_written idx content err y)"
proof -
  let ?y = "sys_written idx content err y"
  obtain ok s where e: "send_end content err (ly_state y) = (ok, s)" by fastforce
  note f = send_end_effect [OF e]
  let ?gone = "dom (ld_inflight (ly_state y)) - dom (ld_inflight s)"
  have sets: "ly_state ?y = s" "ly_stored ?y = ly_stored y" "ly_matched ?y = ly_matched y"
    "ly_dropped ?y = ly_dropped y \<union> ?gone" "ly_seq ?y = ly_seq y"
    "dom (ly_writing ?y) = dom (ly_writing y) - {idx}"
    by (simp_all add: sys_written_def e)
  obtain sent failed recv where inv: "load_inv y" and c: "load_counts y sent failed recv" "errs_ok (ly_state y)"
    using assms(1) by (auto simp: load_account_def)
  have "dom (ld_inflight s) \<subseteq> dom (ld_inflight (ly_state y))" unfolding f(6) by auto
  then have "load_inv ?y"
    using inv parts_move(2) unfolding load_inv_def sets by (metis finite_Diff)
  moreover have "card (ly_dropped y \<union> ?gone) \<le> card (ly_dropped y) + (if err = None then 0 else 1)"
  proof -
    have "card ?gone \<le> card (if err = None then {} else {content})"
      by (rule card_mono) (auto simp: f(6))
    then show ?thesis using card_Un_le [of "ly_dropped y" ?gone] by (cases err) simp_all
  qed
  moreover have "card (dom (ly_writing y)) = Suc (card (dom (ly_writing y) - {idx}))"
    using inv assms(2) unfolding load_inv_def by (intro card.remove [of _ idx]) auto
  ultimately have "load_counts ?y (sent + (if err = None then 1 else 0)) (failed + (if err = None then 0 else 1)) recv"
    using c(1) unfolding load_counts_def sets f by auto
  then show ?thesis using \<open>load_inv ?y\<close> f(3) [OF c(2)] unfolding load_account_def sets by blast
qed

lemma load_account_read:
  assumes "load_account y"
  shows "load_account (sys_read ended now frame y)"
proof -
  let ?y = "sys_read ended now frame y"
  define s where "s = snd (reader_step ended now frame (ly_state y))"
  let ?gone = "dom (ld_inflight (ly_state y)) - dom (ld_inflight s)"
  have sets: "ly_state ?y = s" "ly_stored ?y = ly_stored y" "ly_matched ?y = ly_matched y \<union> ?gone"
    "ly_dropped ?y = ly_dropped y" "ly_seq ?y = ly_seq y" "ly_writing ?y = ly_writing y"
    by (simp_all add: sys_read_def s_def Let_def)
  obtain sent failed recv where inv: "load_inv y" and c: "load_counts y sent failed recv" "errs_ok (ly_state y)"
    using assms by (auto simp: load_account_def)
  have move: "dom (ld_inflight s) \<subseteq> dom (ld_inflight (ly_state y)) \<Longrightarrow> load_inv ?y"
    using inv parts_move(1) unfolding load_inv_def sets by metis
  show ?thesis
  proof (rule reader_step_effect [OF s_def], goal_cases)
    case same: 1
    have "load_counts ?y sent failed recv \<or> load_counts ?y sent failed (Suc recv)"
      using c(1) same(5) unfolding load_counts_def sets same(1-4) by auto
    then show ?thesis using move same(1,6) c(2) unfolding load_account_def sets by auto
  next
    case match: (2 m)
    have g: "?gone = {m}" using match(1,2) by auto
    have new: "m \<notin> ly_matched y"
      using inv match(1) unfolding load_inv_def parts_def by auto
    have "ly_matched y \<subseteq> ly_stored y" using inv unfolding load_inv_def parts_def by blast
    then have fin: "finite (ly_matched y)"
      by (rule finite_subset) (use inv in \<open>simp add: load_inv_def\<close>)
    have "load_counts ?y sent failed (Suc recv)"
      using c(1) match(3-6) new fin unfolding load_counts_def sets g by simp
    then show ?thesis using move match(2,7) c(2) unfolding load_account_def sets by auto
  qed
qed

lemma load_reach_account: "load_reach y \<Longrightarrow> load_account y"
proof (induction rule: load_reach.induct)
  case load_reach_init
  show ?case by (rule load_account_init)
next
  case (load_reach_step y y')
  from load_reach_step(2,3) show ?case
    by cases (simp_all add: load_account_connect load_account_tick load_account_written load_account_read)
qed

text \<open>
  C30. However the goroutines of the load generator interleave, and whatever frames arrive, the
  numbers of the report account for every message: those counted as sent, those counted as
  failed and those being written are together the messages stored in the table; each of these is
  still in flight, was matched with a frame once, or was taken back after a failed write; no
  delay is sampled without a match and no match happens without a received message; at most as
  many are taken back as writes failed; and at most eight error texts are kept.
\<close>

theorem load_accounts:
  assumes "load_reach y"
  shows "\<exists>sent failed recv.
    sentOK (ld_stats (ly_state y)) = of_nat sent \<and> sendFailed (ld_stats (ly_state y)) = of_nat failed \<and>
    received (ld_stats (ly_state y)) = of_nat recv \<and>
    sent + failed + card (dom (ly_writing y)) = card (ly_stored y) \<and>
    card (dom (ld_inflight (ly_state y))) + card (ly_matched y) + card (ly_dropped y) = card (ly_stored y) \<and>
    length (lat_snapshot (ld_lats (ly_state y))) \<le> card (ly_matched y) \<and> card (ly_matched y) \<le> recv \<and>
    card (ly_dropped y) \<le> failed \<and> length (es_values (ld_errs (ly_state y))) \<le> 8"
proof -
  have a: "load_account y" by (rule load_reach_account [OF assms])
  then obtain sent failed recv where c: "load_counts y sent failed recv" by (auto simp: load_account_def)
  have "card (dom (ld_inflight (ly_state y))) + card (ly_matched y) + card (ly_dropped y) = card (ly_stored y)"
    using a by (intro parts_card) (simp_all add: load_account_def load_inv_def)
  then show ?thesis
    using a c unfolding load_counts_def load_account_def errs_ok_def lat_snapshot_def es_values_def by blast
qed

text \<open>A worker sends a message, and fails to write the next one.\<close>

definition demo_post :: "string \<Rightarrow> string \<Rightarrow> load_reply result" where
  "demo_post url body = Ok \<lparr>rp_status = 200, rp_body = guest_text (JSON_token ''t'' 60), rp_err = None\<rparr>"

definition demo_connected :: load_sys where
  "demo_connected = sys_connect demo_post (\<lambda>url. None) [] [] ''room-'' 3 0 load_sys_init"

definition demo_load :: load_sys where
  "demo_load =
     sys_written 0 (load_content 0 1 9) (Some (ErrMsg ''closed''))
       (sys_tick 0 9 9 (sys_written 0 (load_content 0 0 5) None (sys_tick 0 5 5 demo_connected)))"

lemma demo_connected:
  "ly_running demo_connected = {0}" "ly_writing demo_connected = Map.empty" "ly_seq demo_connected = (\<lambda>_. 0)"
proof -
  have "getToken demo_post [] (load_user 0) = Ok ''t''"
    by (rule getToken_guest) (simp_all add: demo_post_def valid_utf8_def byte_def)
  then show "ly_running demo_connected = {0}" "ly_writing demo_connected = Map.empty"
    "ly_seq demo_connected = (\<lambda>_. 0)"
    by (simp_all add: demo_connected_def sys_connect_def worker_begin_def load_sys_init_def Let_def)
qed

lemma sys_fields [simp]:
  "ly_running (sys_tick i t t' y) = ly_running y"
  "ly_writing (sys_tick i t t' y) = (ly_writing y)(i \<mapsto> load_content i (ly_seq y i) t)"
  "ly_seq (sys_tick i t t' y) = (ly_seq y)(i := Suc (ly_seq y i))"
  "ly_running (sys_written i c err y) = (if err = None then ly_running y else ly_running y - {i})"
  "ly_writing (sys_written i c err y) = (ly_writing y)(i := None)"
  "ly_seq (sys_written i c err y) = ly_seq y"
  by (simp_all add: sys_tick_def sys_written_def Let_def case_prod_beta send_end_effect(7) [OF prod.collapse [symmetric]])

lemma demo_load_reach: "load_reach demo_load"
proof -
  have "load_reach demo_connected" unfolding demo_connected_def
    by (rule load_reach_step [OF load_reach_init connects]) (simp add: load_sys_init_def)
  then have "load_reach (sys_tick 0 5 5 demo_connected)"
    by (rule load_reach_step [OF _ ticks]) (simp_all add: demo_connected)
  then have "load_reach (sys_written 0 (load_content 0 0 5) None (sys_tick 0 5 5 demo_connected))"
    by (rule load_reach_step [OF _ writes]) (simp add: demo_connected)
  then have "load_reach (sys_tick 0 9 9 (sys_written 0 (load_content 0 0 5) None (sys_tick 0 5 5 demo_connected)))"
    by (rule load_reach_step [OF _ ticks]) (simp_all add: demo_connected)
  then show ?thesis unfolding demo_load_def
    by (rule load_reach_step [OF _ writes]) (simp add: demo_connected)
qed

theorem load_accounts_witness:
  "\<exists>sent failed. sentOK (ld_stats (ly_state demo_load)) = of_nat sent \<and>
     sendFailed (ld_stats (ly_state demo_load)) = of_nat failed \<and>
     sent + failed + card (dom (ly_writing demo_load)) = card (ly_stored demo_load)"
  using load_accounts [OF demo_load_reach] by blast

end
