(* ===== verification/Ws_Keepalive.thy ===== *)
theory Ws_Keepalive
  imports Ws_Handler
begin

text \<open>
  The whole read loop of a connection (\<open>readPump\<close> of internal/ws/handler.go): its size limit, its
  read deadline, which only a pong moves, and the frames it hands on. A peer that answers the
  pings of the write loop in time is never dropped by the deadline; a peer that does not is
  dropped, whatever else it sends.
\<close>

section \<open>The WebSocket library\<close>

text \<open>
  What arrives on a connection. \<open>ReadMessage\<close> consumes it until it has a message or an error to
  return; a pong is handed to the pong handler and the read goes on, so the result is \<open>None\<close>.
\<close>

datatype net_event = NetData string | NetPong | NetFail go_error

record 'c ws_lib =
  wl_SetReadLimit :: "int64 \<Rightarrow> 'c \<Rightarrow> 'c"
  wl_SetReadDeadline :: "time \<Rightarrow> 'c \<Rightarrow> 'c"
  wl_Read :: "(time \<Rightarrow> 'c \<Rightarrow> 'c) \<Rightarrow> time \<Rightarrow> net_event \<Rightarrow> 'c \<Rightarrow> string result option \<times> 'c"

definition fits :: "int64 \<Rightarrow> string \<Rightarrow> bool" where
  "fits limit raw \<longleftrightarrow> sint limit \<le> 0 \<or> int (length raw) \<le> sint limit"

text \<open>
  The documented behaviour: nothing is read at or after the deadline, a message above the limit
  is an error, where a limit that is not positive is none, and a pong runs the handler.
\<close>

locale ws_conn =
  fixes L :: "'c ws_lib" and deadline :: "'c \<Rightarrow> time" and read_limit :: "'c \<Rightarrow> int64"
  assumes set_limit: "read_limit (wl_SetReadLimit L n c) = n"
    and set_limit_deadline: "deadline (wl_SetReadLimit L n c) = deadline c"
    and set_deadline: "deadline (wl_SetReadDeadline L t c) = t"
    and set_deadline_limit: "read_limit (wl_SetReadDeadline L t c) = read_limit c"
    and read_late: "deadline c \<le> now \<Longrightarrow> \<exists>e. fst (wl_Read L h now ev c) = Some (Err e)"
    and read_data: "now < deadline c \<Longrightarrow> fits (read_limit c) raw \<Longrightarrow>
      wl_Read L h now (NetData raw) c = (Some (Ok raw), c)"
    and read_long: "now < deadline c \<Longrightarrow> \<not> fits (read_limit c) raw \<Longrightarrow>
      \<exists>e. fst (wl_Read L h now (NetData raw) c) = Some (Err e)"
    and read_pong: "now < deadline c \<Longrightarrow> wl_Read L h now NetPong c = (None, h now c)"
    and read_fail: "now < deadline c \<Longrightarrow> \<exists>e'. fst (wl_Read L h now (NetFail e) c) = Some (Err e')"

section \<open>The read loop\<close>

definition pong_handler :: "'c ws_lib \<Rightarrow> client_config \<Rightarrow> time \<Rightarrow> 'c \<Rightarrow> 'c" where
  "pong_handler L cfg now c = wl_SetReadDeadline L (time_Add now (PongWait cfg)) c"

definition read_begin :: "'c ws_lib \<Rightarrow> client_config \<Rightarrow> time \<Rightarrow> 'c \<Rightarrow> 'c" where
  "read_begin L cfg now c =
     wl_SetReadDeadline L (time_Add now (PongWait cfg)) (wl_SetReadLimit L (MaxMessageSize cfg) c)"

text \<open>
  One arrival: its time, the id and clock reading that \<open>Send\<close> would use, what arrives, and what
  the other goroutines did to the service before it.
\<close>

record ('b, 'h, 'l, 'r) arrival =
  ar_now :: time
  ar_newID :: string
  ar_event :: net_event
  ar_others :: "('b, 'h, 'l, 'r) service \<Rightarrow> ('b, 'h, 'l, 'r) service"

text \<open>\<open>None\<close> is a panic; the loop has returned when the first component is false.\<close>

fun read_loop ::
    "('b, 'h, 'l, 'r) deps \<Rightarrow> 'c ws_lib \<Rightarrow> client_config \<Rightarrow> ptr \<Rightarrow> ('b, 'h, 'l, 'r) arrival list \<Rightarrow>
     'c \<Rightarrow> ('b, 'h, 'l, 'r) service \<Rightarrow> (bool \<times> 'c \<times> ('b, 'h, 'l, 'r) service) option" where
  "read_loop D L cfg p [] c s = Some (True, c, s)"
| "read_loop D L cfg p (a # as) c s =
     (let s1 = ar_others a s in
      case wl_Read L (pong_handler L cfg) (ar_now a) (ar_event a) c of
        (None, c') \<Rightarrow> read_loop D L cfg p as c' s1
      | (Some (Inl err), c') \<Rightarrow> Some (False, c', s1)
      | (Some (Inr raw), c') \<Rightarrow>
          (case read_message D (ar_newID a) (ar_now a) p raw s1 of
             None \<Rightarrow> None
           | Some s2 \<Rightarrow> read_loop D L cfg p as c' s2))"

definition readPump ::
    "('b, 'h, 'l, 'r) deps \<Rightarrow> 'c ws_lib \<Rightarrow> ptr \<Rightarrow> time \<Rightarrow> ('b, 'h, 'l, 'r) arrival list \<Rightarrow>
     'c \<Rightarrow> ('b, 'h, 'l, 'r) service \<Rightarrow> (bool \<times> 'c \<times> ('b, 'h, 'l, 'r) service) option" where
  "readPump D L p start as c s =
     (let cfg = cl_cfg (sv_heap s p) in read_loop D L cfg p as (read_begin L cfg start c) s)"

section \<open>The loop as a timer\<close>

text \<open>
  What decides whether the loop goes on: the arrivals alone. The state is the deadline, \<open>None\<close>
  once the loop has returned.
\<close>

definition timer_step :: "int64 \<Rightarrow> duration \<Rightarrow> time \<Rightarrow> net_event \<Rightarrow> time \<Rightarrow> time option" where
  "timer_step limit wait now ev d =
     (if d \<le> now then None
      else case ev of
          NetData raw \<Rightarrow> if fits limit raw then Some d else None
        | NetPong \<Rightarrow> Some (time_Add now wait)
        | NetFail e \<Rightarrow> None)"

fun timer :: "int64 \<Rightarrow> duration \<Rightarrow> (time \<times> net_event) list \<Rightarrow> time \<Rightarrow> time option" where
  "timer limit wait [] d = Some d"
| "timer limit wait ((now, ev) # es) d =
     (case timer_step limit wait now ev d of None \<Rightarrow> None | Some d' \<Rightarrow> timer limit wait es d')"

definition arrivals :: "('b, 'h, 'l, 'r) arrival list \<Rightarrow> (time \<times> net_event) list" where
  "arrivals as = map (\<lambda>a. (ar_now a, ar_event a)) as"

text \<open>The other goroutines keep the persistence well-formed and the connection's own queue open.\<close>

definition steady :: "ptr \<Rightarrow> (('b, 'h, 'l, 'r) service \<Rightarrow> ('b, 'h, 'l, 'r) service) \<Rightarrow> bool" where
  "steady p f \<longleftrightarrow> (\<forall>s. persist_ok s \<and> client_open (sv_heap s p) \<longrightarrow>
     persist_ok (f s) \<and> client_open (sv_heap (f s) p))"

lemma read_message_steady:
  assumes "persist_ok s" "client_open (sv_heap s p)"
  obtains s' where "read_message D newID now p raw s = Some s'" "persist_ok s'" "client_open (sv_heap s' p)"
proof -
  have r: "client_open (sv_heap (reply p m s') p)" if "client_open (sv_heap s' p)" for m s'
    using that by (simp add: reply_def client_queue.offer_ready)
  show thesis
  proof (cases "unmarshal_inbound raw")
    case (Inl e)
    show thesis
      by (rule that [of "reply p (error_reply ''invalid message format'') s"])
        (use Inl assms r in \<open>simp_all add: read_message_def\<close>)
  next
    case (Inr i)
    let ?req = "client_request (in_Content i) (sv_heap s p)"
    obtain lerr s1 perr b where c: "checkLimit D ?req s = (lerr, s1)"
      and pub: "Publish (dep_broker D) (sent_message newID now ?req s) (sv_broker s) = (perr, b)" by fastforce
    from Send_total [OF assms(1) refl c pub] obtain res s2 where
      send: "Send D newID now ?req s = Some (res, s2)" and s2: "persist_ok s2" "sv_heap s2 = sv_heap s"
      by blast
    show thesis
    proof (cases "in_Type i = ''danmaku''")
      case True
      show thesis
      proof (cases res)
        case (Inl err)
        show thesis
          by (rule that [of "reply p (error_reply (error_text err)) s2"])
            (use send s2 assms(2) r [of s2] Inr True Inl in \<open>simp_all add: read_message_def\<close>)
      next
        case (Inr msg)
        show thesis
          by (rule that [of s2]) (use send s2 assms(2) \<open>unmarshal_inbound raw = Ok i\<close> True Inr in
            \<open>simp_all add: read_message_def\<close>)
      qed
    next
      case False
      with assms r Inr show thesis
        by (cases "in_Type i = ''ping''") (auto intro!: that simp: read_message_def)
    qed
  qed
qed

context ws_conn
begin

lemma read_loop_timer:
  assumes "read_limit c = MaxMessageSize cfg" "persist_ok s" "client_open (sv_heap s p)"
    and "\<forall>a \<in> set as. steady p (ar_others a)"
  shows "\<exists>c' s'. read_loop D L cfg p as c s =
      Some (timer (MaxMessageSize cfg) (PongWait cfg) (arrivals as) (deadline c) \<noteq> None, c', s')"
  using assms
proof (induction as arbitrary: c s)
  case (Cons a as)
  let ?s = "ar_others a s" and ?h = "pong_handler L cfg" and ?now = "ar_now a"
  have s: "persist_ok ?s" "client_open (sv_heap ?s p)"
    using Cons.prems by (auto simp: steady_def)
  have st: "\<forall>a \<in> set as. steady p (ar_others a)" using Cons.prems(4) by simp
  have stop: "\<exists>c' s'. read_loop D L cfg p (a # as) c s = Some (False, c', s')"
    if "\<exists>e. fst (wl_Read L ?h ?now (ar_event a) c) = Some (Err e)"
    using that by (cases "wl_Read L ?h ?now (ar_event a) c") (auto simp: Let_def)
  show ?case
  proof (cases "deadline c \<le> ?now")
    case True
    with stop [OF read_late] show ?thesis by (simp add: arrivals_def timer_step_def)
  next
    case False
    then have t: "?now < deadline c" by simp
    show ?thesis
    proof (cases "ar_event a")
      case (NetData raw)
      show ?thesis
      proof (cases "fits (MaxMessageSize cfg) raw")
        case True
        obtain s' where r: "read_message D (ar_newID a) ?now p raw ?s = Some s'" "persist_ok s'"
          "client_open (sv_heap s' p)" by (rule read_message_steady [OF s])
        from Cons.IH [OF Cons.prems(1) r(2,3) st] r(1) t True NetData Cons.prems(1) show ?thesis
          by (simp add: read_data Let_def arrivals_def timer_step_def)
      next
        case False
        with stop read_long [OF t] t NetData Cons.prems(1) show ?thesis
          by (simp add: arrivals_def timer_step_def)
      qed
    next
      case NetPong
      have "read_limit (?h ?now c) = MaxMessageSize cfg" "deadline (?h ?now c) = time_Add ?now (PongWait cfg)"
        using Cons.prems(1) by (simp_all add: pong_handler_def set_deadline set_deadline_limit)
      with Cons.IH [OF this(1) s st] t NetPong show ?thesis
        by (simp add: read_pong Let_def arrivals_def timer_step_def)
    next
      case (NetFail e)
      with stop read_fail [OF t] t show ?thesis by (simp add: arrivals_def timer_step_def)
    qed
  qed
qed (simp add: arrivals_def)

lemma readPump_timer:
  assumes "persist_ok s" "client_open (sv_heap s p)" "\<forall>a \<in> set as. steady p (ar_others a)"
    and "cl_cfg (sv_heap s p) = cfg"
  shows "\<exists>c' s'. readPump D L p start as c s =
      Some (timer (MaxMessageSize cfg) (PongWait cfg) (arrivals as) (time_Add start (PongWait cfg)) \<noteq> None, c', s')"
proof -
  let ?c = "read_begin L cfg start c"
  have "read_limit ?c = MaxMessageSize cfg" "deadline ?c = time_Add start (PongWait cfg)"
    by (simp_all add: read_begin_def set_limit set_deadline set_deadline_limit)
  with read_loop_timer [OF this(1) assms(1-3)] show ?thesis
    by (simp add: readPump_def Let_def assms(4))
qed

end

section \<open>A connection that is kept alive\<close>

text \<open>Nothing but a pong moves the deadline.\<close>

lemma timer_pongless:
  assumes "\<forall>(now, ev) \<in> set es. ev \<noteq> NetPong" "timer limit wait es d \<noteq> None" "(now, ev) \<in> set es"
  shows "now < d"
  using assms
proof (induction es arbitrary: d)
  case (Cons e es)
  obtain t x where e: "e = (t, x)" by (cases e)
  with Cons.prems(1) have x: "x \<noteq> NetPong" by auto
  have "timer_step limit wait t x d = Some d" and t: "t < d" and rest: "timer limit wait es d \<noteq> None"
    using Cons.prems(2) x e by (auto simp: timer_step_def split: option.splits net_event.splits if_splits)
  with Cons e show ?case by auto
qed simp

text \<open>
  The arrivals come in order, and each pong moves the deadline to its own time plus the wait, so
  the deadline is never below any pong's. \<open>due\<close> is a bound that the pongs before an arrival
  have to reach: the loop goes on when it is above every arrival.
\<close>

definition harmless :: "int64 \<Rightarrow> net_event \<Rightarrow> bool" where
  "harmless limit ev \<longleftrightarrow> (case ev of NetData raw \<Rightarrow> fits limit raw | NetPong \<Rightarrow> True | NetFail e \<Rightarrow> False)"

lemma timer_goes_on:
  assumes "sorted (map fst es)" "\<forall>(now, ev) \<in> set es. harmless limit ev"
    and "\<forall>pre now ev post. es = pre @ (now, ev) # post \<longrightarrow>
      now < d \<or> (\<exists>t. (t, NetPong) \<in> set pre \<and> now < time_Add t wait)"
    and "\<forall>(now, ev) \<in> set es. d \<le> time_Add now wait"
  shows "timer limit wait es d \<noteq> None"
  using assms
proof (induction es arbitrary: d)
  case (Cons e es)
  obtain now ev where e: "e = (now, ev)" by (cases e)
  have now: "now < d" using Cons.prems(3) [rule_format, of "[]" now ev es] e by simp
  have ev: "harmless limit ev" using Cons.prems(2) e by simp
  have IH: "timer limit wait es d' \<noteq> None"
    if d': "d' = (if ev = NetPong then time_Add now wait else d)" for d'
  proof (rule Cons.IH)
    show "sorted (map fst es)" "\<forall>(now, ev) \<in> set es. harmless limit ev" using Cons.prems(1,2) by simp_all
    have mono: "\<forall>(now', ev') \<in> set es. time_Add now wait \<le> time_Add now' wait"
      using Cons.prems(1) e by (auto simp: time_Add_def)
    then show "\<forall>(now', ev') \<in> set es. d' \<le> time_Add now' wait"
      using Cons.prems(4) d' by auto
    show "\<forall>pre now' ev' post. es = pre @ (now', ev') # post \<longrightarrow>
        now' < d' \<or> (\<exists>t. (t, NetPong) \<in> set pre \<and> now' < time_Add t wait)"
    proof (intro allI impI)
      fix pre now' ev' post
      assume es: "es = pre @ (now', ev') # post"
      have ge: "d \<le> time_Add now wait" using Cons.prems(4) e by simp
      have "now' < d \<or> (\<exists>t. (t, NetPong) \<in> set (e # pre) \<and> now' < time_Add t wait)"
        using Cons.prems(3) [rule_format, of "e # pre" now' ev' post] es by simp
      with ge d' e show "now' < d' \<or> (\<exists>t. (t, NetPong) \<in> set pre \<and> now' < time_Add t wait)"
        by auto
    qed
  qed
  from now ev IH show ?case
    by (cases ev) (simp_all add: e timer_step_def harmless_def)
qed simp

text \<open>
  The peer answers the pings of the write loop: the ping \<open>k\<close> is written at \<open>start + k * period\<close>, and
  a pong arrives before anything that comes \<open>delay\<close> later.
\<close>

definition answers_pings :: "time \<Rightarrow> int \<Rightarrow> int \<Rightarrow> (time \<times> net_event) list \<Rightarrow> bool" where
  "answers_pings start period delay es \<longleftrightarrow>
     (\<forall>pre now ev post k. es = pre @ (now, ev) # post \<longrightarrow> 1 \<le> k \<longrightarrow> start + k * period + delay \<le> now \<longrightarrow>
        (\<exists>t. (t, NetPong) \<in> set pre \<and> start + k * period \<le> t))"

lemma answered_timer:
  assumes "answers_pings start period delay es" "0 < period" "period + delay \<le> sint wait"
    and "sorted (map fst es)" "\<forall>(now, ev) \<in> set es. start \<le> now \<and> harmless limit ev"
  shows "timer limit wait es (time_Add start wait) \<noteq> None"
proof (rule timer_goes_on [OF assms(4)])
  show "\<forall>(now, ev) \<in> set es. harmless limit ev"
    "\<forall>(now, ev) \<in> set es. time_Add start wait \<le> time_Add now wait"
    using assms(5) by (auto simp: time_Add_def)
  show "\<forall>pre now ev post. es = pre @ (now, ev) # post \<longrightarrow>
      now < time_Add start wait \<or> (\<exists>t. (t, NetPong) \<in> set pre \<and> now < time_Add t wait)"
  proof (intro allI impI)
    fix pre now ev post
    assume es: "es = pre @ (now, ev) # post"
    define k where "k = (now - start - delay) div period"
    have "now - start - delay = k * period + (now - start - delay) mod period" by (simp add: k_def)
    moreover have "0 \<le> (now - start - delay) mod period" "(now - start - delay) mod period < period"
      using assms(2) by simp_all
    ultimately have lo: "k * period \<le> now - start - delay" and hi: "now - start - delay < (k + 1) * period"
      by (linarith, unfold distrib_right mult_1, linarith)
    show "now < time_Add start wait \<or> (\<exists>t. (t, NetPong) \<in> set pre \<and> now < time_Add t wait)"
    proof (cases "1 \<le> k")
      case True
      moreover have "start + k * period + delay \<le> now" using lo by linarith
      ultimately obtain t where t: "(t, NetPong) \<in> set pre" "start + k * period \<le> t"
        using assms(1) es unfolding answers_pings_def by blast
      have "now < time_Add t wait" using t(2) hi assms(3) unfolding time_Add_def distrib_right mult_1 by linarith
      with t(1) show ?thesis by blast
    next
      case False
      then have "(k + 1) * period \<le> 1 * period" using assms(2) by (intro mult_right_mono) simp_all
      with hi assms(3) have "now < start + sint wait" unfolding mult_1 by linarith
      then show ?thesis by (simp add: time_Add_def)
    qed
  qed
qed

section \<open>A library in a pair\<close>

text \<open>The deadline and the limit; the loop of \<open>ReadMessage\<close> is one case distinction.\<close>

definition pair_ws :: "(time \<times> int64) ws_lib" where
  "pair_ws =
     \<lparr>wl_SetReadLimit = (\<lambda>n c. (fst c, n)), wl_SetReadDeadline = (\<lambda>t c. (t, snd c)),
      wl_Read = (\<lambda>h now ev c.
        if fst c \<le> now then (Some (Err (ErrMsg ''i/o timeout'')), c)
        else case ev of
            NetData raw \<Rightarrow> (Some (if fits (snd c) raw then Ok raw else Err (ErrMsg ''read limit exceeded'')), c)
          | NetPong \<Rightarrow> (None, h now c)
          | NetFail e \<Rightarrow> (Some (Err e), c))\<rparr>"

interpretation pair_conn: ws_conn pair_ws fst snd
  by unfold_locales (auto simp: pair_ws_def)

lemma pair_ws_conn: "ws_conn pair_ws fst snd"
  by (rule pair_conn.ws_conn_axioms)

section \<open>Properties of the read loop\<close>

text \<open>
  C21. A connection whose peer answers the pings is never dropped by its read deadline: when the
  ping period is positive and a pong comes at most \<open>delay\<close> after each ping, where the period and
  the delay together do not exceed the pong wait, the read loop is still running after any
  sequence of frames within the size limit, and nothing panicked.
\<close>

theorem keepalive_lives:
  assumes "ws_conn L deadline read_limit" "persist_ok s" "client_open (sv_heap s p)"
    and "\<forall>a \<in> set as. steady p (ar_others a)" "cl_cfg (sv_heap s p) = cfg"
    and "answers_pings start (sint (PingPeriod cfg)) delay (arrivals as)"
    and "0 < sint (PingPeriod cfg)" "sint (PingPeriod cfg) + delay \<le> sint (PongWait cfg)"
    and "sorted (map fst (arrivals as))"
    and "\<forall>(now, ev) \<in> set (arrivals as). start \<le> now \<and> harmless (MaxMessageSize cfg) ev"
  shows "\<exists>c' s'. readPump D L p start as c s = Some (True, c', s')"
  using ws_conn.readPump_timer [OF assms(1-5), of D start c] answered_timer [OF assms(6-10)] by simp

text \<open>
  C22. A peer that sends no pong is dropped: whatever else it sends, its messages and its
  application-level pings included, the loop has returned as soon as anything arrives at or
  after the pong wait.
\<close>

theorem silent_peer_dropped:
  assumes "ws_conn L deadline read_limit" "persist_ok s" "client_open (sv_heap s p)"
    and "\<forall>a \<in> set as. steady p (ar_others a)" "cl_cfg (sv_heap s p) = cfg"
    and "\<forall>(now, ev) \<in> set (arrivals as). ev \<noteq> NetPong"
    and "\<exists>(now, ev) \<in> set (arrivals as). time_Add start (PongWait cfg) \<le> now"
  shows "\<exists>c' s'. readPump D L p start as c s = Some (False, c', s')"
proof -
  have "timer (MaxMessageSize cfg) (PongWait cfg) (arrivals as) (time_Add start (PongWait cfg)) = None"
    using timer_pongless [OF assms(6)] assms(7) by fastforce
  with ws_conn.readPump_timer [OF assms(1-5), of D start c] show ?thesis by simp
qed

text \<open>Frames on the demo connection, with the default times: 60 seconds of wait, 50 between pings.\<close>

definition demo_ping :: string where
  "demo_ping = marshal_inbound \<lparr>in_Type = ''ping'', in_Content = []\<rparr>"

definition demo_arrival :: "int \<Rightarrow> net_event \<Rightarrow> ('b, 'h, 'l, 'r) arrival" where
  "demo_arrival sec ev = \<lparr>ar_now = sec * ns_per_s, ar_newID = ''id-1'', ar_event = ev, ar_others = (\<lambda>s. s)\<rparr>"

lemma demo_arrivals: "arrivals (demo_arrival t ev # as) = (t * ns_per_s, ev) # arrivals as" "arrivals [] = []"
  by (simp_all add: arrivals_def demo_arrival_def)

lemma demo_connection:
  "client_open (sv_heap demo_service (Ptr 1))" "cl_cfg (sv_heap demo_service (Ptr 1)) = demo_cfg"
  "\<forall>a \<in> set [demo_arrival t x, demo_arrival t' x']. steady p (ar_others a)"
  by (simp_all add: demo_service_sel demo_heap_open steady_def demo_arrival_def)
    (simp add: demo_heap_def NewClient_def)

lemma demo_times: "sint (PingPeriod demo_cfg) = 50000000000" "sint (PongWait demo_cfg) = 60000000000"
  by (simp_all add: demo_cfg_def)

lemma demo_answers:
  "answers_pings 0 (50 * ns_per_s) (10 * ns_per_s) [(51 * ns_per_s, NetPong), (100 * ns_per_s, ev)]"
  unfolding answers_pings_def by (auto simp: ns_per_s_def Cons_eq_append_conv) presburger

theorem keepalive_lives_witness:
  "\<exists>c' s'. readPump demo_deps pair_ws (Ptr 1) 0 [demo_arrival 51 NetPong, demo_arrival 100 (NetData ''{}'')] (0, 0)
     demo_service = Some (True, c', s')"
  by (rule keepalive_lives [OF pair_ws_conn persist_service_ok demo_connection(1) demo_connection(3,2),
        where delay = "10 * ns_per_s"])
    (use demo_answers in \<open>simp_all add: demo_arrivals demo_times ns_per_s_def harmless_def fits_def demo_cfg_def\<close>)

theorem silent_peer_dropped_witness:
  "\<exists>c' s'. readPump demo_deps pair_ws (Ptr 1) 0
     [demo_arrival 30 (NetData demo_ping), demo_arrival 70 (NetData demo_ping)] (0, 0) demo_service =
   Some (False, c', s')"
  by (rule silent_peer_dropped [OF pair_ws_conn persist_service_ok demo_connection(1) demo_connection(3,2)])
    (simp_all add: demo_arrivals time_Add_def demo_times ns_per_s_def)

end
