(* ===== verification/Node_Run.thy ===== *)
theory Node_Run
  imports System Service_Run
begin

text \<open>
  The node from its start to its exit: the interleaving of all goroutines (theory System) together
  with the goroutine of \<open>main\<close> after the signal, which shuts the connections down, closes the
  service, and closes it once more in a deferred call. Whatever the other goroutines do in
  between, every message that ever entered the persistence queue is saved.
\<close>

section \<open>The persistence in a step\<close>

definition persistence_of ::
    "('b, 'h, 'l, 'r) service \<Rightarrow> danmaku chan \<times> bool \<times> bool \<times> worker \<times> 'r" where
  "persistence_of s =
     (sv_persistCh s, sv_persistClosed s, sv_closeOnce s, sv_worker s, sv_repo s)"

text \<open>The messages a step appended to the queue.\<close>

definition queued ::
    "('b, 'h, 'l, 'r) service \<Rightarrow> ('b, 'h, 'l, 'r) service \<Rightarrow> danmaku list" where
  "queued s s' = drop (length (chan_buf (sv_persistCh s))) (chan_buf (sv_persistCh s'))"

lemma queued_same: "persistence_of s' = persistence_of s \<Longrightarrow> queued s s' = []"
  by (simp add: persistence_of_def queued_def)

lemma run_inv_core:
  assumes "run_inv n k acc s" "persistence_of s' = persistence_of s" "broker_inv k' (sv_broker s')"
  shows "run_inv n k' (acc @ queued s s') s'"
proof -
  have "run_inv n k' acc s'"
    by (rule run_inv_cong [OF assms(1)]) (use assms(2,3) in \<open>simp_all add: persistence_of_def\<close>)
  then show ?thesis by (simp add: queued_same [OF assms(2)])
qed

lemma Send_queued:
  assumes "persist_ok s" "Send D newID now req s = Some (res, s')"
  shows "newly_accepted D (SendEv newID now req) s = queued s s'"
    and "persist_ok s'" "sv_worker s' = sv_worker s" "sv_repo s' = sv_repo s"
proof -
  obtain lerr s1 perr b where c: "checkLimit D req s = (lerr, s1)"
    and p: "Publish (dep_broker D) (sent_message newID now req s) (sv_broker s) = (perr, b)" by fastforce
  from Send_total [OF assms(1) refl c p] assms(2)
  show "newly_accepted D (SendEv newID now req) s = queued s s'"
    "persist_ok s'" "sv_worker s' = sv_worker s" "sv_repo s' = sv_repo s"
    by (auto simp: newly_accepted_def queued_def split: option.splits)
qed

text \<open>What reading a frame does to the persistence: nothing, or what \<open>Send\<close> does.\<close>

lemma read_message_core:
  assumes "read_message D newID now p raw s = Some s'"
  obtains (idle) "persistence_of s' = persistence_of s" "sv_broker s' = sv_broker s"
    | (sends) req res s1 where "Send D newID now req s = Some (res, s1)"
      "persistence_of s' = persistence_of s1" "sv_broker s' = sv_broker s1"
proof (cases "unmarshal_inbound raw")
  case (Inl e)
  with assms idle show thesis by (auto simp: read_message_def reply_def persistence_of_def)
next
  case (Inr i)
  show thesis
  proof (cases "in_Type i = ''danmaku''")
    case True
    let ?req = "client_request (in_Content i) (sv_heap s p)"
    from assms True Inr obtain res s1 where s1: "Send D newID now ?req s = Some (res, s1)"
      and s': "s' = (case res of Inl err \<Rightarrow> reply p (error_reply (error_text err)) s1 | Inr msg \<Rightarrow> s1)"
      by (auto simp: read_message_def split: option.splits sum.splits)
    then show thesis
      by (intro sends [OF s1]) (simp_all add: reply_def persistence_of_def split: sum.split)
  next
    case False
    with assms Inr idle show thesis
      by (auto simp: read_message_def reply_def persistence_of_def split: if_splits)
  qed
qed

lemma run_inv_read:
  assumes broker: "dep_broker D = redis_broker_ops P zone order" and inv: "run_inv n k acc s"
    and read: "read_message D newID now p raw s = Some s'"
  shows "run_inv n k (acc @ queued s s') s'"
proof (cases rule: read_message_core [OF read])
  case 1
  with inv show ?thesis by (intro run_inv_core [OF inv]) (simp_all add: run_inv_def)
next
  case (2 req res s1)
  have ok: "persist_ok s" using inv by (simp add: run_inv_def kept_def)
  from run_inv_send [OF broker inv 2(1)] Send_queued(1) [OF ok 2(1)]
  have s1: "run_inv n k (acc @ queued s s1) s1" by simp
  have "queued s s1 = queued s s'" using 2(2) by (simp add: queued_def persistence_of_def)
  with run_inv_core [OF s1 2(2), of k] queued_same [OF 2(2)] s1 2(3) show ?thesis
    by (simp add: run_inv_def)
qed

text \<open>The other steps of a connection leave the persistence alone.\<close>

lemma release_finish_core:
  "release_finish D h s = (err, s') \<Longrightarrow> persistence_of s' = persistence_of s"
  by (auto simp: release_finish_def persistence_of_def split: prod.splits)

lemma serve_core:
  assumes "serve_step D p S S'"
  obtains (quiet) "persistence_of (sy_srv S') = persistence_of (sy_srv S)"
    | (reads) newID now raw where "read_message D newID now p raw (sy_srv S) = Some (sy_srv S')"
  using assms
proof cases
  case (acquires s)
  with Acquire_table [OF acquires(3)] quiet show thesis by (auto simp: persistence_of_def)
next
  case (acquire_error e s)
  with Acquire_table [OF acquire_error(3)] quiet show thesis by (auto simp: persistence_of_def)
next
  case (reads newID now raw s)
  with that(2) show thesis by simp
next
  case (releases u s)
  with release_begin_table [OF releases(3)] quiet show thesis by (auto simp: persistence_of_def)
next
  case (unsubscribes_room h err s)
  with release_finish_core [OF unsubscribes_room(3)] quiet show thesis by simp
qed (use quiet in \<open>simp_all add: persistence_of_def heap_upd_def with_metrics_def\<close>)

text \<open>The subscriptions of the broker grow by at most one.\<close>

lemma serve_broker:
  assumes broker: "dep_broker D = redis_broker_ops P zone order"
    and inv: "run_inv n k acc (sy_srv S)" and k: "k < 2 ^ 64 - 1"
    and step: "serve_step D p S S'" and quiet: "persistence_of (sy_srv S') = persistence_of (sy_srv S)"
  shows "run_inv n (Suc k) (acc @ queued (sy_srv S) (sy_srv S')) (sy_srv S')"
proof -
  have b: "broker_inv k (sv_broker (sy_srv S))" using inv by (simp add: run_inv_def)
  have same: ?thesis if "sv_broker (sy_srv S') = sv_broker (sy_srv S)"
    using run_inv_core [OF inv quiet] broker_inv_mono [OF b] that by simp
  show ?thesis using step
  proof cases
    case (acquires s)
    with run_inv_acquire [OF broker inv k, of "cl_RoomID (sv_heap (sy_srv S) p)"]
    show ?thesis using queued_same [OF quiet] by simp
  next
    case (acquire_error e s)
    with run_inv_acquire [OF broker inv k, of "cl_RoomID (sv_heap (sy_srv S) p)"]
    show ?thesis using queued_same [OF quiet] by simp
  next
    case (reads newID now raw s)
    from run_inv_read [OF broker inv reads(3)] reads(1) show ?thesis
      by (simp add: run_inv_mono)
  next
    case (releases u s)
    with release_begin_table [OF releases(3)] same show ?thesis by auto
  next
    case (unsubscribes_room h err s)
    obtain e b' where un: "redis_Unsubscribe P h (sv_broker (sy_srv S)) = (e, b')" by fastforce
    have "sv_broker s = b'"
      using unsubscribes_room(3) un by (auto simp: release_finish_def broker redis_broker_ops_def)
    with broker_inv_mono [OF broker_inv_Unsubscribe [OF b un]] unsubscribes_room(1)
      run_inv_core [OF inv quiet] show ?thesis by simp
  qed (use same in \<open>simp_all add: heap_upd_def with_metrics_def\<close>)
qed

lemma run_inv_serve:
  assumes "dep_broker D = redis_broker_ops P zone order"
    and "run_inv n k acc (sy_srv S)" "k < 2 ^ 64 - 1" "serve_step D p S S'"
  shows "run_inv n (Suc k) (acc @ queued (sy_srv S) (sy_srv S')) (sy_srv S')"
proof (cases rule: serve_core [OF assms(4)])
  case 1
  with serve_broker [OF assms] show ?thesis by simp
next
  case (2 newID now raw)
  from run_inv_mono [OF run_inv_read [OF assms(1,2) 2]] show ?thesis .
qed

lemma run_inv_other:
  assumes broker: "dep_broker D = redis_broker_ops P zone order" and rec: "dep_SaveBatch D = recording save"
    and inv: "run_inv n k acc (sy_srv S)" and step: "other_step D S S'"
  shows "run_inv n k acc (sy_srv S')"
proof -
  have b: "broker_inv k (sv_broker (sy_srv S))" using inv by (simp add: run_inv_def)
  have same: ?thesis if "persistence_of (sy_srv S') = persistence_of (sy_srv S)"
      "sv_broker (sy_srv S') = sv_broker (sy_srv S)"
    using run_inv_core [OF inv that(1), of k] b that(2) queued_same [OF that(1)] by simp
  show ?thesis using step
  proof cases
    case (broadcasts order r m n)
    then show ?thesis
      by (intro same) (simp_all add: handle_broadcast_def persistence_of_def with_metrics_def split: prod.split)
  next
    case ticks
    with inv kept_flush [OF rec, of n acc "sy_srv S"] show ?thesis
      by (simp add: run_inv_def worker_tick_def flush_worker split: worker.split)
  next
    case receives
    with inv kept_receive [OF rec, of n acc "sy_srv S"] show ?thesis
      by (simp add: run_inv_def worker_started_receive)
  qed (rule same; simp add: persistence_of_def heap_upd_def)+
qed

section \<open>After the service was closed\<close>

definition closed_inv ::
    "danmaku list \<Rightarrow> ('b, 'h, 'l, danmaku list list \<times> 'r) service \<Rightarrow> bool" where
  "closed_inv acc s \<longleftrightarrow> persist_ok s \<and> sv_worker s = Finished \<and> concat (save_calls s) = acc"

lemma closed_inv_core:
  assumes "closed_inv acc s" "persist_ok s'" "sv_worker s' = sv_worker s" "sv_repo s' = sv_repo s"
  shows "closed_inv (acc @ queued s s') s'"
proof -
  have "chan_buf (sv_persistCh s') = []"
    using assms(1-3) by (simp add: closed_inv_def persist_ok_def [of s'])
  with assms show ?thesis by (simp add: closed_inv_def save_calls_def queued_def)
qed

lemma persist_ok_core: "persistence_of s' = persistence_of s \<Longrightarrow> persist_ok s' = persist_ok s"
  by (simp add: persist_ok_def persistence_of_def split: worker.split)

lemma closed_inv_quiet:
  "closed_inv acc s \<Longrightarrow> persistence_of s' = persistence_of s \<Longrightarrow> closed_inv (acc @ queued s s') s'"
  using persist_ok_core [of s' s] closed_inv_core [of acc s s']
  by (simp add: closed_inv_def persistence_of_def)

lemma closed_inv_serve:
  assumes "closed_inv acc (sy_srv S)" "serve_step D p S S'"
  shows "closed_inv (acc @ queued (sy_srv S) (sy_srv S')) (sy_srv S')"
proof (cases rule: serve_core [OF assms(2)])
  case 1
  with closed_inv_quiet [OF assms(1)] show ?thesis .
next
  case (2 newID now raw)
  have ok: "persist_ok (sy_srv S)" using assms(1) by (simp add: closed_inv_def)
  show ?thesis
  proof (cases rule: read_message_core [OF 2])
    case 1
    with closed_inv_quiet [OF assms(1)] show ?thesis by simp
  next
    case (2 req res s1)
    note s1 = Send_queued(2-4) [OF ok 2(1)]
    show ?thesis
      by (rule closed_inv_core [OF assms(1)])
        (use s1 2(2) persist_ok_core [OF 2(2)] in \<open>simp_all add: persistence_of_def\<close>)
  qed
qed

lemma closed_inv_other:
  assumes "closed_inv acc (sy_srv S)" "other_step D S S'"
  shows "closed_inv acc (sy_srv S')"
proof -
  have w: "sv_worker (sy_srv S) = Finished" using assms(1) by (simp add: closed_inv_def)
  have "persistence_of (sy_srv S') = persistence_of (sy_srv S)" using assms(2)
  proof cases
    case (broadcasts order r m n)
    then show ?thesis
      by (simp add: handle_broadcast_def persistence_of_def with_metrics_def split: prod.split)
  qed (use w in \<open>simp_all add: persistence_of_def heap_upd_def worker_tick_def flush_def worker_receive_def\<close>)
  with closed_inv_quiet [OF assms(1)] queued_same show ?thesis by fastforce
qed

section \<open>The goroutine of main\<close>

text \<open>
  What is left to do once the signal has arrived: the clients that \<open>Shutdown\<close> copied are closed
  one after the other; it waits for the handlers or for its context to end, which gives its
  result; \<open>srv.Shutdown\<close> gives a result of its own; the service is closed; and when \<open>main\<close> returns
  its deferred call closes it again. When \<open>ListenAndServe\<close> fails its goroutine ends the process at
  once, and no deferred call of \<open>main\<close> runs; neither does one when a write loop panics.
\<close>

datatype main_phase =
  Running_Server
| Closing_Clients "ptr list"
| Closing_Http "go_error option"
| Closing_Service "go_error option"
| Returning "go_error option"
| Exited "go_error option" "go_error option"
| Fatal_Exit go_error

definition before_close :: "main_phase \<Rightarrow> bool" where
  "before_close ph \<longleftrightarrow>
     (case ph of Returning _ \<Rightarrow> False | Exited _ _ \<Rightarrow> False | Fatal_Exit _ \<Rightarrow> False | _ \<Rightarrow> True)"

definition orderly :: "main_phase \<Rightarrow> bool" where
  "orderly ph \<longleftrightarrow> (case ph of Fatal_Exit _ \<Rightarrow> False | _ \<Rightarrow> True)"

lemma before_close_simps [simp]:
  "before_close Running_Server" "before_close (Closing_Clients ps)" "before_close (Closing_Http e)"
  "before_close (Closing_Service e)" "\<not> before_close (Returning e)" "\<not> before_close (Exited e e')"
  "\<not> before_close (Fatal_Exit f)"
  "orderly Running_Server" "orderly (Closing_Clients ps)" "orderly (Closing_Http e)"
  "orderly (Closing_Service e)" "orderly (Returning e)" "orderly (Exited e e')" "\<not> orderly (Fatal_Exit f)"
  by (simp_all add: before_close_def orderly_def)

text \<open>
  The error that ends the process: any that \<open>ListenAndServe\<close> returns, except the one that
  \<open>errors.Is\<close> recognises as the closed server.
\<close>

definition http_failure :: "(go_error \<Rightarrow> bool) \<Rightarrow> go_error option \<Rightarrow> go_error option" where
  "http_failure is_closed res =
     (case res of None \<Rightarrow> None | Some e \<Rightarrow> if is_closed e then None else Some e)"

text \<open>
  A run of the node: the phase of \<open>main\<close>, the number of steps of connections, the messages that
  entered the persistence queue, and the state. \<open>A\<close> holds of the clients that \<open>ServeWS\<close> may
  create; \<open>order\<close> and \<open>corder\<close> are the orders in which the registry and the table of
  subscriptions are visited. No goroutine runs once the process has ended.
\<close>

definition alive :: "main_phase \<Rightarrow> bool" where
  "alive ph \<longleftrightarrow> (case ph of Exited _ _ \<Rightarrow> False | Fatal_Exit _ \<Rightarrow> False | _ \<Rightarrow> True)"

lemma alive_orderly: "alive ph \<Longrightarrow> orderly ph"
  by (simp add: alive_def orderly_def split: main_phase.splits)

definition admits :: "(client \<Rightarrow> bool) \<Rightarrow> ('b, 'h, 'l, 'r) system \<Rightarrow> ('b, 'h, 'l, 'r) system \<Rightarrow> bool" where
  "admits A S S' \<longleftrightarrow>
     (\<forall>p. sy_phase S p = NoConn \<longrightarrow> sy_phase S' p \<noteq> NoConn \<longrightarrow> A (sv_heap (sy_srv S') p))"

inductive main_run ::
    "('b, 'h, 'l, 'r) deps \<Rightarrow> (client \<Rightarrow> bool) \<Rightarrow> (ptr set \<Rightarrow> ptr list) \<Rightarrow> (string set \<Rightarrow> string list) \<Rightarrow>
     ('b, 'h, 'l, 'r) service \<Rightarrow> main_phase \<Rightarrow> nat \<Rightarrow> danmaku list \<Rightarrow> ('b, 'h, 'l, 'r) system \<Rightarrow> bool"
  for D A order corder s0 where
  starts: "main_run D A order corder s0 Running_Server 0 [] (initial s0)"
| serves: "main_run D A order corder s0 ph (Suc k) (acc @ queued (sy_srv S) (sy_srv S')) S'"
    if "main_run D A order corder s0 ph k acc S" "alive ph" "serve_step D p S S'" "admits A S S'"
| others: "main_run D A order corder s0 ph k acc S'"
    if "main_run D A order corder s0 ph k acc S" "alive ph" "other_step D S S'"
| signal: "main_run D A order corder s0 (Closing_Clients ps) k acc (S\<lparr>sy_ws := w\<rparr>)"
    if "main_run D A order corder s0 Running_Server k acc S" "shutdown_begin order (sy_ws S) = (ps, w)"
| client_closed: "main_run D A order corder s0 (Closing_Clients ps) k acc
      (S\<lparr>sy_srv := heap_upd p (snd (client_Close ce (sv_heap (sy_srv S) p))) (sy_srv S)\<rparr>)"
    if "main_run D A order corder s0 (Closing_Clients (p # ps)) k acc S"
| waited: "main_run D A order corder s0 (Closing_Http err) k acc S"
    if "main_run D A order corder s0 (Closing_Clients []) k acc S"
      "shutdown_wait ctx_err (sy_ws S) = Some err"
| http_closed: "main_run D A order corder s0 (Closing_Service err) k acc S"
    if "main_run D A order corder s0 (Closing_Http err) k acc S"
| service_closed: "main_run D A order corder s0 (Returning err) k acc (S\<lparr>sy_srv := s\<rparr>)"
    if "main_run D A order corder s0 (Closing_Service err) k acc S" "Close D corder (sy_srv S) = Some (e, s)"
| exits: "main_run D A order corder s0 (Exited err e) k acc (S\<lparr>sy_srv := s\<rparr>)"
    if "main_run D A order corder s0 (Returning err) k acc S" "Close D corder (sy_srv S) = Some (e, s)"
| listen_fails: "main_run D A order corder s0 (Fatal_Exit f) k acc S"
    if "main_run D A order corder s0 ph k acc S" "alive ph" "http_failure is_closed res = Some f"
| ticker_panics: "main_run D A order corder s0 (Fatal_Exit (ErrMsg ''non-positive interval for NewTicker'')) k acc S"
    if "main_run D A order corder s0 ph k acc S" "alive ph" "sy_phase S p = Serving"
      "writePump_begin (sv_heap (sy_srv S) p) = None"

text \<open>Until the service is closed such a run is an interleaving of theory System.\<close>

lemma main_run_reach:
  "main_run D A order corder s0 ph k acc S \<Longrightarrow> before_close ph \<Longrightarrow> system_reach D s0 S"
proof (induction rule: main_run.induct)
  case starts
  show ?case by (rule reach_init)
next
  case (serves ph k acc S p S')
  then show ?case by (blast intro: reach_serve)
next
  case (others ph k acc S S')
  then show ?case by (blast intro: reach_other)
next
  case (signal k acc S ps w)
  have "S\<lparr>sy_ws := w\<rparr> = S\<lparr>sy_ws := snd (shutdown_begin order (sy_ws S))\<rparr>" using signal(2) by simp
  with signal.IH show ?case by (auto intro: reach_other [OF _ shuts_down])
next
  case (client_closed p ps k acc S ce)
  then show ?case by (auto intro: reach_other [OF _ closed_by_other])
qed simp_all

lemma Close_closed:
  assumes "dep_broker D = redis_broker_ops P zone border" "dep_SaveBatch D = recording save"
    and "map_range border" "run_inv n k acc s" "Close D order s = Some (err, s')"
  shows "closed_inv acc s'" "sub_live (sv_broker s') = Map.empty" "sv_subscriptions s' = Map.empty"
  using Close_open [OF assms(1-4), of order] assms(5) by (auto simp: closed_inv_def)

lemma main_run_inv:
  assumes broker: "dep_broker D = redis_broker_ops P zone border" and rec: "dep_SaveBatch D = recording save"
    and border: "map_range border" and init: "run_inv n 0 [] s0"
  shows "main_run D A order corder s0 ph k acc S \<Longrightarrow> k < 2 ^ 64 \<Longrightarrow> orderly ph \<Longrightarrow>
    (if before_close ph then run_inv n k acc (sy_srv S) else closed_inv acc (sy_srv S))"
proof (induction rule: main_run.induct)
  case starts
  with init show ?case by (simp add: initial_def)
next
  case (serves ph k acc S p S')
  with run_inv_serve [OF broker _ _ serves(3)] closed_inv_serve [OF _ serves(3)] show ?case
    by (auto split: if_splits)
next
  case (others ph k acc S S')
  with run_inv_other [OF broker rec _ others(3)] closed_inv_other [OF _ others(3)] show ?case
    by (auto split: if_splits)
next
  case (client_closed p ps k acc S ce)
  with run_inv_other [OF broker rec _ closed_by_other] show ?case by simp
next
  case (service_closed err k acc S e s)
  with Close_closed(1) [OF broker rec border _ service_closed(2)] show ?case by simp
next
  case (exits err k acc S e s)
  then have "sv_closeOnce (sy_srv S)" by (auto simp: closed_inv_def persist_ok_def)
  with exits Close_again [of "sy_srv S" D corder] show ?case by simp
qed simp_all


section \<open>After the last handler\<close>

text \<open>
  When \<open>Shutdown\<close> has returned no error, no connection is registered, none can be any more, and
  nothing of the connections is left in the hub, in the table and in the broker.
\<close>

definition quiet :: "(('c, 'p) redis_broker, ptr, 'l, 'r) system \<Rightarrow> bool" where
  "quiet S \<longleftrightarrow>
     ws_closing (sy_ws S) \<and> (\<forall>p. \<not> registered (sy_phase S p)) \<and>
     hub_rooms (sv_hub (sy_srv S)) = Map.empty \<and> sv_subscriptions (sy_srv S) = Map.empty \<and>
     sub_live (sv_broker (sy_srv S)) = Map.empty"

lemma quiet_serve:
  assumes "quiet S" "serve_step D p S S'"
  shows "quiet S'"
proof -
  from assms(1) have p: "\<not> registered (sy_phase S p)" by (simp add: quiet_def)
  show ?thesis using assms(2)
  proof cases
    case (register ws)
    with assms(1) show ?thesis by (simp add: quiet_def registerClient_def)
  qed (use assms(1) p in \<open>simp_all add: quiet_def heap_upd_def\<close>)
qed

lemma quiet_other: "quiet S \<Longrightarrow> other_step D S S' \<Longrightarrow> quiet S'"
  by (erule other_step.cases)
    (simp_all add: quiet_def heap_upd_def handle_broadcast_def worker_tick_def shutdown_begin_def
      split: prod.split)

lemma Close_hub: "Close D order s = Some (e, s') \<Longrightarrow> sv_hub s' = sv_hub s"
  by (auto simp: Close_def close_persistence_def Let_def split: if_splits option.splits prod.splits)

text \<open>The phases at which \<open>Shutdown\<close> has returned no error.\<close>

definition drained :: "main_phase \<Rightarrow> bool" where
  "drained ph \<longleftrightarrow> (case ph of Closing_Http e \<Rightarrow> e = None | Closing_Service e \<Rightarrow> e = None
     | Returning e \<Rightarrow> e = None | Exited e e' \<Rightarrow> e = None | _ \<Rightarrow> False)"

definition shutting_down :: "main_phase \<Rightarrow> bool" where
  "shutting_down ph \<longleftrightarrow> orderly ph \<and> ph \<noteq> Running_Server"

lemma shutdown_flag: "main_run D A order corder s0 ph k acc S \<Longrightarrow> shutting_down ph \<Longrightarrow> ws_closing (sy_ws S)"
proof (induction rule: main_run.induct)
  case (serves ph k acc S p S')
  with no_connection_after_shutdown [OF serves(3)] show ?case by simp
next
  case (others ph k acc S S')
  then show ?case by (auto simp: shutdown_begin_def elim!: other_step.cases)
qed (auto simp: shutting_down_def shutdown_begin_def)

lemma main_run_quiet:
  assumes broker: "dep_broker D = redis_broker_ops P zone border" and rec: "dep_SaveBatch D = recording save"
    and border: "map_range border" and init: "run_inv n 0 [] s0" and fresh: "fresh_node s0"
  shows "main_run D A order corder s0 ph k acc S \<Longrightarrow> k < 2 ^ 64 \<Longrightarrow> drained ph \<Longrightarrow> quiet S"
proof (induction rule: main_run.induct)
  case (serves ph k acc S p S')
  then show ?case by (auto intro: quiet_serve)
next
  case (others ph k acc S S')
  then show ?case by (auto intro: quiet_other)
next
  case (waited k acc S ctx_err err)
  from waited.prems(2) have err: "err = None" by (simp add: drained_def)
  have reach: "system_reach D s0 S" using main_run_reach [OF waited(1)] by simp
  note I = system_invD [OF redis_node_inv [OF broker fresh reach]]
  from waited(2) err have "ws_active (sy_ws S) = 0" by (auto simp: shutdown_wait_def split: if_splits option.splits)
  with I(4) have "conns registered S = {}" by (auto simp: registry_inv_def handler_ok_def)
  then have none: "\<forall>p. \<not> registered (sy_phase S p)" by (auto simp: conns_def)
  from shutdown_flag [OF waited(1)] unregistered_leave_nothing [OF broker fresh reach none] none
  show ?case by (simp add: quiet_def shutting_down_def)
next
  case (service_closed err k acc S e s)
  then have "quiet S" by (simp add: drained_def)
  moreover have "run_inv n k acc (sy_srv S)"
    using main_run_inv [OF broker rec border init service_closed(1)] service_closed.prems(1) by simp
  ultimately show ?case
    using Close_closed [OF broker rec border _ service_closed(2)] Close_hub [OF service_closed(2)]
    by (simp add: quiet_def)
next
  case (exits err k acc S e s)
  then have "quiet S" by (simp add: drained_def)
  moreover have "sv_closeOnce (sy_srv S)"
    using main_run_inv [OF broker rec border init exits(1)] exits.prems(1)
    by (auto simp: closed_inv_def persist_ok_def)
  ultimately show ?case using Close_again [of "sy_srv S" D corder] exits(2) by (simp add: quiet_def)
qed (simp_all add: drained_def)

section \<open>Whose messages\<close>

text \<open>
  The user and the room of a client do not change once its connection was created, and what a
  connection adds to the queue carries them.
\<close>

definition speaker :: "client \<Rightarrow> string \<times> string" where
  "speaker c = (cl_UserID c, cl_RoomID c)"

definition author :: "danmaku \<Rightarrow> string \<times> string" where
  "author d = (dm_UserID d, dm_RoomID d)"

lemma speaker_upd [simp]:
  "speaker (snd (client_Close e c)) = speaker c" "speaker (snd (Enqueue m c)) = speaker c"
  "speaker (c\<lparr>cl_send := ch\<rparr>) = speaker c"
  by (simp_all add: speaker_def client_Close_def Enqueue_other)

lemma speaker_reply [simp]: "speaker (sv_heap (reply p m s) q) = speaker (sv_heap s q)"
  by (simp add: reply_def)

lemma Send_adds:
  assumes "persist_ok s" "Send D newID now req s = Some (res, s')"
  shows "sv_heap s' = sv_heap s" "set (queued s s') \<subseteq> {danmaku_of (sent_message newID now req s)}"
proof -
  obtain lerr s1 perr b where c: "checkLimit D req s = (lerr, s1)"
    and p: "Publish (dep_broker D) (sent_message newID now req s) (sv_broker s) = (perr, b)" by fastforce
  from Send_total [OF assms(1) refl c p] assms(2)
  show "sv_heap s' = sv_heap s" "set (queued s s') \<subseteq> {danmaku_of (sent_message newID now req s)}"
    by (auto simp: queued_def)
qed

lemma read_message_speaker:
  assumes "persist_ok s" "read_message D newID now p raw s = Some s'"
  shows "speaker (sv_heap s' q) = speaker (sv_heap s q)"
    "d \<in> set (queued s s') \<Longrightarrow> author d = speaker (sv_heap s p)"
proof -
  have "speaker (sv_heap s' q) = speaker (sv_heap s q) \<and>
    (\<forall>d \<in> set (queued s s'). author d = speaker (sv_heap s p))"
  proof (cases "\<exists>i. unmarshal_inbound raw = Inr i \<and> in_Type i = ''danmaku''")
    case False
    with assms(2) show ?thesis
      by (auto simp: read_message_def reply_def queued_def split: sum.splits if_splits)
  next
    case True
    then obtain i where i: "unmarshal_inbound raw = Inr i" "in_Type i = ''danmaku''" by blast
    let ?req = "client_request (in_Content i) (sv_heap s p)"
    obtain res s2 where s2: "Send D newID now ?req s = Some (res, s2)"
      using assms(2) i by (auto simp: read_message_def split: option.splits)
    note adds = Send_adds [OF assms(1) s2]
    have s': "s' = (case res of Inl err \<Rightarrow> reply p (error_reply (error_text err)) s2 | Inr msg \<Rightarrow> s2)"
      using assms(2) i s2 by (auto simp: read_message_def split: sum.splits)
    have "author (danmaku_of (sent_message newID now ?req s)) = speaker (sv_heap s p)"
      by (simp add: author_def speaker_def danmaku_of_def sent_message_def client_request_def)
    moreover have "queued s s' = queued s s2" by (simp add: s' queued_def reply_def split: sum.split)
    ultimately show ?thesis using adds by (auto simp: s' split: sum.split)
  qed
  then show "speaker (sv_heap s' q) = speaker (sv_heap s q)"
    "d \<in> set (queued s s') \<Longrightarrow> author d = speaker (sv_heap s p)" by auto
qed

definition authentic :: "(client \<Rightarrow> bool) \<Rightarrow> danmaku list \<Rightarrow> ('b, 'h, 'l, 'r) system \<Rightarrow> bool" where
  "authentic A acc S \<longleftrightarrow>
     (\<forall>p. sy_phase S p \<noteq> NoConn \<longrightarrow> speaker (sv_heap (sy_srv S) p) \<in> speaker ` Collect A) \<and>
     (\<forall>d \<in> set acc. author d \<in> speaker ` Collect A)"

lemma authentic_keeps:
  assumes "authentic A acc S" "\<And>p. speaker (sv_heap (sy_srv S') p) = speaker (sv_heap (sy_srv S) p)"
    and "\<And>p. sy_phase S' p \<noteq> NoConn \<Longrightarrow> sy_phase S p \<noteq> NoConn"
    and "\<And>d. d \<in> set new \<Longrightarrow> author d \<in> speaker ` Collect A"
  shows "authentic A (acc @ new) S'"
  using assms by (auto simp: authentic_def)

lemma heap_upd_speaker:
  "speaker c = speaker (sv_heap s p) \<Longrightarrow> speaker (sv_heap (heap_upd p c s) q) = speaker (sv_heap s q)"
  by (simp add: heap_upd_def)

lemma table_heap:
  "\<exists>b subs. s' = s\<lparr>sv_broker := b, sv_subscriptions := subs\<rparr> \<Longrightarrow> sv_heap s' = sv_heap s"
  by auto

lemma authentic_serve:
  assumes auth: "authentic A acc S" and ok: "persist_ok (sy_srv S)"
    and step: "serve_step D p S S'" and adm: "admits A S S'"
  shows "authentic A (acc @ queued (sy_srv S) (sy_srv S')) S'"
proof -
  have quiet: ?thesis
    if "\<And>q. speaker (sv_heap (sy_srv S') q) = speaker (sv_heap (sy_srv S) q)"
      "\<And>q. sy_phase S' q \<noteq> NoConn \<Longrightarrow> sy_phase S q \<noteq> NoConn"
      "persistence_of (sy_srv S') = persistence_of (sy_srv S)"
    using authentic_keeps [OF auth that(1,2), of "[]"] queued_same [OF that(3)] by simp
  show ?thesis using step
  proof cases
    case (connect user room ip cfg)
    then have "A (sv_heap (sy_srv S') p)" using adm by (simp add: admits_def)
    with connect auth have "authentic A acc S'" by (auto simp: authentic_def heap_upd_def)
    moreover have q: "persistence_of (sy_srv S') = persistence_of (sy_srv S)"
      using connect by (simp add: persistence_of_def heap_upd_def)
    ultimately show ?thesis by (simp add: queued_same [OF q])
  next
    case (reads newID now raw s)
    note r = read_message_speaker [OF ok reads(3)]
    have "speaker (sv_heap (sy_srv S) p) \<in> speaker ` Collect A"
      using auth reads(2) by (simp add: authentic_def)
    with r reads(1,2) authentic_keeps [OF auth, of S' "queued (sy_srv S) s"] show ?thesis
      by (auto split: if_splits)
  next
    case (acquires s)
    with table_heap [OF Acquire_table [OF acquires(3)]] Acquire_table [OF acquires(3)] show ?thesis
      by (intro quiet) (auto simp: persistence_of_def split: if_splits)
  next
    case (acquire_error e s)
    with table_heap [OF Acquire_table [OF acquire_error(3)]] Acquire_table [OF acquire_error(3)] show ?thesis
      by (intro quiet) (auto simp: persistence_of_def split: if_splits)
  next
    case (releases u s)
    with release_begin_table [OF releases(3)] show ?thesis
      by (intro quiet) (auto simp: persistence_of_def split: if_splits)
  next
    case (unsubscribes_room h err s)
    with release_finish_core [OF unsubscribes_room(3)] show ?thesis
      by (intro quiet) (auto simp: release_finish_def split: if_splits prod.splits)
  qed (rule quiet; auto simp: persistence_of_def heap_upd_def with_metrics_def split: if_splits)+
qed

lemma authentic_other:
  assumes "authentic A acc S" "other_step D S S'"
  shows "authentic A acc S'"
proof -
  have each: "speaker (snd (enqueue_each msg ps n H) q) = speaker (H q)" for msg ps n H q
    by (induction ps arbitrary: n H) (auto simp: case_prod_beta)
  have "speaker (sv_heap (sy_srv S') q) = speaker (sv_heap (sy_srv S) q) \<and> sy_phase S' q = sy_phase S q" for q
    using assms(2)
  proof cases
    case (broadcasts order r m n)
    then show ?thesis
      by (simp add: handle_broadcast_def BroadcastLocal_def case_prod_beta each split: option.split)
  qed (simp_all add: heap_upd_def worker_tick_def)
  with authentic_keeps [OF assms(1), of S' "[]"] show ?thesis by simp
qed

lemma Close_heap: "Close D order s = Some (e, s') \<Longrightarrow> sv_heap s' = sv_heap s"
  by (auto simp: Close_def close_persistence_def Let_def split: if_splits option.splits prod.splits)

lemma main_run_ok:
  assumes "dep_broker D = redis_broker_ops P zone border" "dep_SaveBatch D = recording save"
    and "map_range border" "run_inv n 0 [] s0"
    and "main_run D A order corder s0 ph k acc S" "k < 2 ^ 64" "orderly ph"
  shows "persist_ok (sy_srv S)"
  using main_run_inv [OF assms] by (auto simp: run_inv_def kept_def closed_inv_def split: if_splits)

lemma main_run_authentic:
  assumes "dep_broker D = redis_broker_ops P zone border" "dep_SaveBatch D = recording save"
    and "map_range border" "run_inv n 0 [] s0"
  shows "main_run D A order corder s0 ph k acc S \<Longrightarrow> k < 2 ^ 64 \<Longrightarrow> authentic A acc S"
proof (induction rule: main_run.induct)
  case starts
  show ?case by (simp add: authentic_def initial_def)
next
  case (serves ph k acc S p S')
  with main_run_ok [OF assms serves(1) _ alive_orderly] authentic_serve [OF _ _ serves(3,4)] show ?case by simp
next
  case (others ph k acc S S')
  with authentic_other [OF _ others(3)] show ?case by simp
next
  case (client_closed p ps k acc S ce)
  with authentic_other [OF _ closed_by_other] show ?case by simp
qed (auto simp: authentic_def Close_heap)

section \<open>The end of main\<close>

lemma main_run_exit_err:
  assumes "dep_broker D = redis_broker_ops P zone border" "dep_SaveBatch D = recording save"
    and "map_range border" "run_inv n 0 [] s0"
    and "main_run D A order corder s0 (Exited err e) k acc S" "k < 2 ^ 64"
  shows "e = None"
proof -
  have "ph = Exited err e \<Longrightarrow> k < 2 ^ 64 \<Longrightarrow> e = None" if "main_run D A order corder s0 ph k acc S" for ph k acc S
    using that
  proof (induction rule: main_run.induct)
    case (exits err' k acc S e' s)
    then have "sv_closeOnce (sy_srv S)"
      using main_run_inv [OF assms(1-4) exits(1)] by (auto simp: closed_inv_def persist_ok_def)
    with exits show ?case using Close_again [of "sy_srv S" D corder] by simp
  qed simp_all
  with assms(5,6) show ?thesis by blast
qed

lemma exit_close:
  assumes broker: "dep_broker D = redis_broker_ops P zone border" and rec: "dep_SaveBatch D = recording save"
    and border: "map_range border" and init: "run_inv n 0 [] s0" and k: "k < 2 ^ 64"
    and run: "main_run D A order corder s0 (Closing_Service err) k acc S"
  shows "\<exists>S'. main_run D A order corder s0 (Exited err None) k acc S'"
proof -
  have "run_inv n k acc (sy_srv S)" using main_run_inv [OF broker rec border init run k] by simp
  from Close_open [OF broker rec border this, of corder] obtain e s where
    c: "Close D corder (sy_srv S) = Some (e, s)" and s: "sv_closeOnce s" by blast
  have "Close D corder (sy_srv (S\<lparr>sy_srv := s\<rparr>)) = Some (None, s)" using Close_again [OF s] by simp
  from exits [OF service_closed [OF run c] this] show ?thesis by blast
qed

lemma exit_wait:
  "main_run D A order corder s0 (Closing_Clients ps) k acc S \<Longrightarrow>
   \<exists>err S'. main_run D A order corder s0 (Closing_Service err) k acc S'"
proof (induction ps arbitrary: S)
  case Nil
  have "\<exists>err. shutdown_wait (Some (ErrMsg ''context deadline exceeded'')) (sy_ws S) = Some err"
    by (simp add: shutdown_wait_def)
  then obtain err where "shutdown_wait (Some (ErrMsg ''context deadline exceeded'')) (sy_ws S) = Some err" ..
  from http_closed [OF waited [OF Nil this]] show ?case by blast
next
  case (Cons p ps)
  from Cons.IH [OF client_closed [OF Cons.prems]] show ?case by blast
qed

lemma exit_complete:
  assumes "dep_broker D = redis_broker_ops P zone border" "dep_SaveBatch D = recording save"
    and "map_range border" "run_inv n 0 [] s0" "fresh_node s0"
    and "main_run D A order corder s0 (Exited err e) k acc S" "k < 2 ^ 64"
  shows "concat (save_calls (sy_srv S)) = acc \<and> sv_worker (sy_srv S) = Finished \<and> e = None \<and>
    (err = None \<longrightarrow> (\<forall>p. \<not> registered (sy_phase S p)) \<and> hub_rooms (sv_hub (sy_srv S)) = Map.empty \<and>
       sv_subscriptions (sy_srv S) = Map.empty \<and> sub_live (sv_broker (sy_srv S)) = Map.empty)"
  using main_run_inv [OF assms(1-4,6,7)] main_run_quiet [OF assms(1-7)] main_run_exit_err [OF assms(1-4,6,7)]
  by (auto simp: closed_inv_def quiet_def drained_def)

lemma exit_reachable:
  assumes "dep_broker D = redis_broker_ops P zone border" "dep_SaveBatch D = recording save"
    and "map_range border" "run_inv n 0 [] s0"
    and "main_run D A order corder s0 ph k acc S" "k < 2 ^ 64" "orderly ph"
  shows "\<exists>err S'. main_run D A order corder s0 (Exited err None) k acc S'"
proof (cases ph)
  case (Fatal_Exit f)
  with assms(7) show ?thesis by simp
next
  case Running_Server
  obtain ps w where "shutdown_begin order (sy_ws S) = (ps, w)" by fastforce
  from exit_wait [OF signal [OF assms(5) [unfolded Running_Server] this]] exit_close [OF assms(1-4,6)]
  show ?thesis by blast
next
  case (Closing_Clients ps)
  from exit_wait [OF assms(5) [unfolded Closing_Clients]] exit_close [OF assms(1-4,6)] show ?thesis by blast
next
  case (Closing_Http err)
  from exit_close [OF assms(1-4,6) http_closed [OF assms(5) [unfolded Closing_Http]]] show ?thesis by blast
next
  case (Closing_Service err)
  from exit_close [OF assms(1-4,6) assms(5) [unfolded Closing_Service]] show ?thesis by blast
next
  case (Returning err)
  have "sv_closeOnce (sy_srv S)"
    using main_run_inv [OF assms(1-7)] Returning by (auto simp: closed_inv_def persist_ok_def)
  from exits [OF assms(5) [unfolded Returning] Close_again [OF this]] show ?thesis by blast
next
  case (Exited err e)
  with assms(5) main_run_exit_err [OF assms(1-4) assms(5) [unfolded Exited] assms(6)] show ?thesis by blast
qed

text \<open>
  The demo node. A connection arrives and sends a message, the signal comes while it is served,
  \<open>Shutdown\<close> gives up at its deadline, and \<open>main\<close> returns.
\<close>

abbreviation demo_run where
  "demo_run A \<equiv> main_run demo_deps A sorted_list_of_set sorted_list_of_set"

definition demo_like ::
    "((nat, nat) redis_broker, ptr, kv, danmaku list list \<times> danmaku list) service \<Rightarrow> bool" where
  "demo_like s \<longleftrightarrow> sv_cfg s = demo_limits \<and> sv_limiter s = kv_empty \<and> persist_ok s \<and> accepts s \<and>
     chan_buf (sv_persistCh s) = []"

lemma admits_goto:
  "sy_phase S p \<noteq> NoConn \<Longrightarrow> sy_phase S' = sy_phase S \<Longrightarrow> admits A S (goto p x s S')"
  by (auto simp: admits_def)

lemma quiet_step:
  assumes "main_run D A order corder s0 Running_Server k acc S" "serve_step D p S S'"
    "persistence_of (sy_srv S') = persistence_of (sy_srv S)" "admits A S S'"
  shows "main_run D A order corder s0 Running_Server (Suc k) acc S'"
proof -
  have "alive Running_Server" by (simp add: alive_def)
  from serves [OF assms(1) this assms(2,4)] queued_same [OF assms(3)] show ?thesis by simp
qed

lemma demo_run_serving:
  assumes "demo_like s0" "A (NewClient ''u1'' ''r1'' ''127.0.0.1'' cfg)"
  shows "\<exists>S. demo_run A s0 Running_Server 5 [] S \<and> sy_phase S (Ptr 1) = Serving \<and>
     sv_cfg (sy_srv S) = demo_limits \<and> sv_limiter (sy_srv S) = kv_empty \<and>
     persistence_of (sy_srv S) = persistence_of s0 \<and>
     sv_heap (sy_srv S) (Ptr 1) = NewClient ''u1'' ''r1'' ''127.0.0.1'' cfg"
proof -
  let ?p = "Ptr 1" and ?c = "NewClient ''u1'' ''r1'' ''127.0.0.1'' cfg"
  define Q where "Q s \<longleftrightarrow> sv_cfg s = demo_limits \<and> sv_limiter s = kv_empty \<and>
      persistence_of s = persistence_of s0 \<and> sv_heap s ?p = ?c" for s ::
    "((nat, nat) redis_broker, ptr, kv, danmaku list list \<times> danmaku list) service"
  let ?S0 = "initial s0"
  have ph: "sy_phase ?S0 ?p = NoConn" and src: "sy_srv ?S0 = s0" by (simp_all add: initial_def)
  have node: "sv_cfg s0 = demo_limits" "sv_limiter s0 = kv_empty" using assms(1) by (simp_all add: demo_like_def)
  let ?S1 = "goto ?p Created (heap_upd ?p ?c (sy_srv ?S0)) ?S0"
  have 1: "demo_run A s0 Running_Server 1 [] ?S1" "Q (sy_srv ?S1)"
    using quiet_step [OF starts serve_step.connect [OF ph], where D = demo_deps]
    by (simp_all add: src Q_def node persistence_of_def heap_upd_def admits_def assms(2) ph)
  obtain ws where r: "registerClient ?p (sy_ws ?S1) = (True, ws)"
    by (simp add: registerClient_def initial_def NewHandler_def)
  let ?S2 = "goto ?p Registered (sy_srv ?S1) (?S1\<lparr>sy_ws := ws\<rparr>)"
  have 2: "demo_run A s0 Running_Server 2 [] ?S2" "Q (sy_srv ?S2)"
    using quiet_step [OF 1(1) serve_step.register [OF _ r]] 1(2) by (simp_all add: numeral_2_eq_2 admits_goto)
  have p2: "sy_phase ?S2 ?p = Registered" by simp
  obtain s where a: "AcquireRoomSubscription demo_deps (cl_RoomID (sv_heap (sy_srv ?S2) ?p)) (sy_srv ?S2) = (None, s)"
    using demo_acquire_any by blast
  let ?S3 = "goto ?p Subscribed s ?S2"
  obtain b subs where s: "s = (sy_srv ?S2)\<lparr>sv_broker := b, sv_subscriptions := subs\<rparr>"
    using Acquire_table [OF a] by blast
  have 3: "demo_run A s0 Running_Server 3 [] ?S3" "Q (sy_srv ?S3)"
    using quiet_step [OF 2(1) serve_step.acquires [OF p2 a]] 2(2) s
    by (simp_all add: numeral_3_eq_3 numeral_2_eq_2 Q_def persistence_of_def admits_goto)
  let ?S4 = "goto ?p Joined ((sy_srv ?S3)\<lparr>sv_hub := snd (Join (sv_heap (sy_srv ?S3)) ?p (sv_hub (sy_srv ?S3)))\<rparr>) ?S3"
  have p3: "sy_phase ?S3 ?p = Subscribed" by simp
  have 4: "demo_run A s0 Running_Server 4 [] ?S4" "Q (sy_srv ?S4)"
    using quiet_step [OF 3(1) serve_step.joins [OF p3]] 3(2)
    by (simp_all add: eval_nat_numeral Q_def persistence_of_def admits_goto)
  let ?S5 = "goto ?p Serving (with_metrics IncWSConnection (sy_srv ?S4)) ?S4"
  have p4: "sy_phase ?S4 ?p = Joined" by simp
  have "demo_run A s0 Running_Server 5 [] ?S5" "Q (sy_srv ?S5)"
    using quiet_step [OF 4(1) serve_step.counts [OF p4]] 4(2)
    by (simp_all add: eval_nat_numeral Q_def persistence_of_def with_metrics_def admits_goto)
  moreover have "sy_phase ?S5 ?p = Serving" by simp
  ultimately show ?thesis unfolding Q_def by blast
qed

text \<open>The row of the message that the connection sends.\<close>

definition demo_sent_row :: danmaku where
  "demo_sent_row =
     \<lparr>dm_ID = ''id-1'', dm_RoomID = ''r1'', dm_UserID = ''u1'', dm_Content = ''hi'', dm_CreatedAt = 5\<rparr>"

lemma demo_run_sent:
  assumes "demo_like s0" "A (NewClient ''u1'' ''r1'' ''127.0.0.1'' cfg)"
  shows "\<exists>S. demo_run A s0 Running_Server 6 [demo_sent_row] S \<and> sy_phase S (Ptr 1) = Serving"
proof -
  let ?p = "Ptr 1" and ?req = "demo_req '' hi ''"
  obtain S where S: "demo_run A s0 Running_Server 5 [] S" "sy_phase S ?p = Serving"
    and f: "sv_cfg (sy_srv S) = demo_limits" "sv_limiter (sy_srv S) = kv_empty"
      "persistence_of (sy_srv S) = persistence_of s0"
      "sv_heap (sy_srv S) ?p = NewClient ''u1'' ''r1'' ''127.0.0.1'' cfg"
    using demo_run_serving [where A = A, OF assms] by blast
  let ?s = "sy_srv S"
  let ?raw = "marshal_inbound \<lparr>in_Type = ''danmaku'', in_Content = '' hi ''\<rparr>"
  have "sanitize ''danmaku'' = ''danmaku''" "sanitize '' hi '' = '' hi ''" by (simp_all add: byte_def)
  then have raw: "unmarshal_inbound ?raw = Ok \<lparr>in_Type = ''danmaku'', in_Content = '' hi ''\<rparr>"
    by (simp add: inbound_roundtrip)
  have req: "client_request '' hi '' (sv_heap ?s ?p) = ?req"
    unfolding f(4) by (simp add: client_request_def NewClient_def demo_req_def)
  have ok: "persist_ok ?s" using persist_ok_core [OF f(3)] assms(1) by (simp add: demo_like_def)
  have acc: "accepts ?s" "chan_buf (sv_persistCh ?s) = []"
    using f(3) assms(1) by (simp_all add: persistence_of_def accepts_def demo_like_def)
  obtain l where c: "checkLimit demo_deps ?req ?s = (None, ?s\<lparr>sv_limiter := l\<rparr>)"
    using demo_check_any [OF f(1,2)] by blast
  obtain b where p: "Publish (dep_broker demo_deps) (sent_message ''id-1'' 5 ?req ?s) (sv_broker ?s) = (None, b)"
    by (rule demo_sent)
  from Send_total [OF ok refl c p] demo_valid acc obtain s' where
    s': "Send demo_deps ''id-1'' 5 ?req ?s = Some (Ok (sent_message ''id-1'' 5 ?req ?s), s')"
    "chan_buf (sv_persistCh s') = [danmaku_of (sent_message ''id-1'' 5 ?req ?s)]" by auto
  have row: "danmaku_of (sent_message ''id-1'' 5 ?req ?s) = demo_sent_row"
    by (simp add: danmaku_of_def sent_message_def demo_valid demo_sent_row_def) (simp add: demo_req_def)
  have "read_message demo_deps ''id-1'' 5 ?p ?raw ?s = Some s'"
    unfolding read_message_def raw by (simp add: s'(1) req [simplified])
  from serves [OF S(1) _ serve_step.reads [OF S(2) this]] acc(2) s'(2) row show ?thesis
    by (intro exI [of _ "goto ?p Serving s' S"]) (simp add: queued_def alive_def admits_goto S(2) [unfolded One_nat_def])
qed

end
