(* ===== verification/Server.thy ===== *)
theory Server
  imports Node_Run Ws_Keepalive Api
begin

text \<open>
  cmd/danmakux/main.go: the node is built from the environment, step by step, and serves until a
  signal comes. The stores under internal/store and the logger are set up by third-party
  libraries, which are parameters: every result they can give is a branch of the start.
\<close>

section \<open>Stores and logger\<close>

text \<open>internal/store/redis/redis.go.\<close>

record redis_options =
  opt_Addr :: string
  opt_Password :: string
  opt_DB :: int64

definition redis_New :: "(redis_options \<Rightarrow> 'c) \<Rightarrow> redis_config \<Rightarrow> 'c" where
  "redis_New open_client cfg =
     open_client \<lparr>opt_Addr = cfg_Addr cfg, opt_Password = cfg_Password cfg, opt_DB = cfg_DB cfg\<rparr>"

definition redis_Ping :: "('c \<Rightarrow> go_error option) \<Rightarrow> 'c \<Rightarrow> go_error option" where
  "redis_Ping ping client = ping client"

text \<open>internal/logger/logger.go; the loggers that \<open>zap.NewProduction\<close> makes are not modelled.\<close>

definition logger_New :: "go_error option \<Rightarrow> go_error option" where
  "logger_New new_production = new_production"

text \<open>
  internal/store/mysql/mysql.go. The connection pool that \<open>db.DB()\<close> gives belongs to the handle, so
  its setters act on the handle.
\<close>

record 'd gorm_lib =
  gm_Open :: "string \<Rightarrow> 'd result"
  gm_DB :: "'d \<Rightarrow> go_error option"
  gm_SetMaxOpenConns :: "int64 \<Rightarrow> 'd \<Rightarrow> 'd"
  gm_SetMaxIdleConns :: "int64 \<Rightarrow> 'd \<Rightarrow> 'd"
  gm_SetConnMaxLifetime :: "duration \<Rightarrow> 'd \<Rightarrow> 'd"
  gm_AutoMigrate :: "'d \<Rightarrow> go_error option \<times> 'd"

definition mysql_New :: "'d gorm_lib \<Rightarrow> mysql_config \<Rightarrow> 'd result" where
  "mysql_New G cfg =
     (case gm_Open G (cfg_DSN cfg) of
        Inl err \<Rightarrow> Err err
      | Inr db \<Rightarrow>
          (case gm_DB G db of
             Some err \<Rightarrow> Err err
           | None \<Rightarrow>
               let db = gm_SetMaxOpenConns G (cfg_MaxOpenConns cfg) db;
                   db = gm_SetMaxIdleConns G (cfg_MaxIdleConns cfg) db;
                   db = gm_SetConnMaxLifetime G (cfg_MaxLifeTime cfg) db
               in Ok db))"

definition AutoMigrate :: "'d gorm_lib \<Rightarrow> 'd \<Rightarrow> go_error option \<times> 'd" where
  "AutoMigrate G db = gm_AutoMigrate G db"

section \<open>The node that main builds\<close>

text \<open>
  What the process meets: its environment, the libraries and the servers behind them, the keys
  that Redis holds, and the heap on which clients will be allocated. \<open>w_NewProduction\<close> is the error
  of \<open>zap.NewProduction()\<close>.
\<close>

record ('c, 'l, 'd) world =
  w_env :: environment
  w_NewProduction :: "go_error option"
  w_NewClient :: "redis_options \<Rightarrow> 'c"
  w_Ping :: "'c \<Rightarrow> go_error option"
  w_gorm :: "'d gorm_lib"
  w_keys :: 'l
  w_heap :: client_heap

record router_deps =
  rd_JWTSecret :: string
  rd_TokenTTL :: duration

record ('c, 'p, 'l, 'd) node =
  nd_service :: "(('c, 'p) redis_broker, ptr, 'l, danmaku list list \<times> 'd) service"
  nd_jwtSecret :: string
  nd_clientCfg :: client_config
  nd_wsReadBuffer :: int64
  nd_wsWriteBuffer :: int64
  nd_router :: router_deps
  nd_Addr :: string

text \<open>\<open>panic\<close>, \<open>log.Fatal\<close> with its message, or the node that waits for its signal.\<close>

datatype 'n startup = Panics go_error | Fatal string go_error | Started 'n

definition client_config_of :: "server_config \<Rightarrow> client_config" where
  "client_config_of cfg =
     \<lparr>WriteWait = cfg_WriteWait cfg, PongWait = cfg_PongWait cfg, PingPeriod = cfg_PingPeriod cfg,
      MaxMessageSize = cfg_MaxMessageSizeByte cfg\<rparr>"

text \<open>The components are built from the configuration, the Redis client and the database.\<close>

definition build_node ::
    "config \<Rightarrow> 'c \<Rightarrow> 'd \<Rightarrow> ('c, 'l, 'd) world \<Rightarrow> ('c, 'p, 'l, 'd) node" where
  "build_node cfg redisClient mysqlDB W =
     (let hub = NewHub;
          metricsCollector = Some new_metrics;
          lim = w_keys W;
          br = NewRedisPubSubBroker redisClient;
          repo = ([], mysqlDB);
          msgSrv = NewMessageService (cfg_NodeID (cfg_Server cfg)) (cfg_Limit cfg) hub (w_heap W) br repo
            lim metricsCollector;
          msgSrv = StartPersistenceWorker 100 (millis 500) msgSrv
      in \<lparr>nd_service = msgSrv,
          nd_jwtSecret = cfg_JWTSecret (cfg_Auth cfg),
          nd_clientCfg = client_config_of (cfg_Server cfg),
          nd_wsReadBuffer = cfg_ReadBufferSize (cfg_Server cfg),
          nd_wsWriteBuffer = cfg_WriteBufferSize (cfg_Server cfg),
          nd_router = \<lparr>rd_JWTSecret = cfg_JWTSecret (cfg_Auth cfg), rd_TokenTTL = cfg_TokenTTL (cfg_Auth cfg)\<rparr>,
          nd_Addr = cfg_HTTPAddr (cfg_Server cfg)\<rparr>)"

definition main_start :: "('c, 'l, 'd) world \<Rightarrow> ('c, 'p, 'l, 'd) node startup" where
  "main_start W =
     (case Load (w_env W) of
        Inl err \<Rightarrow> Panics err
      | Inr cfg \<Rightarrow>
          (case logger_New (w_NewProduction W) of
             Some err \<Rightarrow> Panics err
           | None \<Rightarrow>
               let redisClient = redis_New (w_NewClient W) (cfg_Redis cfg) in
               (case redis_Ping (w_Ping W) redisClient of
                  Some err \<Rightarrow> Fatal ''redis ping failed'' err
                | None \<Rightarrow>
                    (case mysql_New (w_gorm W) (cfg_MySQL cfg) of
                       Inl err \<Rightarrow> Fatal ''mysql connect failed'' err
                     | Inr mysqlDB \<Rightarrow>
                         (case AutoMigrate (w_gorm W) mysqlDB of
                            (Some err, mysqlDB) \<Rightarrow> Fatal ''mysql migrate failed'' err
                          | (None, mysqlDB) \<Rightarrow> Started (build_node cfg redisClient mysqlDB W))))))"

section \<open>What was started\<close>

text \<open>The service of the node, in the form the theorems on the service use.\<close>

lemma build_node_service:
  "nd_service (build_node cfg c db W) =
     persist_service 100 (millis 500) (cfg_NodeID (cfg_Server cfg)) (cfg_Limit cfg) NewHub (w_heap W)
       (NewRedisPubSubBroker c) db (w_keys W) (Some new_metrics)"
  by (simp add: build_node_def persist_service_def Let_def)

lemma persist_service_fresh:
  "fresh_node (persist_service n i u cfg NewHub heap (NewRedisPubSubBroker c) r l (Some new_metrics))"
  (is "fresh_node ?s")
proof -
  have "sv_subscriptions ?s = Map.empty" "sv_broker ?s = NewRedisPubSubBroker c" "sv_hub ?s = NewHub"
    "gauge ?s = Some 0"
    by (simp_all add: persist_service_def StartPersistenceWorker_def NewMessageService_def
        gauge_def new_metrics_def Let_def)
  then show ?thesis unfolding fresh_node_def fresh_service_def by (auto simp: persist_service_ok)
qed

lemma started_built:
  assumes "main_start W = Started N"
  obtains cfg c db where "Load (w_env W) = Ok cfg" "N = build_node cfg c db W"
  using assms that
  by (auto simp: main_start_def Let_def split: sum.splits option.splits prod.splits)

lemma started_service:
  assumes "main_start W = Started N"
  shows "fresh_node (nd_service N)" "run_inv 100 0 [] (nd_service N)"
proof -
  obtain cfg c db where N: "N = build_node cfg c db W" by (rule started_built [OF assms])
  show "fresh_node (nd_service N)" unfolding N build_node_service by (rule persist_service_fresh)
  have "batch_size 100 = 100" by (simp add: batch_size_def)
  with persist_service_run_inv [of 100] show "run_inv 100 0 [] (nd_service N)"
    unfolding N build_node_service by simp
qed

text \<open>A world in which everything works: the table is a list, the other servers answer.\<close>

definition demo_gorm :: "danmaku list gorm_lib" where
  "demo_gorm =
     \<lparr>gm_Open = (\<lambda>dsn. Ok []), gm_DB = (\<lambda>db. None), gm_SetMaxOpenConns = (\<lambda>n db. db),
      gm_SetMaxIdleConns = (\<lambda>n db. db), gm_SetConnMaxLifetime = (\<lambda>d db. db),
      gm_AutoMigrate = (\<lambda>db. (None, db))\<rparr>"

definition demo_world :: "environment \<Rightarrow> (nat, kv, danmaku list) world" where
  "demo_world env =
     \<lparr>w_env = env, w_NewProduction = None, w_NewClient = (\<lambda>opts. 0), w_Ping = (\<lambda>c. None),
      w_gorm = demo_gorm, w_keys = kv_empty, w_heap = demo_heap\<rparr>"

definition demo_env :: environment where
  "demo_env k = (if k = ''MYSQL_DSN'' then ''dsn'' else [])"

lemma demo_world_starts:
  assumes "Load env = Ok cfg"
  shows "main_start (demo_world env) = Started (build_node cfg 0 [] (demo_world env))"
  using assms
  by (simp add: main_start_def demo_world_def redis_New_def redis_Ping_def logger_New_def mysql_New_def AutoMigrate_def demo_gorm_def Let_def)

abbreviation demo_started :: "(nat, nat, kv, danmaku list) node \<Rightarrow> bool" where
  "demo_started N \<equiv> main_start (demo_world demo_env) = Started N"

lemma demo_start:
  obtains cfg N where "Load demo_env = Ok cfg" "demo_started N"
    "N = build_node cfg 0 [] (demo_world demo_env)"
proof -
  have "demo_env ''MYSQL_DSN'' \<noteq> []" by (simp add: demo_env_def)
  then obtain cfg where c: "Load demo_env = Ok cfg" using Load_Ok by blast
  from that [OF c demo_world_starts [OF c] refl] show thesis .
qed

lemma demo_start_like:
  assumes "Load demo_env = Ok cfg" "N = build_node cfg 0 [] (demo_world demo_env)"
  shows "demo_like (nd_service N)"
proof -
  have "cfg_Limit cfg = demo_limits"
    by (simp add: Load_limits [OF assms(1)] getEnvInt_def getEnvDuration_def demo_env_def demo_limits_def)
  then show ?thesis unfolding demo_like_def assms(2) build_node_service
    by (simp add: persist_service_ok)
      (simp add: accepts_def persist_service_def StartPersistenceWorker_def NewMessageService_def
        make_chan_def demo_world_def Let_def)
qed

section \<open>A connection is opened\<close>

text \<open>
  \<open>ServeWS\<close> up to the new client: the checks, the upgrade with the buffer sizes of the node, and
  the client for the user of the token. What follows are the steps of theory System.
\<close>

datatype handshake = Answered http_reply | UpgradeFailed go_error | Connected client

definition ServeWS_open ::
    "jwt_lib \<Rightarrow> time \<Rightarrow> ('c, 'p, 'l, 'd) node \<Rightarrow> handler \<Rightarrow> (int64 \<Rightarrow> int64 \<Rightarrow> go_error option) \<Rightarrow>
     string \<Rightarrow> string \<Rightarrow> string \<Rightarrow> handshake" where
  "ServeWS_open J now N h Upgrade roomID token ip =
     (case serve_check J now (nd_jwtSecret N) roomID token h of
        Inl r \<Rightarrow> Answered r
      | Inr claims \<Rightarrow>
          (case Upgrade (nd_wsReadBuffer N) (nd_wsWriteBuffer N) of
             Some err \<Rightarrow> UpgradeFailed err
           | None \<Rightarrow> Connected (NewClient (cm_UserID claims) roomID ip (nd_clientCfg N))))"

definition node_guest :: "jwt_lib \<Rightarrow> time \<Rightarrow> ('c, 'p, 'l, 'd) node \<Rightarrow> string \<Rightarrow> http_response" where
  "node_guest J now N body =
     guestTokenHandler J now (rd_JWTSecret (nd_router N)) (rd_TokenTTL (nd_router N)) body"

lemma built_secrets:
  "rd_JWTSecret (nd_router (build_node cfg c db W)) = nd_jwtSecret (build_node cfg c db W)"
  "nd_clientCfg (build_node cfg c db W) = client_config_of (cfg_Server cfg)"
  by (simp_all add: build_node_def Let_def)

lemma opened_client:
  assumes "ServeWS_open J now N h Upgrade roomID token ip = Connected c"
  obtains cl where "serve_check J now (nd_jwtSecret N) roomID token h = Inr cl"
    "c = NewClient (cm_UserID cl) roomID ip (nd_clientCfg N)"
  using assms that by (auto simp: ServeWS_open_def split: sum.splits option.splits)

text \<open>The clients that \<open>ServeWS\<close> creates on a node.\<close>

definition opened :: "jwt_lib \<Rightarrow> ('c, 'p, 'l, 'd) node \<Rightarrow> client \<Rightarrow> bool" where
  "opened J N c \<longleftrightarrow>
     (\<exists>now h Upgrade roomID token ip. ServeWS_open J now N h Upgrade roomID token ip = Connected c)"

text \<open>The demo key signs tokens for the guests of the demo node.\<close>

definition demo_claims :: claims where
  "demo_claims = \<lparr>cm_UserID = ''u1'', cm_ExpiresAt = 86400000000000, cm_IssuedAt = 0\<rparr>"

lemma demo_parse:
  "ParseToken clear_jwt 1000 key (clear_token demo_claims key) = Ok demo_claims"
  by (simp add: ParseToken_def clear_jwt_def read_clear_token token_key_def demo_claims_def)

lemma demo_opens:
  "ServeWS_open clear_jwt 1000 N NewHandler (\<lambda>r w. None) ''r1'' (clear_token demo_claims (nd_jwtSecret N))
     ''127.0.0.1'' = Connected (NewClient ''u1'' ''r1'' ''127.0.0.1'' (nd_clientCfg N))"
proof -
  have "clear_token demo_claims k \<noteq> []" for k by (simp add: clear_token_def)
  then show ?thesis
    by (simp add: ServeWS_open_def serve_check_def isShuttingDown_def NewHandler_def demo_parse)
      (simp add: demo_claims_def)
qed

section \<open>Properties of the node\<close>

text \<open>
  C17. A node that \<open>main\<close> starts is well-formed: it was configured by a successful load, its
  service is new, empty and running its worker with batches of 100, it carries the node ID and
  the limits of the configuration, and the endpoint that issues tokens signs them with the key
  the WebSocket handler checks them with.
\<close>

theorem started_node_ready:
  assumes "main_start W = Started N"
  shows "\<exists>cfg. Load (w_env W) = Ok cfg \<and> fresh_node (nd_service N) \<and> run_inv 100 0 [] (nd_service N) \<and>
    sv_nodeID (nd_service N) = cfg_NodeID (cfg_Server cfg) \<and> sv_cfg (nd_service N) = cfg_Limit cfg \<and>
    rd_JWTSecret (nd_router N) = nd_jwtSecret N \<and> nd_clientCfg N = client_config_of (cfg_Server cfg)"
proof -
  obtain cfg c db where N: "Load (w_env W) = Ok cfg" "N = build_node cfg c db W"
    by (rule started_built [OF assms])
  have "sv_nodeID (nd_service N) = cfg_NodeID (cfg_Server cfg)" "sv_cfg (nd_service N) = cfg_Limit cfg"
    unfolding N(2) build_node_service
    by (simp_all add: persist_service_def StartPersistenceWorker_def NewMessageService_def Let_def)
  with N(1) started_service [OF assms] built_secrets [of cfg c db W] N(2) show ?thesis by auto
qed

theorem started_node_ready_witness:
  "\<exists>N. demo_started N \<and>
     run_inv 100 0 [] (nd_service N) \<and> rd_JWTSecret (nd_router N) = nd_jwtSecret N"
proof -
  obtain cfg N where
    "demo_started N" by (rule demo_start)
  with started_node_ready [OF this] show ?thesis by blast
qed

text \<open>
  C6. Whatever the connections, the subscriptions and the worker of a started node do, before the
  signal, during the shutdown and after it, when \<open>main\<close> has returned every message that ever
  entered the persistence queue has been handed to \<open>SaveBatch\<close>, in the order of acceptance, the
  worker has ended, and the second, deferred \<open>Close\<close> did nothing; and when \<open>Shutdown\<close> returned no
  error, no connection is registered, the hub has no room, and neither the table of room
  subscriptions nor the broker has a subscription left.
\<close>

theorem node_exit:
  assumes "main_start W = Started N" "dep_broker D = redis_broker_ops P zone border"
    and "dep_SaveBatch D = recording save" "map_range border"
    and "main_run D A order corder (nd_service N) (Exited err e) k acc S" "k < 2 ^ 64"
  shows "concat (save_calls (sy_srv S)) = acc \<and> sv_worker (sy_srv S) = Finished \<and> e = None \<and>
    (err = None \<longrightarrow> (\<forall>p. \<not> registered (sy_phase S p)) \<and> hub_rooms (sv_hub (sy_srv S)) = Map.empty \<and>
       sv_subscriptions (sy_srv S) = Map.empty \<and> sub_live (sv_broker (sy_srv S)) = Map.empty)"
  by (rule exit_complete [OF assms(2-4) started_service(2,1) [OF assms(1)] assms(5,6)])

text \<open>A connection of the demo node sends a message, and the signal comes while it is served.\<close>

lemma demo_node_serves:
  obtains N S where "demo_started N"
    "demo_run (opened clear_jwt N) (nd_service N) Running_Server 6 [demo_sent_row] S" "sy_phase S (Ptr 1) = Serving"
proof -
  obtain cfg N where c: "Load demo_env = Ok cfg" and N: "demo_started N"
    "N = build_node cfg 0 [] (demo_world demo_env)" by (rule demo_start)
  have "opened clear_jwt N (NewClient ''u1'' ''r1'' ''127.0.0.1'' (nd_clientCfg N))"
    unfolding opened_def using demo_opens by blast
  from demo_run_sent [where A = "opened clear_jwt N", OF demo_start_like [OF c N(2)] this] that [OF N(1)] show thesis by blast
qed

theorem node_exit_witness:
  "\<exists>N err S. demo_started N \<and>
     demo_run (opened clear_jwt N) (nd_service N) (Exited err None) 6 [demo_sent_row] S \<and>
     concat (save_calls (sy_srv S)) = [demo_sent_row]"
proof -
  obtain N S where N: "demo_started N"
    and S: "demo_run (opened clear_jwt N) (nd_service N) Running_Server 6 [demo_sent_row] S" by (rule demo_node_serves)
  have k: "(6::nat) < 2 ^ 64" by simp
  note deps = demo_node_broker demo_deps_recording ascending_string
  from exit_reachable [OF deps started_service(2) [OF N] S k] obtain err S' where
    e: "demo_run (opened clear_jwt N) (nd_service N) (Exited err None) 6 [demo_sent_row] S'" by auto
  from node_exit [OF N deps e k] N e show ?thesis by blast
qed



lemma accepted_saved:
  assumes rec: "dep_SaveBatch D = recording save" and "run_inv n k acc s \<or> closed_inv acc s"
  shows "concat (save_calls (worker_tick D ((worker_receive D ^^ length (chan_buf (sv_persistCh s))) s))) = acc"
  using assms(2)
proof
  assume inv: "run_inv n k acc s"
  then have "kept n acc s" "sv_worker s \<noteq> NotStarted" by (simp_all add: run_inv_def)
  from receives_all [OF rec this refl] tick_saves_all [OF rec] show ?thesis by blast
next
  assume "closed_inv acc s"
  then have w: "sv_worker s = Finished" "chan_buf (sv_persistCh s) = []" "concat (save_calls s) = acc"
    by (auto simp: closed_inv_def persist_ok_def)
  then show ?thesis by (simp add: worker_tick_def flush_def)
qed



text \<open>
  A guest who got a token from the node's endpoint gets a connection as that user until the token
  expires, unless the upgrade fails or the node is shutting down.
\<close>

lemma started_key:
  "main_start W = Started N \<Longrightarrow> rd_JWTSecret (nd_router N) = nd_jwtSecret N"
  using started_built built_secrets(1) by metis

lemma guest_connects:
  assumes "jwt J" "main_start W = Started N"
    and "bind_guest body = Ok u" "u \<noteq> []" "roomID \<noteq> []" "token \<noteq> []" "\<not> ws_closing h"
    and "rsp_body (node_guest J t0 N body) = JSON_token token secs"
    and "now < jwt_NewNumericDate J (time_Add t0 (rd_TokenTTL (nd_router N)))"
    and "Upgrade (nd_wsReadBuffer N) (nd_wsWriteBuffer N) = None"
  shows "ServeWS_open J now N h Upgrade roomID token ip = Connected (NewClient u roomID ip (nd_clientCfg N))"
proof -
  have "GenerateToken J t0 (nd_jwtSecret N) u (rd_TokenTTL (nd_router N)) = Ok token"
    using assms(3,4,8) by (auto simp: node_guest_def guestTokenHandler_def started_key [OF assms(2)] split: sum.splits if_splits)
  from token_roundtrip [OF assms(1) this assms(4,9)] assms(5-7,10) show ?thesis
    by (auto simp: ServeWS_open_def serve_check_def isShuttingDown_def)
qed

lemma opened_speaks:
  assumes "jwt J" "main_start W = Started N" "opened J N c"
  shows "\<exists>cl now token. jwt_SignedString J HS256 cl (rd_JWTSecret (nd_router N)) = Ok token \<and>
    now < cm_ExpiresAt cl \<and> cl_UserID c = cm_UserID cl \<and> cl_UserID c \<noteq> [] \<and> cl_RoomID c \<noteq> []"
proof -
  obtain now h Upgrade roomID token ip where
    "ServeWS_open J now N h Upgrade roomID token ip = Connected c" using assms(3) by (auto simp: opened_def)
  then obtain cl where cl: "serve_check J now (nd_jwtSecret N) roomID token h = Inr cl"
    "c = NewClient (cm_UserID cl) roomID ip (nd_clientCfg N)" by (rule opened_client)
  from cl(1) have p: "ParseToken J now (nd_jwtSecret N) token = Ok cl" and r: "roomID \<noteq> []"
    by (auto simp: serve_check_def split: if_splits sum.splits)
  from ParseToken_sound [OF assms(1) p] r show ?thesis
    unfolding started_key [OF assms(2)]
    by (intro exI [of _ cl] exI [of _ now] exI [of _ token]) (simp add: cl(2) NewClient_def)
qed



lemma config_period:
  assumes "main_start W = Started N"
  shows "PingPeriod (nd_clientCfg N) = getEnvDuration (w_env W) ''WS_PING_PERIOD'' (seconds 50)"
    "PongWait (nd_clientCfg N) = getEnvDuration (w_env W) ''WS_PONG_WAIT'' (seconds 60)"
proof -
  obtain cfg c db where N: "Load (w_env W) = Ok cfg" "N = build_node cfg c db W"
    by (rule started_built [OF assms])
  show "PingPeriod (nd_clientCfg N) = getEnvDuration (w_env W) ''WS_PING_PERIOD'' (seconds 50)"
    "PongWait (nd_clientCfg N) = getEnvDuration (w_env W) ''WS_PONG_WAIT'' (seconds 60)"
    unfolding N(2) built_secrets using Load_times [OF N(1)] by (simp_all add: client_config_of_def)
qed

text \<open>
  C37. The ping period is taken from the environment unchecked: when \<open>WS_PING_PERIOD\<close> holds a
  duration that is not positive the node starts, and the write loop of every connection it
  opens panics in \<open>time.NewTicker\<close>, which ends the process.
\<close>

theorem ping_period_unchecked:
  assumes "main_start W = Started N" "ParseDuration (w_env W ''WS_PING_PERIOD'') = Some d" "sint d \<le> 0"
    and "w_env W ''WS_PING_PERIOD'' \<noteq> []"
    and "ServeWS_open J now N h Upgrade roomID token ip = Connected c"
  shows "writePump_begin c = None"
proof -
  have "PingPeriod (nd_clientCfg N) = d"
    unfolding config_period(1) [OF assms(1)] using assms(2,4) by (simp add: getEnvDuration_def Let_def)
  moreover obtain u where "c = NewClient u roomID ip (nd_clientCfg N)" by (rule opened_client [OF assms(5)]) blast
  ultimately show ?thesis using assms(3) by (simp add: writePump_begin_def NewTicker_def NewClient_def)
qed

text \<open>
  With the default times the write loop starts, and the bound of \<open>keepalive_lives\<close> holds with ten
  seconds for the answer to a ping.
\<close>

lemma default_times:
  assumes "main_start W = Started N" "w_env W ''WS_PING_PERIOD'' = []" "w_env W ''WS_PONG_WAIT'' = []"
    and "ServeWS_open J now N h Upgrade roomID token ip = Connected c"
  shows "writePump_begin c = Some (start_pump c) \<and> 0 < sint (PingPeriod (cl_cfg c)) \<and>
    sint (PingPeriod (cl_cfg c)) + 10 * ns_per_s \<le> sint (PongWait (cl_cfg c))"
proof -
  have t: "sint (PingPeriod (nd_clientCfg N)) = 50 * ns_per_s" "sint (PongWait (nd_clientCfg N)) = 60 * ns_per_s"
    unfolding config_period [OF assms(1)] by (simp_all add: getEnvDuration_def assms(2,3) sint_seconds)
  obtain u where "c = NewClient u roomID ip (nd_clientCfg N)" by (rule opened_client [OF assms(4)]) blast
  then have c: "cl_cfg c = nd_clientCfg N" by (simp add: NewClient_def)
  show ?thesis using t unfolding writePump_begin_def NewTicker_def c by (simp add: ns_per_s_def)
qed

definition zero_period_env :: environment where
  "zero_period_env k = (if k = ''MYSQL_DSN'' then ''dsn'' else if k = ''WS_PING_PERIOD'' then ''0s'' else [])"

theorem ping_period_unchecked_witness:
  "\<exists>N c. (main_start (demo_world zero_period_env) :: (nat, nat, kv, danmaku list) node startup) = Started N \<and>
     ServeWS_open clear_jwt 1000 N NewHandler (\<lambda>r w. None) ''r1'' (clear_token demo_claims (nd_jwtSecret N))
       ''127.0.0.1'' = Connected c \<and> writePump_begin c = None"
proof -
  have "zero_period_env ''MYSQL_DSN'' \<noteq> []" by (simp add: zero_period_env_def)
  then obtain cfg where c: "Load zero_period_env = Ok cfg" using Load_Ok by blast
  define N where "N = (build_node cfg 0 [] (demo_world zero_period_env) :: (nat, nat, kv, danmaku list) node)"
  have N: "main_start (demo_world zero_period_env) = Started N"
    unfolding N_def by (rule demo_world_starts [OF c])
  have env: "w_env (demo_world zero_period_env) ''WS_PING_PERIOD'' = ''0s''"
    by (simp add: demo_world_def zero_period_env_def)
  have "duration_String 0 = ''0s''" by (simp add: duration_String_def duration_text_def)
  then have z: "ParseDuration ''0s'' = Some 0" using ParseDuration_String [of 0] by simp
  have "writePump_begin (NewClient ''u1'' ''r1'' ''127.0.0.1'' (nd_clientCfg N)) = None"
    by (rule ping_period_unchecked [OF N _ _ _ demo_opens, of 0]) (simp_all add: env z)
  with N demo_opens show ?thesis by blast
qed

end
