(* ===== verification/Go_Url_Parse.thy ===== *)
theory Go_Url_Parse
  imports Go_Url
begin

text \<open>
  \<open>url.Parse\<close> of net/url, and \<open>URL.String\<close> for a URL without path, query and fragment, which is
  what the load generator makes of its base URL. \<open>None\<close> is an error; its text is never used.
\<close>

section \<open>Escapes\<close>

text \<open>The characters that are escaped in a host, and in the user information.\<close>

definition host_escape :: "char \<Rightarrow> bool" where
  "host_escape c \<longleftrightarrow>
     \<not> (query_unreserved c \<or> c \<in> set ''!$&()*+,;=:[]<>'' \<or> c = CHR 0x22 \<or> c = CHR 0x27)"

definition user_escape :: "char \<Rightarrow> bool" where
  "user_escape c \<longleftrightarrow> \<not> (query_unreserved c \<or> c \<in> set ''$&+,;='')"

fun url_escape :: "(char \<Rightarrow> bool) \<Rightarrow> string \<Rightarrow> string" where
  "url_escape esc [] = []"
| "url_escape esc (c # s) =
     (if esc c then [CHR ''%'', upper_hex (byte c div 16), upper_hex (byte c mod 16)] else [c]) @
     url_escape esc s"

text \<open>
  \<open>ok_hex\<close> says which escapes are allowed, by the values of their two digits, and \<open>ok_raw\<close> which
  characters may stand for themselves.
\<close>

fun url_unescape :: "(nat \<Rightarrow> nat \<Rightarrow> bool) \<Rightarrow> (char \<Rightarrow> bool) \<Rightarrow> string \<Rightarrow> string option" where
  "url_unescape ok_hex ok_raw [] = Some []"
| "url_unescape ok_hex ok_raw (c # s) =
     (if c = CHR ''%'' then
        (case s of
           a # b # t \<Rightarrow>
             (case (hex_val a, hex_val b) of
                (Some i, Some j) \<Rightarrow>
                  if ok_hex i j
                  then map_option (\<lambda>u. char_of (i * 16 + j) # u) (url_unescape ok_hex ok_raw t)
                  else None
              | _ \<Rightarrow> None)
         | _ \<Rightarrow> None)
      else if ok_raw c then map_option (\<lambda>u. c # u) (url_unescape ok_hex ok_raw s)
      else None)"

definition unescape_any :: "string \<Rightarrow> string option" where
  "unescape_any = url_unescape (\<lambda>i j. True) (\<lambda>c. True)"

definition host_raw :: "char \<Rightarrow> bool" where
  "host_raw c \<longleftrightarrow> 128 \<le> byte c \<or> \<not> host_escape c"

text \<open>Only bytes outside of ASCII and the percent sign may be escaped in a host.\<close>

definition unescape_host :: "string \<Rightarrow> string option" where
  "unescape_host = url_unescape (\<lambda>i j. 8 \<le> i \<or> (i = 2 \<and> j = 5)) host_raw"

definition unescape_zone :: "string \<Rightarrow> string option" where
  "unescape_zone =
     url_unescape (\<lambda>i j. (i = 2 \<and> j = 5) \<or> i * 16 + j = 32 \<or> \<not> host_escape (char_of (i * 16 + j))) host_raw"

section \<open>Parts\<close>

definition scheme_char :: "char \<Rightarrow> bool" where
  "scheme_char c \<longleftrightarrow> (query_unreserved c \<and> c \<noteq> CHR ''_'' \<and> c \<noteq> CHR ''~'') \<or> c = CHR ''+''"

definition letter :: "char \<Rightarrow> bool" where
  "letter c \<longleftrightarrow> (let l = byte (lower_ascii c) in 97 \<le> l \<and> l \<le> 122)"

definition getScheme :: "string \<Rightarrow> (string \<times> string) option" where
  "getScheme raw =
     (case dropWhile scheme_char raw of
        CHR '':'' # path \<Rightarrow>
          (case takeWhile scheme_char raw of
             [] \<Rightarrow> None
           | c # s \<Rightarrow> if letter c then Some (c # s, path) else Some ([], raw))
      | _ \<Rightarrow> Some ([], raw))"

text \<open>What stands before and after the last occurrence of a character.\<close>

definition cut_last :: "char \<Rightarrow> string \<Rightarrow> (string \<times> string) option" where
  "cut_last c s =
     (if c \<in> set s
      then Some (rev (drop 1 (dropWhile (\<lambda>x. x \<noteq> c) (rev s))), rev (takeWhile (\<lambda>x. x \<noteq> c) (rev s)))
      else None)"

fun cut_zone :: "string \<Rightarrow> (string \<times> string) option" where
  "cut_zone [] = None"
| "cut_zone (c # s) =
     (if take 3 (c # s) = ''%25'' then Some ([], c # s)
      else map_option (\<lambda>(a, b). (c # a, b)) (cut_zone s))"

definition valid_port :: "string \<Rightarrow> bool" where
  "valid_port s \<longleftrightarrow> s = [] \<or> (hd s = CHR '':'' \<and> list_all is_digit (tl s))"

definition parseHost :: "string \<Rightarrow> string option" where
  "parseHost host =
     (if take 1 host = ''['' then
        (case cut_last (CHR '']'') host of
           None \<Rightarrow> None
         | Some (lit, colonPort) \<Rightarrow>
             if \<not> valid_port colonPort then None
             else (case cut_zone lit of
                     None \<Rightarrow> unescape_host host
                   | Some (h1, h2) \<Rightarrow>
                       (case (unescape_host h1, unescape_zone h2, unescape_host (CHR '']'' # colonPort)) of
                          (Some a, Some z, Some p) \<Rightarrow> Some (a @ z @ p)
                        | _ \<Rightarrow> None)))
      else
        (case cut_last (CHR '':'') host of
           Some (name, port) \<Rightarrow> if valid_port (CHR '':'' # port) then unescape_host host else None
         | None \<Rightarrow> unescape_host host))"

definition userinfo_char :: "char \<Rightarrow> bool" where
  "userinfo_char c \<longleftrightarrow> query_unreserved c \<or> c \<in> set '':!$&()*+,;=%@'' \<or> c = CHR 0x27"

text \<open>The user name, and the password when one was set.\<close>

type_synonym userinfo = "string \<times> string option"

definition parseUserinfo :: "string \<Rightarrow> userinfo option" where
  "parseUserinfo s =
     (if \<not> list_all userinfo_char s then None
      else if CHR '':'' \<notin> set s then map_option (\<lambda>u. (u, None)) (unescape_any s)
      else (case cut (CHR '':'') s of
              (name, pw) \<Rightarrow>
                (case (unescape_any name, unescape_any pw) of
                   (Some n, Some p) \<Rightarrow> Some (n, Some p)
                 | _ \<Rightarrow> None)))"

definition parseAuthority :: "string \<Rightarrow> (userinfo option \<times> string) option" where
  "parseAuthority authority =
     (case cut_last (CHR ''@'') authority of
        None \<Rightarrow> map_option (\<lambda>h. (None, h)) (parseHost authority)
      | Some (info, h) \<Rightarrow>
          (case (parseHost h, parseUserinfo info) of
             (Some host, Some user) \<Rightarrow> Some (Some user, host)
           | _ \<Rightarrow> None))"

section \<open>Parse\<close>

text \<open>
  The hints \<open>RawPath\<close> and \<open>RawFragment\<close>, which only say how to write a path and a fragment, are
  left out.
\<close>

record url =
  u_Scheme :: string
  u_Opaque :: string
  u_User :: "userinfo option"
  u_Host :: string
  u_Path :: string
  u_OmitHost :: bool
  u_ForceQuery :: bool
  u_RawQuery :: string
  u_Fragment :: string

definition empty_url :: url where
  "empty_url =
     \<lparr>u_Scheme = [], u_Opaque = [], u_User = None, u_Host = [], u_Path = [], u_OmitHost = False,
      u_ForceQuery = False, u_RawQuery = [], u_Fragment = []\<rparr>"

definition ctl_byte :: "char \<Rightarrow> bool" where
  "ctl_byte c \<longleftrightarrow> byte c < 32 \<or> byte c = 127"

text \<open>What follows the scheme, and its query: whether one is forced, and what it is.\<close>

definition split_query :: "string \<Rightarrow> string \<times> bool \<times> string" where
  "split_query s =
     (if s \<noteq> [] \<and> last s = CHR ''?'' \<and> CHR ''?'' \<notin> set (butlast s) then (butlast s, True, [])
      else case cut (CHR ''?'') s of (rest, q) \<Rightarrow> (rest, False, q))"

definition parse_rest :: "url \<Rightarrow> string \<Rightarrow> url option" where
  "parse_rest u rest =
     (if take 1 rest \<noteq> ''/'' \<and> u_Scheme u \<noteq> [] then Some (u\<lparr>u_Opaque := rest\<rparr>)
      else if take 1 rest \<noteq> ''/'' \<and> CHR '':'' \<in> set (takeWhile (\<lambda>c. c \<noteq> CHR ''/'') rest) then None
      else if (u_Scheme u \<noteq> [] \<or> take 3 rest \<noteq> ''///'') \<and> take 2 rest = ''//'' then
        (let authority = takeWhile (\<lambda>c. c \<noteq> CHR ''/'') (drop 2 rest);
             path = dropWhile (\<lambda>c. c \<noteq> CHR ''/'') (drop 2 rest)
         in case (parseAuthority authority, unescape_any path) of
              (Some (user, host), Some p) \<Rightarrow> Some (u\<lparr>u_User := user, u_Host := host, u_Path := p\<rparr>)
            | _ \<Rightarrow> None)
      else map_option (\<lambda>p. u\<lparr>u_OmitHost := (u_Scheme u \<noteq> [] \<and> take 1 rest = ''/''), u_Path := p\<rparr>)
             (unescape_any rest))"

definition parse_url :: "string \<Rightarrow> url option" where
  "parse_url raw =
     (if list_ex ctl_byte raw then None
      else if raw = ''*'' then Some (empty_url\<lparr>u_Path := ''*''\<rparr>)
      else (case getScheme raw of
              None \<Rightarrow> None
            | Some (scheme, rest) \<Rightarrow>
                (case split_query rest of
                   (rest, force, q) \<Rightarrow>
                     parse_rest (empty_url\<lparr>u_Scheme := map lower_ascii scheme, u_ForceQuery := force,
                       u_RawQuery := q\<rparr>) rest)))"

definition url_Parse :: "string \<Rightarrow> url option" where
  "url_Parse raw =
     (case cut (CHR ''#'') raw of
        (u, frag) \<Rightarrow>
          (case parse_url u of
             None \<Rightarrow> None
           | Some url \<Rightarrow>
               if frag = [] then Some url
               else map_option (\<lambda>f. url\<lparr>u_Fragment := f\<rparr>) (unescape_any frag)))"

section \<open>String\<close>

definition userinfo_String :: "userinfo \<Rightarrow> string" where
  "userinfo_String u =
     url_escape user_escape (fst u) @
     (case snd u of None \<Rightarrow> [] | Some p \<Rightarrow> CHR '':'' # url_escape user_escape p)"

text \<open>For a URL with a scheme, and without path and fragment.\<close>

definition url_String :: "url \<Rightarrow> string" where
  "url_String u =
     u_Scheme u @ '':'' @
     (if u_Opaque u \<noteq> [] then u_Opaque u
      else if u_OmitHost u \<and> u_Host u = [] \<and> u_User u = None then []
      else
        (if u_Host u \<noteq> [] \<or> u_User u \<noteq> None then ''//'' else []) @
        (case u_User u of None \<Rightarrow> [] | Some ui \<Rightarrow> userinfo_String ui @ ''@'') @
        url_escape host_escape (u_Host u)) @
     (if u_ForceQuery u \<or> u_RawQuery u \<noteq> [] then CHR ''?'' # u_RawQuery u else [])"

section \<open>Plain URLs\<close>

text \<open>A name or an IPv4 address, with an optional port.\<close>

definition plain_host :: "string \<Rightarrow> bool" where
  "plain_host h \<longleftrightarrow> (\<exists>name port. h = name @ port \<and> name \<noteq> [] \<and> list_all query_unreserved name \<and> valid_port port)"

definition plain_path :: "string \<Rightarrow> bool" where
  "plain_path p \<longleftrightarrow> (p = [] \<or> hd p = CHR ''/'') \<and> \<not> list_ex ctl_byte p \<and> set p \<inter> {CHR ''%'', CHR ''?'', CHR ''#''} = {}"

lemma unescape_id:
  "CHR ''%'' \<notin> set s \<Longrightarrow> list_all ok_raw s \<Longrightarrow> url_unescape ok_hex ok_raw s = Some s"
  by (induction s) auto

lemma escape_id: "list_all (\<lambda>c. \<not> esc c) s \<Longrightarrow> url_escape esc s = s"
  by (induction s) auto

lemma cut_last_none: "c \<notin> set s \<Longrightarrow> cut_last c s = None"
  by (simp add: cut_last_def)

lemma cut_last_at:
  assumes "c \<notin> set t"
  shows "cut_last c (s @ c # t) = Some (s, t)"
proof -
  have "\<forall>x \<in> set (rev t). x \<noteq> c" using assms by auto
  then show ?thesis by (simp add: cut_last_def takeWhile_append dropWhile_append)
qed

lemma letter_unreserved: "letter c \<Longrightarrow> query_unreserved c \<and> scheme_char c"
proof -
  have "\<not> letter CHR ''_''" "\<not> letter CHR ''~''" by code_simp+
  then show "letter c \<Longrightarrow> query_unreserved c \<and> scheme_char c"
    by (auto simp: scheme_char_def letter_def query_unreserved_def)
qed

lemma host_chars [simp]:
  "\<not> query_unreserved CHR '':''" "\<not> query_unreserved CHR ''/''" "\<not> query_unreserved CHR ''@''"
  "\<not> query_unreserved CHR ''[''" "\<not> scheme_char CHR '':''" "\<not> host_escape CHR '':''"
  "\<not> ctl_byte CHR '':''" "\<not> ctl_byte CHR ''/''" "\<not> ctl_byte CHR ''?''"
  by code_simp+

lemma unreserved_host: "query_unreserved c \<Longrightarrow> \<not> host_escape c \<and> host_raw c"
  by (simp add: host_escape_def host_raw_def)

lemma unreserved_printable:
  assumes "query_unreserved c"
  shows "\<not> ctl_byte c"
proof
  assume "ctl_byte c"
  then have n: "byte c \<in> set (127 # [0..<32])" by (auto simp: ctl_byte_def)
  have "list_all (\<lambda>n. \<not> query_unreserved (char_of n)) (127 # [0..<32])" by code_simp
  then have "\<not> query_unreserved (char_of (byte c))" using n unfolding list_all_iff by (rule bspec)
  with assms show False by simp
qed

lemma digit_unreserved: "is_digit c \<Longrightarrow> query_unreserved c"
  by (simp add: query_unreserved_def)

lemma plain_host_cases:
  assumes "plain_host h"
  obtains name where "h = name" "name \<noteq> []" "list_all query_unreserved name"
    | name ds where "h = name @ CHR '':'' # ds" "name \<noteq> []" "list_all query_unreserved name" "list_all is_digit ds"
proof -
  obtain name port where h: "h = name @ port" "name \<noteq> []" "list_all query_unreserved name" "valid_port port"
    using assms by (auto simp: plain_host_def)
  show thesis
  proof (cases port)
    case Nil
    with h that(1) show thesis by simp
  next
    case (Cons c ds)
    with h that(2) show thesis by (simp add: valid_port_def)
  qed
qed

lemma plain_host_set:
  assumes "plain_host h"
  shows "\<forall>c \<in> set h. query_unreserved c \<or> c = CHR '':''" "h \<noteq> []" "hd h \<noteq> CHR ''[''"
proof -
  have hd: "query_unreserved (hd name)" if "name \<noteq> []" "list_all query_unreserved name" for name
    using that by (cases name) simp_all
  have ds: "list_all is_digit ds \<Longrightarrow> \<forall>c \<in> set ds. query_unreserved c" for ds
    using digit_unreserved by (auto simp: list_all_iff)
  show "\<forall>c \<in> set h. query_unreserved c \<or> c = CHR '':''" "h \<noteq> []"
    using ds by (cases rule: plain_host_cases [OF assms]; force simp: list_all_iff)+
  have "query_unreserved (hd h)" using hd by (cases rule: plain_host_cases [OF assms]) simp_all
  then show "hd h \<noteq> CHR ''[''" by auto
qed

lemma plain_host_parse:
  assumes "plain_host h"
  shows "parseAuthority h = Some (None, h)" "url_escape host_escape h = h"
proof -
  note c = plain_host_set [OF assms]
  have at: "CHR ''@'' \<notin> set h" "CHR ''%'' \<notin> set h" using c(1) by auto
  have raw: "list_all host_raw h"
    using c(1) unreserved_host by (auto simp: list_all_iff host_raw_def)
  have un: "unescape_host h = Some h"
    unfolding unescape_host_def by (rule unescape_id [OF at(2) raw])
  have lit: "take 1 h \<noteq> ''[''" using c(2,3) by (cases h) auto
  have "parseHost h = Some h" using assms
  proof (cases rule: plain_host_cases)
    case (1 name)
    then have "CHR '':'' \<notin> set h" by (auto simp: list_all_iff)
    from cut_last_none [OF this] lit un show ?thesis by (simp add: parseHost_def)
  next
    case (2 name ds)
    have "\<not> is_digit CHR '':''" by (simp add: is_digit_def)
    with 2 have "CHR '':'' \<notin> set ds" by (auto simp: list_all_iff)
    from cut_last_at [OF this, of name] 2 lit un show ?thesis
      unfolding parseHost_def by (simp add: valid_port_def)
  qed
  with cut_last_none [OF at(1)] show "parseAuthority h = Some (None, h)" by (simp add: parseAuthority_def)
  show "url_escape host_escape h = h"
    by (rule escape_id) (use c(1) unreserved_host in \<open>auto simp: list_all_iff\<close>)
qed

lemma split_query_plain:
  assumes "CHR ''?'' \<notin> set s"
  shows "split_query s = (s, False, [])" "q \<noteq> [] \<Longrightarrow> split_query (s @ CHR ''?'' # q) = (s, False, q)"
proof -
  show "split_query s = (s, False, [])"
  proof (cases "s = []")
    case False
    then have "last s \<noteq> CHR ''?''" using assms last_in_set [OF False] by metis
    with cut_none [OF assms] show ?thesis by (simp add: split_query_def)
  qed (simp add: split_query_def cut_def)
  show "q \<noteq> [] \<Longrightarrow> split_query (s @ CHR ''?'' # q) = (s, False, q)"
    using cut_at [OF assms, of q] by (simp add: split_query_def butlast_append)
qed

lemma getScheme_at:
  assumes "scheme \<noteq> []" "list_all letter scheme"
  shows "getScheme (scheme @ CHR '':'' # rest) = Some (scheme, rest)"
proof -
  have "\<forall>c \<in> set scheme. scheme_char c" using assms(2) letter_unreserved by (auto simp: list_all_iff)
  then have "dropWhile scheme_char (scheme @ CHR '':'' # rest) = CHR '':'' # rest"
    "takeWhile scheme_char (scheme @ CHR '':'' # rest) = scheme"
    by (simp_all add: dropWhile_append takeWhile_append)
  with assms show ?thesis unfolding getScheme_def by (cases scheme) simp_all
qed

text \<open>The query of a URL, with its question mark.\<close>

definition query_part :: "string \<Rightarrow> string" where
  "query_part q = (if q = [] then [] else CHR ''?'' # q)"

lemma url_Parse_plain:
  assumes "scheme \<noteq> []" "list_all letter scheme" "plain_host h" "plain_path p"
    and "\<not> list_ex ctl_byte q" "CHR ''#'' \<notin> set q"
  shows "url_Parse (scheme @ ''://'' @ h @ p @ query_part q) =
    Some (empty_url\<lparr>u_Scheme := map lower_ascii scheme, u_Host := h, u_Path := p, u_RawQuery := q\<rparr>)"
proof -
  note h = plain_host_set [OF assms(3)]
  let ?rest = "''//'' @ h @ p" and ?raw = "scheme @ ''://'' @ h @ p @ query_part q"
  have s: "\<forall>c \<in> set scheme. query_unreserved c"
    using assms(2) letter_unreserved by (auto simp: list_all_iff)
  have frag: "CHR ''#'' \<notin> set ?raw"
    using s h(1) assms(4,6) by (auto simp: plain_path_def query_part_def)
  have q: "CHR ''?'' \<notin> set ?rest" using h(1) assms(4) by (auto simp: plain_path_def)
  have "\<forall>c \<in> set scheme. \<not> ctl_byte c" "\<forall>c \<in> set h. \<not> ctl_byte c"
    using s h(1) unreserved_printable host_chars(7) by metis+
  then have "\<not> list_ex ctl_byte scheme" "\<not> list_ex ctl_byte h" by (simp_all add: list_ex_iff)
  then have ctl: "\<not> list_ex ctl_byte ?raw"
    using assms(4,5) by (simp add: plain_path_def query_part_def)
  have raw: "?raw = scheme @ CHR '':'' # (?rest @ query_part q)" by simp
  have star: "?raw \<noteq> ''*''" using assms(1) by (cases scheme) auto
  have split: "split_query (?rest @ query_part q) = (?rest, False, q)"
    using split_query_plain(1) [OF q] split_query_plain(2) [OF q, of q] by (cases "q = []") (simp_all add: query_part_def)
  have slash: "\<forall>c \<in> set h. c \<noteq> CHR ''/''" using h(1) by auto
  have t: "takeWhile (\<lambda>c. c \<noteq> CHR ''/'') (h @ p) = h" "dropWhile (\<lambda>c. c \<noteq> CHR ''/'') (h @ p) = p"
    using slash assms(4) by (cases p; auto simp: plain_path_def takeWhile_append dropWhile_append)+
  have path: "unescape_any p = Some p"
    unfolding unescape_any_def by (rule unescape_id) (use assms(4) in \<open>auto simp: plain_path_def list_all_iff\<close>)
  have rest: "parse_rest (empty_url\<lparr>u_Scheme := map lower_ascii scheme, u_ForceQuery := False, u_RawQuery := q\<rparr>) ?rest =
      Some (empty_url\<lparr>u_Scheme := map lower_ascii scheme, u_Host := h, u_Path := p, u_RawQuery := q\<rparr>)"
    using t path plain_host_parse(1) [OF assms(3)] assms(1) by (simp add: parse_rest_def empty_url_def Let_def)
  have "parse_url ?raw =
      Some (empty_url\<lparr>u_Scheme := map lower_ascii scheme, u_Host := h, u_Path := p, u_RawQuery := q\<rparr>)"
    unfolding parse_url_def raw using ctl star rest
    by (simp only: raw getScheme_at [OF assms(1,2)] split option.case prod.case if_False)
  then show ?thesis unfolding url_Parse_def cut_none [OF frag] by simp
qed

end
