(* ===== verification/Load_Main.thy ===== *)
theory Load_Main
  imports Load_Run Go_Url_Parse
begin

text \<open>
  The main function of the load generator: it checks its flags, finds the base of the WebSocket
  URL, prints what it is going to do, asks the server whether it is healthy, runs the workers of
  theory Load_Run, and reports. The flags are given parsed.
\<close>

section \<open>The base of the WebSocket URL\<close>

definition inferWSBase :: "string \<Rightarrow> string" where
  "inferWSBase baseHTTP =
     (case url_Parse baseHTTP of
        None \<Rightarrow> ''ws://127.0.0.1:8080''
      | Some u \<Rightarrow>
          let u = u\<lparr>u_Scheme := (if u_Scheme u = ''https'' then ''wss'' else ''ws'')\<rparr>;
              u = u\<lparr>u_Path := [], u_RawQuery := [], u_Fragment := []\<rparr>
          in TrimRight_slash (url_String u))"

section \<open>main\<close>

record load_flags =
  lf_baseHTTP :: string
  lf_baseWS :: string
  lf_clients :: int64
  lf_duration :: duration
  lf_sendInterval :: duration
  lf_roomCount :: int64
  lf_roomPrefix :: string
  lf_timeout :: duration

definition default_flags :: load_flags where
  "default_flags =
     \<lparr>lf_baseHTTP = ''http://127.0.0.1:8080'', lf_baseWS = [], lf_clients = 30, lf_duration = seconds 20,
      lf_sendInterval = millis 900, lf_roomCount = 3, lf_roomPrefix = ''room-load-'', lf_timeout = seconds 5\<rparr>"

definition load_ws_base :: "load_flags \<Rightarrow> string" where
  "load_ws_base F = (if lf_baseWS F = [] then inferWSBase (lf_baseHTTP F) else lf_baseWS F)"

definition load_banner :: "load_flags \<Rightarrow> string list" where
  "load_banner F =
     [''=== DanmakuX WS Load Test ==='', ''base-http: '' @ lf_baseHTTP F, ''base-ws: '' @ load_ws_base F,
      ''clients: '' @ int64_dec (lf_clients F), ''duration: '' @ duration_String (lf_duration F),
      ''send-interval: '' @ duration_String (lf_sendInterval F), ''rooms: '' @ int64_dec (lf_roomCount F)]"

text \<open>
  The process ends with a code and the lines it printed to its two outputs, or it runs its
  workers, each with its index. The result is then the report.
\<close>

datatype load_outcome =
  Load_Exit nat "string list" "string list"
| Load_Runs "string list" "nat list" string

definition load_begin :: "(string \<Rightarrow> load_reply result) \<Rightarrow> load_flags \<Rightarrow> load_outcome" where
  "load_begin get F =
     (if \<not> args_ok (lf_clients F) (lf_duration F) (lf_sendInterval F) (lf_roomCount F)
      then Load_Exit 1 [] [''invalid arguments'']
      else case preflight get (lf_baseHTTP F) of
             Some err \<Rightarrow>
               Load_Exit 2 (load_banner F)
                 [''preflight failed: '' @ error_text err,
                  ''hint: make sure backend is running, e.g. `make run` in another terminal.'']
           | None \<Rightarrow> Load_Runs (load_banner F) [0..<nat (sint (lf_clients F))] (load_ws_base F))"

section \<open>Where the workers connect\<close>

lemma url_String_host:
  assumes "plain_host h"
  shows "url_String (empty_url\<lparr>u_Scheme := scheme, u_Host := h\<rparr>) = scheme @ ''://'' @ h"
  using plain_host_set(2) [OF assms] plain_host_parse(2) [OF assms]
  by (simp add: url_String_def empty_url_def)

lemma inferWSBase_plain:
  assumes "scheme \<noteq> []" "list_all letter scheme" "plain_host h" "plain_path p"
    and "\<not> list_ex ctl_byte q" "CHR ''#'' \<notin> set q"
  shows "inferWSBase (scheme @ ''://'' @ h @ p @ query_part q) =
    (if map lower_ascii scheme = ''https'' then ''wss://'' else ''ws://'') @ h"
proof -
  have last: "last h \<noteq> CHR ''/''"
    using plain_host_set(1,2) [OF assms(3)] last_in_set [of h] by force
  have trim: "TrimRight_slash (s @ h) = s @ h" for s
    using last plain_host_set(2) [OF assms(3)]
    by (cases h rule: rev_cases) (simp_all add: TrimRight_slash_def)
  show ?thesis
    unfolding inferWSBase_def url_Parse_plain [OF assms] option.case
    using url_String_host [OF assms(3)] trim [of "''ws://''"] trim [of "''wss://''"]
    by (simp add: empty_url_def Let_def)
qed

text \<open>
  C32. For a base URL with a name or an IPv4 address, an optional port, and any path, query and
  trailing slashes, the WebSocket base is the same host and port under \<open>wss\<close> for \<open>https\<close> in any
  case, and under \<open>ws\<close> for every other scheme.
\<close>

theorem inferWSBase_keeps_host:
  assumes "scheme \<noteq> []" "list_all letter scheme" "plain_host h" "plain_path p"
    and "\<not> list_ex ctl_byte q" "CHR ''#'' \<notin> set q"
  shows "inferWSBase (scheme @ ''://'' @ h @ p @ query_part q) =
    (if map lower_ascii scheme = ''https'' then ''wss://'' else ''ws://'') @ h"
  by (rule inferWSBase_plain [OF assms])

lemma loopback_plain: "plain_host ''127.0.0.1:8080''"
proof -
  have "list_all query_unreserved ''127.0.0.1''" "valid_port '':8080''" by code_simp+
  then show ?thesis unfolding plain_host_def
    by (intro exI [of _ "''127.0.0.1''"] exI [of _ "'':8080''"]) simp
qed

theorem inferWSBase_keeps_host_witness:
  "inferWSBase (lf_baseHTTP default_flags) = ''ws://127.0.0.1:8080'' \<and>
   inferWSBase ''HTTPS://127.0.0.1:8080/api/?debug=1'' = ''wss://127.0.0.1:8080''"
proof -
  have l: "list_all letter ''http''" "list_all letter ''HTTPS''" by code_simp+
  have p: "plain_path []" "plain_path ''/api/''" by (simp_all add: plain_path_def ctl_byte_def byte_def)
  have q: "\<not> list_ex ctl_byte []" "\<not> list_ex ctl_byte ''debug=1''" by (simp_all add: ctl_byte_def byte_def)
  have "map lower_ascii ''HTTPS'' = ''https''" "map lower_ascii ''http'' = ''http''" by code_simp+
  with inferWSBase_keeps_host [OF _ l(1) loopback_plain p(1) q(1)]
    inferWSBase_keeps_host [OF _ l(2) loopback_plain p(2) q(2)]
  show ?thesis by (simp add: query_part_def default_flags_def)
qed

text \<open>The URL a worker dials then has the query that \<open>load_worker_connects\<close> asks for.\<close>

lemma inferred_base_plain:
  assumes "scheme \<noteq> []" "list_all letter scheme" "plain_host h" "plain_path p"
    and "\<not> list_ex ctl_byte q" "CHR ''#'' \<notin> set q"
  shows "set (inferWSBase (scheme @ ''://'' @ h @ p @ query_part q)) \<inter> {CHR ''?'', CHR ''#''} = {}"
  using plain_host_set(1) [OF assms(3)] unfolding inferWSBase_plain [OF assms] by auto

text \<open>
  Two base URLs that are not of this form. \<open>RawQuery\<close> is cleared but \<open>ForceQuery\<close> is not, so a lone
  question mark stays, and the room and the token that a worker appends end up in a query the
  server cannot read. And without a scheme the host is taken for one.
\<close>

lemma inferWSBase_odd:
  "inferWSBase ''http://h:1/?'' = ''ws://h:1?''" "inferWSBase ''localhost:8080'' = ''ws:8080''"
  by code_simp+

lemma question_mark_hides_room:
  "query_get (url_query (ws_url (inferWSBase ''http://h:1/?'') ''r1'' ''t'')) ''room_id'' = []"
  unfolding inferWSBase_odd by code_simp

end
