(* ===== verification/Room_Order.thy ===== *)
theory Room_Order
  imports Node_Run "HOL-Library.Sublist"
begin

text \<open>
  What a client sees of its room over time. The messages of a room are published on one channel
  of Redis, which gives them an order; each node receives a subsequence of them and hands them to
  the queues of its connections while all its other goroutines run. Whatever these do, a client
  is sent a subsequence of the channel, and two clients agree on the order of what both are sent.
\<close>

section \<open>Subsequences\<close>

lemma subseq_map_filter: "subseq xs ys \<Longrightarrow> subseq (List.map_filter f xs) (List.map_filter f ys)"
  by (induction rule: list_emb.induct) (auto simp: List.map_filter_simps split: option.split)

lemma subseq_of_distinct:
  assumes "subseq xs zs" "distinct zs"
  shows "xs = filter (\<lambda>x. x \<in> set xs) zs"
  using assms
proof (induction rule: list_emb.induct)
  case (list_emb_Cons xs ys y)
  then have "y \<notin> set xs" by (auto dest: list_emb_set)
  with list_emb_Cons show ?case by simp
next
  case (list_emb_Cons2 x y xs ys)
  then have "filter (\<lambda>z. z \<in> set (x # xs)) ys = filter (\<lambda>z. z \<in> set xs) ys"
    by (intro filter_cong) auto
  with list_emb_Cons2 show ?case by simp
qed simp

lemma subseq_distinct: "subseq xs zs \<Longrightarrow> distinct zs \<Longrightarrow> distinct xs"
  using subseq_of_distinct [of xs zs] distinct_filter [of zs "\<lambda>x. x \<in> set xs"] by simp

text \<open>Two subsequences of a list without repetitions hold what they share in the same order.\<close>

lemma subseq_agree:
  assumes "subseq xs zs" "subseq ys zs" "distinct zs"
  shows "filter (\<lambda>x. x \<in> set ys) xs = filter (\<lambda>x. x \<in> set xs) ys"
proof -
  have "filter P xs = filter (\<lambda>x. x \<in> set xs \<and> P x) zs" "filter P ys = filter (\<lambda>x. x \<in> set ys \<and> P x) zs" for P
    using arg_cong [OF subseq_of_distinct [OF assms(1,3)], of "filter P"]
      arg_cong [OF subseq_of_distinct [OF assms(2,3)], of "filter P"] by simp_all
  then show ?thesis by (simp only: conj_commute)
qed

section \<open>What the goroutines do to a queue\<close>

definition danmakus :: "ws_outbound list \<Rightarrow> ws_outbound list" where
  "danmakus ms = filter (\<lambda>m. out_Type m = ''danmaku'') ms"

lemma danmakus_append [simp]: "danmakus (xs @ ys) = danmakus xs @ danmakus ys"
  by (simp add: danmakus_def)

lemma danmakus_reply [simp]:
  "danmakus [error_reply e] = []" "danmakus [pong_reply] = []" "danmakus [] = []"
  "danmakus [outbound_of m] = [outbound_of m]"
  by (simp_all add: danmakus_def error_reply_def pong_reply_def zero_outbound_def outbound_of_def)

lemma Enqueue_queue:
  "send_queue (snd (Enqueue m c)) = send_queue c \<or> send_queue (snd (Enqueue m c)) = send_queue c @ [m]"
  by (simp add: Enqueue_def chan_try_send_def send_queue_def)

text \<open>A change that adds no message of the room to the queue of \<open>p\<close>.\<close>

definition no_news :: "ptr \<Rightarrow> client_heap \<Rightarrow> client_heap \<Rightarrow> bool" where
  "no_news p H H' \<longleftrightarrow> danmakus (send_queue (H' p)) = danmakus (send_queue (H p))"

lemma no_news_reply:
  "danmakus [m] = [] \<Longrightarrow> no_news p (sv_heap s) (sv_heap (reply q m s))"
  using Enqueue_queue [of m "sv_heap s p"] by (auto simp: no_news_def reply_def)

lemma no_news_read:
  assumes "persist_ok s" "read_message D newID now q raw s = Some s'"
  shows "no_news p (sv_heap s) (sv_heap s')"
proof (cases "\<exists>i. unmarshal_inbound raw = Inr i \<and> in_Type i = ''danmaku''")
  case False
  with assms(2) no_news_reply [of "error_reply _" p s q] no_news_reply [of pong_reply p s q] show ?thesis
    by (auto simp: read_message_def split: sum.splits if_splits)
next
  case True
  then obtain i res s2 where i: "unmarshal_inbound raw = Inr i" "in_Type i = ''danmaku''"
    and s2: "Send D newID now (client_request (in_Content i) (sv_heap s q)) s = Some (res, s2)"
    using assms(2) by (auto simp: read_message_def split: option.splits)
  have "s' = (case res of Inl err \<Rightarrow> reply q (error_reply (error_text err)) s2 | Inr msg \<Rightarrow> s2)"
    using assms(2) i s2 by (auto simp: read_message_def split: sum.splits)
  with Send_adds(1) [OF assms(1) s2] no_news_reply [of "error_reply _" p s2 q] show ?thesis
    by (auto simp: no_news_def split: sum.splits)
qed

text \<open>A step of a connection, for a client that was created before.\<close>

lemma serve_client:
  assumes ok: "persist_ok (sy_srv S)" and p: "sy_phase S p \<noteq> NoConn" and step: "serve_step D q S S'"
  shows "no_news p (sv_heap (sy_srv S)) (sv_heap (sy_srv S')) \<and> sy_phase S' p \<noteq> NoConn \<and>
    speaker (sv_heap (sy_srv S') p) = speaker (sv_heap (sy_srv S) p)"
  using step
proof cases
  case (connect user room ip cfg)
  with p have "p \<noteq> q" by auto
  with connect p show ?thesis by (simp add: no_news_def heap_upd_def)
next
  case (reads newID now raw s)
  with p no_news_read [OF ok reads(3)] read_message_speaker(1) [OF ok reads(3)] show ?thesis by simp
next
  case (acquires s)
  with p table_heap [OF Acquire_table [OF acquires(3)]] show ?thesis by (simp add: no_news_def)
next
  case (acquire_error e s)
  with p table_heap [OF Acquire_table [OF acquire_error(3)]] show ?thesis by (simp add: no_news_def)
next
  case (releases u s)
  with p release_begin_table [OF releases(3)] show ?thesis by (auto simp: no_news_def split: option.split)
next
  case (unsubscribes_room h err s)
  with p show ?thesis by (auto simp: no_news_def release_finish_def split: prod.splits)
qed (use p in \<open>auto simp: no_news_def heap_upd_def close_client_queue with_metrics_def\<close>)

text \<open>A broadcast reaches the queue of a client of its room, at most once, and no other queue.\<close>

lemma broadcast_client:
  assumes "map_range order" "hub_ok (sv_heap s) (sv_hub s)"
  shows "cl_RoomID (sv_heap s p) \<noteq> r \<Longrightarrow>
      sv_heap (handle_broadcast order r m n s) p = sv_heap s p"
    "send_queue (sv_heap (handle_broadcast order r m n s) p) \<in>
      {send_queue (sv_heap s p), send_queue (sv_heap s p) @ [outbound_of m]}"
    "p \<in> members r (sv_hub s) \<Longrightarrow>
      sv_heap (handle_broadcast order r m n s) p = snd (Enqueue (outbound_of m) (sv_heap s p))"
proof -
  have heap: "sv_heap (handle_broadcast order r m n s) =
      snd (BroadcastLocal order r (outbound_of m) (sv_hub s) (sv_heap s))"
    by (simp add: handle_broadcast_def with_metrics_def split: prod.split)
  have "sv_heap (handle_broadcast order r m n s) p =
      (if p \<in> members r (sv_hub s) then snd (Enqueue (outbound_of m) (sv_heap s p)) else sv_heap s p)"
    unfolding heap by (simp add: BroadcastLocal_effect [OF assms])
  with members_room [OF assms(2), of r] Enqueue_queue [of "outbound_of m" "sv_heap s p"]
  show "cl_RoomID (sv_heap s p) \<noteq> r \<Longrightarrow> sv_heap (handle_broadcast order r m n s) p = sv_heap s p"
    "send_queue (sv_heap (handle_broadcast order r m n s) p) \<in>
      {send_queue (sv_heap s p), send_queue (sv_heap s p) @ [outbound_of m]}"
    "p \<in> members r (sv_hub s) \<Longrightarrow>
      sv_heap (handle_broadcast order r m n s) p = snd (Enqueue (outbound_of m) (sv_heap s p))"
    by auto
qed

section \<open>A client of a room\<close>

text \<open>
  The goroutine of the subscription of room \<open>r\<close> takes a payload from its channel: one that does
  not decode is skipped, the others go to the handler. \<open>n\<close> is the size of the room it read before.
\<close>

definition on_payload ::
    "(ptr set \<Rightarrow> ptr list) \<Rightarrow> string \<Rightarrow> nat \<Rightarrow> string \<Rightarrow> ('b, 'h, 'l, 'r) service \<Rightarrow> ('b, 'h, 'l, 'r) service" where
  "on_payload order r n payload s =
     (case unmarshal_broadcast payload of Inl _ \<Rightarrow> s | Inr m \<Rightarrow> handle_broadcast order r m n s)"

text \<open>What a write loop sends.\<close>

fun sent_frame :: "ws_outbound recv_outcome \<Rightarrow> ws_outbound list" where
  "sent_frame (Received m) = [m]"
| "sent_frame _ = []"

text \<open>
  A run of a node from the view of its client \<open>p\<close>, while one subscription serves the room \<open>r\<close>:
  the payloads the subscription received and the frames \<open>p\<close> was sent. All other goroutines run
  in between: the connections, the subscriptions of the other rooms, the write loops, those that
  close clients, the worker, and the shutdown.
\<close>

inductive room_view ::
    "('b, 'h, 'l, 'r) deps \<Rightarrow> string \<Rightarrow> ptr \<Rightarrow> ('b, 'h, 'l, 'r) system \<Rightarrow>
     string list \<Rightarrow> ws_outbound list \<Rightarrow> ('b, 'h, 'l, 'r) system \<Rightarrow> bool"
  for D r p S0 where
  view_starts: "room_view D r p S0 [] [] S0"
| view_receives: "room_view D r p S0 (got @ [payload]) frames
      (S\<lparr>sy_srv := on_payload order r n payload (sy_srv S)\<rparr>)"
    if "room_view D r p S0 got frames S" "map_range order"
| view_other_room: "room_view D r p S0 got frames (S\<lparr>sy_srv := on_payload order r' n payload (sy_srv S)\<rparr>)"
    if "room_view D r p S0 got frames S" "r' \<noteq> r" "map_range order"
| view_serves: "room_view D r p S0 got frames S'"
    if "room_view D r p S0 got frames S" "serve_step D q S S'"
| view_writes: "room_view D r p S0 got (frames @ (if q = p then sent_frame res else []))
      (S\<lparr>sy_srv := heap_upd q ((sv_heap (sy_srv S) q)\<lparr>cl_send := ch\<rparr>) (sy_srv S)\<rparr>)"
    if "room_view D r p S0 got frames S" "chan_recv (cl_send (sv_heap (sy_srv S) q)) = (res, ch)"
| view_closes: "room_view D r p S0 got frames
      (S\<lparr>sy_srv := heap_upd q (snd (client_Close ce (sv_heap (sy_srv S) q))) (sy_srv S)\<rparr>)"
    if "room_view D r p S0 got frames S"
| view_ticks: "room_view D r p S0 got frames (S\<lparr>sy_srv := worker_tick D (sy_srv S)\<rparr>)"
    if "room_view D r p S0 got frames S"
| view_takes: "room_view D r p S0 got frames (S\<lparr>sy_srv := worker_receive D (sy_srv S)\<rparr>)"
    if "room_view D r p S0 got frames S"
| view_shuts: "room_view D r p S0 got frames (S\<lparr>sy_ws := snd (shutdown_begin sorder (sy_ws S))\<rparr>)"
    if "room_view D r p S0 got frames S"

lemma reach_payload:
  assumes "system_reach D s0 S"
  shows "system_reach D s0 (S\<lparr>sy_srv := on_payload order r n payload (sy_srv S)\<rparr>)"
proof (cases "unmarshal_broadcast payload")
  case (Inl e)
  have "S\<lparr>sy_srv := sy_srv S\<rparr> = S" by simp
  with assms Inl show ?thesis by (simp add: on_payload_def)
next
  case (Inr m)
  with reach_other [OF assms broadcasts] show ?thesis by (simp add: on_payload_def)
qed

lemma room_view_reach:
  assumes "system_reach D s0 S0"
  shows "room_view D r p S0 got frames S \<Longrightarrow> system_reach D s0 S"
proof (induction rule: room_view.induct)
  case view_starts
  show ?case by (rule assms)
next
  case (view_receives got frames S order payload n)
  from reach_payload [OF view_receives.IH] show ?case .
next
  case (view_other_room got frames S r' order n payload)
  from reach_payload [OF view_other_room.IH] show ?case .
next
  case (view_serves got frames S q S')
  from reach_serve [OF view_serves.IH view_serves(2)] show ?case .
next
  case (view_writes got frames S q res ch)
  from reach_other [OF view_writes.IH writes [OF view_writes(2)]] show ?case .
next
  case (view_closes got frames S q ce)
  from reach_other [OF view_closes.IH closed_by_other] show ?case .
next
  case (view_ticks got frames S)
  from reach_other [OF view_ticks.IH ticks] show ?case .
next
  case (view_takes got frames S)
  from reach_other [OF view_takes.IH receives] show ?case .
next
  case (view_shuts got frames S sorder)
  from reach_other [OF view_shuts.IH shuts_down] show ?case .
qed

text \<open>The messages that the payloads decode to.\<close>

definition payload_message :: "string \<Rightarrow> broadcast_message option" where
  "payload_message payload = (case unmarshal_broadcast payload of Inl _ \<Rightarrow> None | Inr m \<Rightarrow> Some m)"

definition room_messages :: "string list \<Rightarrow> ws_outbound list" where
  "room_messages got = map outbound_of (List.map_filter payload_message got)"

lemma room_messages_append:
  "room_messages (got @ [payload]) =
     room_messages got @ (case payload_message payload of None \<Rightarrow> [] | Some m \<Rightarrow> [outbound_of m])"
  by (induction got) (auto simp: room_messages_def List.map_filter_simps split: option.split)

text \<open>
  The invariant of such a run: the client keeps its room, and what it was sent and what waits in
  its queue is a subsequence of what its subscription received.
\<close>

definition view_inv :: "string \<Rightarrow> ptr \<Rightarrow> string list \<Rightarrow> ws_outbound list \<Rightarrow> ('b, 'h, 'l, 'r) system \<Rightarrow> bool" where
  "view_inv r p got frames S \<longleftrightarrow>
     sy_phase S p \<noteq> NoConn \<and> cl_RoomID (sv_heap (sy_srv S) p) = r \<and>
     subseq (danmakus (frames @ send_queue (sv_heap (sy_srv S) p))) (room_messages got)"

lemma view_inv_keeps:
  assumes "view_inv r p got frames S" "no_news p (sv_heap (sy_srv S)) (sv_heap (sy_srv S'))"
    and "sy_phase S' p \<noteq> NoConn" "cl_RoomID (sv_heap (sy_srv S') p) = cl_RoomID (sv_heap (sy_srv S) p)"
  shows "view_inv r p got frames S'"
  using assms by (simp add: view_inv_def no_news_def)

lemma view_inv_receives:
  assumes inv: "view_inv r p got frames S" and "map_range order" "hub_ok (sv_heap (sy_srv S)) (sv_hub (sy_srv S))"
  shows "view_inv r p (got @ [payload]) frames (S\<lparr>sy_srv := on_payload order r n payload (sy_srv S)\<rparr>)"
proof (cases "unmarshal_broadcast payload")
  case (Inl e)
  with inv show ?thesis by (simp add: view_inv_def on_payload_def room_messages_append payload_message_def)
next
  case (Inr m)
  let ?s = "handle_broadcast order r m n (sy_srv S)"
  have q: "send_queue (sv_heap ?s p) \<in>
      {send_queue (sv_heap (sy_srv S) p), send_queue (sv_heap (sy_srv S) p) @ [outbound_of m]}"
    by (rule broadcast_client(2) [OF assms(2,3)])
  have room: "cl_RoomID (sv_heap ?s p) = cl_RoomID (sv_heap (sy_srv S) p)"
    using calm_broadcast [of "\<lambda>_. Map.empty" "\<lambda>_. True" "sy_srv S" order r m n] by (simp add: calm_def)
  have sub: "subseq (danmakus (frames @ send_queue (sv_heap (sy_srv S) p))) (room_messages got)"
    using inv by (simp add: view_inv_def)
  from q have "subseq (danmakus (frames @ send_queue (sv_heap ?s p))) (room_messages got @ [outbound_of m])"
    using sub list_emb_append_mono [OF sub, of "[outbound_of m]" "[outbound_of m]"] by auto
  with inv room show ?thesis
    by (simp add: view_inv_def on_payload_def Inr room_messages_append payload_message_def)
qed

lemma room_view_inv:
  assumes broker: "dep_broker D = redis_broker_ops P zone border" and fresh: "fresh_node s0"
    and reach: "system_reach D s0 S0" and start: "view_inv r p [] [] S0"
  shows "room_view D r p S0 got frames S \<Longrightarrow> view_inv r p got frames S"
proof (induction rule: room_view.induct)
  case view_starts
  show ?case by (rule start)
next
  case (view_receives got frames S order payload n)
  note I = system_invD [OF redis_node_inv [OF broker fresh room_view_reach [OF reach view_receives(1)]]]
  from view_inv_receives [OF view_receives.IH view_receives(2)] I(2) show ?case by (simp add: hub_inv_def)
next
  case (view_other_room got frames S r' order n payload)
  note I = system_invD [OF redis_node_inv [OF broker fresh room_view_reach [OF reach view_other_room(1)]]]
  have hub: "hub_ok (sv_heap (sy_srv S)) (sv_hub (sy_srv S))" using I(2) by (simp add: hub_inv_def)
  have "cl_RoomID (sv_heap (sy_srv S) p) \<noteq> r'" using view_other_room.IH view_other_room(2) by (simp add: view_inv_def)
  from broadcast_client(1) [OF view_other_room(3) hub this] view_other_room.IH show ?case
    by (auto simp: view_inv_def on_payload_def split: sum.split)
next
  case (view_serves got frames S q S')
  note I = system_invD [OF redis_node_inv [OF broker fresh room_view_reach [OF reach view_serves(1)]]]
  have "persist_ok (sy_srv S)" using I(1) by (simp add: base_inv_def)
  from serve_client [OF this _ view_serves(2), of p] view_serves.IH show ?case
    by (intro view_inv_keeps [OF view_serves.IH]) (auto simp: view_inv_def speaker_def)
next
  case (view_writes got frames S q res ch)
  then show ?case
    by (cases "q = p") (auto simp: view_inv_def heap_upd_def send_queue_def chan_recv_def danmakus_def
        split: list.splits if_splits)
next
  case (view_closes got frames S q ce)
  from view_closes.IH show ?case
    by (auto simp: view_inv_def heap_upd_def close_client_queue client_Close_def send_queue_def)
next
  case (view_shuts got frames S sorder)
  then show ?case by (simp add: view_inv_def)
qed (simp_all add: view_inv_def worker_tick_def)

section \<open>The order of a room\<close>

text \<open>
  The channel of a room: the payloads published to it, in order, and their messages. Ids are
  drawn at random; they are assumed to be distinct, and all texts to be valid UTF-8.
\<close>

definition channel_of :: "broadcast_message list \<Rightarrow> string list \<Rightarrow> bool" where
  "channel_of msgs published \<longleftrightarrow>
     list_all2 (\<lambda>m payload. valid_broadcast m \<and> (\<exists>zone. marshal_broadcast zone m = Ok payload)) msgs published \<and>
     distinct (map bc_MessageID msgs)"

lemma channel_messages:
  assumes "channel_of msgs published"
  shows "room_messages published = map outbound_of msgs"
proof -
  have "list_all2 (\<lambda>m payload. payload_message payload = Some m) msgs published"
    using assms broadcast_roundtrip sanitize_valid_broadcast
    unfolding channel_of_def payload_message_def by (fastforce elim!: list_all2_mono)
  then have "List.map_filter payload_message published = msgs"
    by (induction rule: list_all2_induct) (simp_all add: List.map_filter_simps)
  then show ?thesis by (simp add: room_messages_def)
qed

lemma outbound_distinct:
  assumes "distinct (map bc_MessageID msgs)"
  shows "distinct (map outbound_of msgs)"
proof -
  have "map out_MessageID (map outbound_of msgs) = map bc_MessageID msgs" by (simp add: outbound_of_def)
  with assms show ?thesis by (metis distinct_map)
qed

text \<open>The start of a view: a client that was created for the room and has no message of it yet.\<close>

definition new_in_room :: "string \<Rightarrow> ptr \<Rightarrow> ('b, 'h, 'l, 'r) system \<Rightarrow> bool" where
  "new_in_room r p S \<longleftrightarrow>
     sy_phase S p \<noteq> NoConn \<and> cl_RoomID (sv_heap (sy_srv S) p) = r \<and>
     danmakus (send_queue (sv_heap (sy_srv S) p)) = []"

lemma view_frames:
  assumes "dep_broker D = redis_broker_ops P zone border" "fresh_node s0" "system_reach D s0 S0"
    and "new_in_room r p S0" "room_view D r p S0 got frames S" "subseq got published"
  shows "subseq (danmakus frames) (room_messages published)"
proof -
  have "view_inv r p [] [] S0" using assms(4) by (simp add: view_inv_def new_in_room_def)
  from room_view_inv [OF assms(1-3) this assms(5)]
  have "subseq (danmakus frames) (room_messages got)"
    by (auto simp: view_inv_def intro: subseq_order.order_trans [rotated])
  also have "subseq (room_messages got) (room_messages published)"
    unfolding room_messages_def by (intro subseq_map subseq_map_filter assms(6))
  finally show ?thesis .
qed


text \<open>A client of the demo node that is sent the one message of its room.\<close>

definition demo_room_msg :: broadcast_message where
  "demo_room_msg = zero_broadcast\<lparr>bc_MessageID := ''id-1'', bc_RoomID := ''r1'', bc_Timestamp := 5\<rparr>"

lemma demo_channel: "\<exists>payload. channel_of [demo_room_msg] [payload] \<and> unmarshal_broadcast payload = Ok demo_room_msg"
proof -
  have v: "valid_broadcast demo_room_msg"
    by (simp add: valid_broadcast_def demo_room_msg_def zero_broadcast_def valid_utf8_def byte_def)
  have "\<exists>payload. marshal_broadcast 0 demo_room_msg = Ok payload"
    using marshal_time_epoch [of 5] by (auto simp: marshal_broadcast_def demo_room_msg_def)
  then obtain payload where p: "marshal_broadcast 0 demo_room_msg = Ok payload" ..
  have "unmarshal_broadcast payload = Ok demo_room_msg"
    using broadcast_roundtrip [OF p] sanitize_valid_broadcast [OF v] by simp
  with v p show ?thesis by (auto simp: channel_of_def)
qed

lemma demo_node_like: "demo_like demo_node"
  unfolding demo_like_def demo_node_def
  by (simp add: persist_service_ok)
    (simp add: accepts_def persist_service_def StartPersistenceWorker_def NewMessageService_def make_chan_def Let_def)

lemma demo_view:
  assumes "unmarshal_broadcast payload = Ok demo_room_msg"
  shows "\<exists>S T. system_reach demo_deps demo_node S \<and> new_in_room ''r1'' (Ptr 1) S \<and>
    room_view demo_deps ''r1'' (Ptr 1) S [payload] [outbound_of demo_room_msg] T"
proof -
  let ?p = "Ptr 1"
  obtain S where run: "demo_run (\<lambda>_. True) demo_node Running_Server 5 [] S" and ph: "sy_phase S ?p = Serving"
    and c: "sv_heap (sy_srv S) ?p = NewClient ''u1'' ''r1'' ''127.0.0.1'' demo_cfg"
    using demo_run_serving [OF demo_node_like, of "\<lambda>_. True" demo_cfg] by blast
  have reach: "system_reach demo_deps demo_node S" using main_run_reach [OF run] by simp
  note I = system_invD [OF redis_node_inv [OF demo_node_broker demo_node_fresh reach]]
  from I(2) have hub: "hub_ok (sv_heap (sy_srv S)) (sv_hub (sy_srv S))"
    and j: "joined (sv_hub (sy_srv S)) = conns in_hub S" by (simp_all add: hub_inv_def)
  have "?p \<in> joined (sv_hub (sy_srv S))" unfolding j in_conns ph by simp
  then have mem: "?p \<in> members ''r1'' (sv_hub (sy_srv S))"
    unfolding members_room [OF hub] mem_Collect_eq c by (simp add: NewClient_def)
  let ?s = "on_payload sorted_list_of_set ''r1'' 1 payload (sy_srv S)" and ?m = "outbound_of demo_room_msg"
  have q: "sv_heap ?s ?p = snd (Enqueue ?m (NewClient ''u1'' ''r1'' ''127.0.0.1'' demo_cfg))"
    unfolding on_payload_def assms sum.case
    by (rule broadcast_client(3) [OF ascending_ptr hub mem, unfolded c])
  have v1: "room_view demo_deps ''r1'' ?p S [payload] [] (S\<lparr>sy_srv := ?s\<rparr>)"
    using view_receives [OF view_starts ascending_ptr, of demo_deps "''r1''" ?p S payload 1] by simp
  have "\<exists>ch. chan_recv (cl_send (sv_heap ?s ?p)) = (Received ?m, ch)"
    unfolding q by (simp add: Enqueue_def NewClient_def make_chan_def chan_try_send_def chan_recv_def)
  then obtain ch where "chan_recv (cl_send (sv_heap ?s ?p)) = (Received ?m, ch)" ..
  then have r: "chan_recv (cl_send (sv_heap (sy_srv (S\<lparr>sy_srv := ?s\<rparr>)) ?p)) = (Received ?m, ch)" by simp
  have n: "new_in_room ''r1'' ?p S"
    unfolding new_in_room_def ph c by (simp add: NewClient_def send_queue_def make_chan_def)
  from view_writes [OF v1 r] n reach show ?thesis by auto
qed


end
