(* ===== verification/Spec2Isabelle.thy ===== *)
theory Spec2Isabelle
  imports Metrics Limiter_Spec Room Broker Config Repository Persistence Subscriptions Check_Limit
    Service Service_Run Auth Ws_Handler System Api Load_Test Delivery Load_Run
    Ws_Keepalive Node_Run Server Load_Main Room_Order
begin

text \<open>
  DanmakuX is a server for live comments. Clients hold WebSocket connections to one of several
  nodes and join a room; a message a client sends is checked, rate limited, published to all
  nodes through Redis Pub/Sub, broadcast by each node to its own connections of the room, and
  stored in MySQL in batches. This development models one node and proves what makes its parts
  correct.

  The parts and their theories, in the order in which they build on each other.

  Language and libraries. \<open>Prelude\<close>: the error values of the program, results, pointers, and the
  locale \<open>map_range\<close> of an enumeration of a Go map in an unspecified order. \<open>Go_Int\<close>: 64-bit
  integers and durations as words, decimal text, \<open>strconv.Atoi\<close> and \<open>ParseInt\<close>. \<open>Go_Strings\<close>:
  \<open>strings.TrimSpace\<close> on UTF-8 bytes and unpadded URL base64. \<open>Go_Chan\<close>: buffered channels; the
  locale \<open>drop_newest\<close> is the contract of a non-blocking send, used for the queue of a client
  and for the persistence queue. \<open>Go_Time\<close>: instants and \<open>Duration.String\<close>. \<open>Go_Float\<close>: float64 as
  rounded rationals. \<open>Go_Duration\<close>: \<open>time.ParseDuration\<close>, which reads back what
  \<open>Duration.String\<close> writes. \<open>Go_Rfc3339\<close>: the calendar, the JSON text of a time and
  \<open>time.Parse\<close> with RFC 3339. \<open>Go_Utf8\<close>: runes and the replacement of invalid bytes. \<open>Json\<close>: the
  decoder of encoding/json, its strings and objects. \<open>Go_Url\<close>: query strings. \<open>Go_Url_Parse\<close>:
  \<open>url.Parse\<close>.

  \<open>Protocol\<close>, \<open>Wire\<close> (pkg/protocol, internal/model): the messages and their JSON; a message that
  is written is read back, and a text that was read is valid UTF-8.

  \<open>Metrics\<close> (internal/metrics): the counters, as wrapping words, and the Prometheus text; a
  scraper reads back what was written.

  \<open>Redis\<close>, \<open>Limiter\<close>, \<open>Limiter_Spec\<close> (internal/limiter): the locale \<open>redis_lua\<close> states what the
  Redis commands and the Lua numbers do; a store with expiry times meets it. \<open>script_check\<close> and
  \<open>script_count\<close> are the two loops of the script, \<open>Allow\<close> the Go function around it. The
  abstract limiter is a table of counters (\<open>spec_allow\<close>); the refinement holds for any rules
  that are valid, distinct and below the range of exact Lua numbers (\<open>rules_ok\<close>).
  \<open>window_run\<close> lets requests and time interleave. The locale \<open>limiter_iface\<close> is the interface the
  message service uses.

  \<open>Room\<close> (internal/room): clients live in a heap indexed by pointers, the hub maps rooms to sets of
  pointers; \<open>joined\<close> abstracts the hub to a set of connections.

  \<open>Broker\<close> (internal/broker): the locale \<open>broker_iface\<close> states what a client of a broker relies on
  through the map from live subscriptions to rooms; the Redis broker is an interpretation of
  it. A returned unsubscribe function is a pointer to the variables it captures. What is
  published, and what the goroutine of a subscription receives, is JSON text.

  \<open>Config\<close> (internal/config): loading from the environment. \<open>Repository\<close> (internal/repository):
  batches and history pages; the locale \<open>message_table\<close> states what the database does.

  \<open>Service_State\<close>, \<open>Persistence\<close>, \<open>Subscriptions\<close>, \<open>Check_Limit\<close>, \<open>Service\<close>, \<open>Service_Run\<close>
  (internal/service): the record \<open>service\<close> has the fields of \<open>MessageService\<close> together with the
  states behind its interfaces; the record \<open>deps\<close> has the implementations behind them. The
  queue and the worker are operations of their own (\<open>enqueuePersistence\<close>, \<open>worker_tick\<close>,
  \<open>worker_receive\<close>, \<open>flush\<close>) that run in any order; \<open>conserves\<close> says that no accepted message is
  lost, repeated or reordered. A release of a room is two steps, as in the code: the change of
  the table under the lock (\<open>release_begin\<close>), and the call of the unsubscribe function after it
  (\<open>release_finish\<close>); \<open>subs_rel\<close> is the invariant of the table, the holders and the broker that
  every interleaving keeps. \<open>Service_Run\<close> runs all operations in any order and closes the
  service at the end.

  \<open>Auth\<close> (internal/auth): tokens, over the locale \<open>jwt\<close> for the library. \<open>Ws_Handler\<close>
  (internal/ws): the registry, \<open>Shutdown\<close>, the checks before the upgrade, one iteration of the
  read loop, and the write loop. \<open>System\<close>: all connections at once; a state gives the point that
  each \<open>ServeWS\<close> has reached, a step is one critical section or call of one goroutine, and the
  invariant ties the registry, the hub, the table of subscriptions and the gauge to these
  points. \<open>Ws_Keepalive\<close>: the read loop with its deadline, over the locale \<open>ws_conn\<close> for the
  WebSocket library; what keeps a connection alive is a timer that only the pongs move
  (\<open>timer\<close>). \<open>Api\<close> (internal/api): the HTTP handlers; a client that follows the cursors reads
  the whole history.

  \<open>Node_Run\<close>, \<open>Server\<close> (cmd/danmakux, internal/store, internal/logger): \<open>main_start\<close> builds a node
  from its environment, with every panic and \<open>log.Fatal\<close> on the way; \<open>ServeWS_open\<close> opens a
  connection; \<open>main_run\<close> interleaves all goroutines of the node with the goroutine of \<open>main\<close> from
  the signal to the end of the process. Its invariants carry those of \<open>Service_Run\<close> and \<open>System\<close>
  through the shutdown: what was accepted is saved (\<open>closed_inv\<close>), nothing of the connections is
  left (\<open>quiet\<close>), and every message was sent by a user with a token (\<open>authentic\<close>). In every state
  on the way, the worker needs only its own steps to save what was accepted.

  \<open>Room_Order\<close>: a node from the view of one client (\<open>room_view\<close>). The messages of a room that it is
  sent are a subsequence of the channel of the room, so that all clients agree on their order.

  \<open>Load_Test\<close>, \<open>Load_Run\<close>, \<open>Load_Main\<close> (scripts/load): the load generator. A worker is its requests
  (\<open>getToken\<close>, \<open>worker_begin\<close>), one round of its reader (\<open>reader_step\<close>) and the two halves of a
  send (\<open>send_begin\<close>, \<open>send_end\<close>); \<open>load_step\<close> interleaves all workers, and \<open>load_account\<close> is its
  invariant. \<open>report\<close> gives the lines that are printed, \<open>load_begin\<close> what comes before the
  workers. \<open>Delivery\<close> composes the parts: a frame of one client through \<open>Send\<close>, the broker, the
  subscription of another node and its queues to the frame another client reads, and the first
  request of a worker through the guest endpoint and the checks of the WebSocket endpoint.

  Effects. An operation is a function from a state to a result and a state. An error is a value
  of the type \<open>go_error\<close>; a panic is the value \<open>None\<close> of an operation that can panic, and the
  theorems on \<open>Send\<close>, on the queue and on \<open>Service_Run\<close> prove that it does not occur. The order
  in which the runtime visits a map is a parameter, and the theorems hold for every order.
  Concurrency is interleaving of critical sections; the mutexes of the code make each of them
  atomic. The values of the clock, of the random ids and of the environment are arguments.

  Bounds. Loops over data are structural; the end of the worker is a function whose termination
  is proved from the length of the queue. \<open>read_history\<close> and \<open>http_history\<close> take fuel, and any
  number above the number of messages is enough. The JSON decoder takes fuel; twice the length
  of the text and one is enough (\<open>parse_value_fuel\<close>), and it refuses more than 10000 open arrays
  and objects as the library does. The ids of broker subscriptions are numbered by a 64-bit
  counter; the theorems on closing and on the end of the node need fewer than \<open>2 ^ 64\<close>
  operations before.
  Reference counts and the wait group are unbounded integers, as they count connections. Floats
  are not limited in their exponent, which no value of the program comes near. The percentiles
  are exact for up to \<open>2 ^ 46\<close> delays.

  Parameters. The Redis client and its commands, the database, the set-up of the two and of the
  logger, the JWT library, the HTTP and WebSocket connections (the results of requests, of reads
  and of writes), the order of maps, the local time zone.

  Not modelled. Logging; the contexts and deadlines of calls to the database and to Redis, whose
  failures are results of the parameters; the routing and rendering of the HTTP framework beyond
  the guest endpoint; the parsing of the flags of the load generator.
\<close>

end
